(* ===== verification/Hqq_Prelude.thy ===== *)
theory Hqq_Prelude
  imports Main "HOL-Library.Word"
begin

text \<open>
  The shared vocabulary of the development: the Go integer types as words, byte
  slices as lists, the little-endian codec of the package
  \<^verbatim>\<open>encoding/binary\<close> that every frame format of the repository uses, and the
  generic facts about lists and words that the component theories share.

  The model fixes a 64-bit target (\<^verbatim>\<open>int\<close>, \<^verbatim>\<open>uint\<close> and \<^verbatim>\<open>uintptr\<close> have 64
  bits), as the supported platforms of the README have.
\<close>

unbundle bit_operations_syntax

type_synonym u8 = "8 word"
type_synonym u16 = "16 word"
type_synonym u32 = "32 word"
type_synonym u64 = "64 word"
type_synonym bytes = "u8 list"

named_theorems hqq_consts \<open>the named constants of the source\<close>
named_theorems codec_simps \<open>rewrite rules of the wire codecs\<close>

section \<open>Lists\<close>

definition put_at :: "nat \<Rightarrow> 'a list \<Rightarrow> 'a list \<Rightarrow> 'a list" where
  "put_at off xs b = take off b @ xs @ drop (off + length xs) b"

definition slice_of :: "nat \<Rightarrow> nat \<Rightarrow> 'a list \<Rightarrow> 'a list" where
  "slice_of off n b = take n (drop off b)"

lemma length_put_at [simp]:
  "off + length xs \<le> length b \<Longrightarrow> length (put_at off xs b) = length b"
  by (simp add: put_at_def)

lemma length_slice_of [simp]: "length (slice_of off n b) = min n (length b - off)"
  by (simp add: slice_of_def)

lemma slice_put_same [codec_simps]:
  "off + length xs \<le> length b \<Longrightarrow> n = length xs \<Longrightarrow> slice_of off n (put_at off xs b) = xs"
  by (simp add: slice_of_def put_at_def)

lemma slice_put_before:
  assumes "o1 + n \<le> off" and "off + length xs \<le> length b"
  shows "slice_of o1 n (put_at off xs b) = slice_of o1 n b"
proof -
  have "take n (drop o1 (take off b @ xs @ drop (off + length xs) b)) = take n (drop o1 (take off b))"
    using assms by simp
  also have "\<dots> = take n (drop o1 b)"
    using assms by (simp add: drop_take min_def)
  finally show ?thesis by (simp add: slice_of_def put_at_def)
qed

lemma slice_put_after:
  assumes "off + length xs \<le> o1" and "off + length xs \<le> length b"
  shows "slice_of o1 n (put_at off xs b) = slice_of o1 n b"
proof -
  have "drop o1 (take off b @ xs @ drop (off + length xs) b) = drop o1 b"
    using assms by simp
  then show ?thesis by (simp add: slice_of_def put_at_def)
qed

lemma slice_put_other [codec_simps]:
  assumes "o1 + n \<le> off \<or> off + length xs \<le> o1" and "off + length xs \<le> length b"
  shows "slice_of o1 n (put_at off xs b) = slice_of o1 n b"
  using assms slice_put_before slice_put_after by blast

section \<open>Little-endian words\<close>

primrec le_put :: "nat \<Rightarrow> 'a::len word \<Rightarrow> bytes" where
  "le_put 0 v = []"
| "le_put (Suc n) v = ucast v # le_put n (drop_bit 8 v)"

primrec le_get :: "bytes \<Rightarrow> 'a::len word" where
  "le_get [] = 0"
| "le_get (b # bs) = ucast b OR push_bit 8 (le_get bs)"

abbreviation put64 :: "u64 \<Rightarrow> bytes" where "put64 \<equiv> le_put 8"
abbreviation put32 :: "u32 \<Rightarrow> bytes" where "put32 \<equiv> le_put 4"
abbreviation put16 :: "u16 \<Rightarrow> bytes" where "put16 \<equiv> le_put 2"

abbreviation get64 :: "bytes \<Rightarrow> u64" where "get64 \<equiv> le_get"
abbreviation get32 :: "bytes \<Rightarrow> u32" where "get32 \<equiv> le_get"
abbreviation get16 :: "bytes \<Rightarrow> u16" where "get16 \<equiv> le_get"

lemma length_le_put [simp]: "length (le_put n v) = n"
  by (induction n arbitrary: v) simp_all

lemma le_get_put_take:
  fixes v :: "'a::len word"
  assumes "8 \<le> LENGTH('a)"
  shows "le_get (le_put n v) = take_bit (8 * n) v"
proof (induction n arbitrary: v)
  case 0
  show ?case by simp
next
  case (Suc n)
  have "le_get (le_put (Suc n) v) =
      ucast (ucast v :: u8) OR push_bit 8 (take_bit (8 * n) (drop_bit 8 v))"
    by (simp add: Suc.IH)
  also have "\<dots> = take_bit (8 * Suc n) v"
    by (rule bit_eqI) (auto simp: bit_simps)
  finally show ?case .
qed

lemma le_get_put64 [simp, codec_simps]: "get64 (put64 v) = v"
  using le_get_put_take [of 8 v] by (simp add: take_bit_word_eq_self)

lemma le_get_put32 [simp, codec_simps]: "get32 (put32 v) = v"
  using le_get_put_take [of 4 v] by (simp add: take_bit_word_eq_self)

lemma le_get_put16 [simp, codec_simps]: "get16 (put16 v) = v"
  using le_get_put_take [of 2 v] by (simp add: take_bit_word_eq_self)

lemma bit_le_get_bound: "bit (le_get bs :: 'a::len word) n \<Longrightarrow> n < 8 * length bs"
proof (induction bs arbitrary: n)
  case Nil
  then show ?case by simp
next
  case (Cons b bs)
  then consider "bit b n" | "8 \<le> n" "bit (le_get bs :: 'a word) (n - 8)"
    by (auto simp: bit_simps)
  then show ?case
  proof cases
    case 1
    then have "n < 8" using bit_imp_le_length [of b n] by simp
    then show ?thesis by simp
  next
    case 2
    with Cons.IH [of "n - 8"] show ?thesis by simp
  qed
qed

lemma le_put_get:
  "8 * length bs \<le> LENGTH('a::len) \<Longrightarrow> le_put (length bs) (le_get bs :: 'a word) = bs"
proof (induction bs)
  case Nil
  show ?case by simp
next
  case (Cons b bs)
  let ?g = "le_get bs :: 'a word"
  have len: "8 + 8 * length bs \<le> LENGTH('a)" using Cons.prems by simp
  have lo: "(ucast (ucast b OR push_bit 8 ?g) :: u8) = b"
    by (rule bit_eqI) (use len in \<open>auto simp: bit_simps\<close>)
  have hi: "drop_bit 8 (ucast b OR push_bit 8 ?g) = ?g"
    by (rule bit_eqI)
      (use len in \<open>auto simp: bit_simps dest: bit_imp_le_length bit_le_get_bound\<close>)
  have "le_put (length bs) ?g = bs" using Cons by simp
  then show ?case by (simp only: le_get.simps list.size add_0_right add_Suc_right One_nat_def le_put.simps lo hi)
qed

section \<open>Powers of two\<close>

lemma nat_and_pred_zero: "0 < n \<Longrightarrow> n AND (n - 1) = 0 \<Longrightarrow> \<exists>k. n = (2::nat) ^ k"
proof (induction n rule: less_induct)
  case (less n)
  show ?case
  proof (cases "even n")
    case True
    then obtain m where n: "n = 2 * m" by blast
    with less.prems(1) have m: "0 < m" by simp
    then have pred: "n - 1 = 1 + 2 * (m - 1)" by (simp add: n)
    have "n AND (n - 1) = 2 * (m AND (m - 1))"
      unfolding pred unfolding n by (subst and_rec) simp
    with less.prems(2) have "m AND (m - 1) = 0" by simp
    with less.IH [of m] m n obtain k where "m = 2 ^ k" by auto
    then have "n = 2 ^ Suc k" by (simp add: n)
    then show ?thesis by blast
  next
    case False
    then obtain m where n: "n = 1 + 2 * m" by (metis add.commute oddE)
    have "n AND (n - 1) = 2 * m"
      unfolding n by (subst and_rec) simp
    with less.prems(2) n show ?thesis by (metis add_0_right power_0)
  qed
qed

lemma nat_pow2_iff: "0 < n \<and> n AND (n - 1) = 0 \<longleftrightarrow> (\<exists>k. n = (2::nat) ^ k)"
proof
  assume "0 < n \<and> n AND (n - 1) = 0"
  then show "\<exists>k. n = 2 ^ k" using nat_and_pred_zero by blast
next
  assume "\<exists>k. n = 2 ^ k"
  then obtain k where n: "n = 2 ^ k" ..
  have "2 ^ k AND (2 ^ k - 1) = (0::nat)"
    using take_bit_eq_mask [of k "2 ^ k :: nat"]
    by (simp add: take_bit_nat_def mask_eq_exp_minus_1)
  then show "0 < n \<and> n AND (n - 1) = 0" by (simp add: n)
qed

lemma word_pow2_iff:
  fixes n :: "'a::len word"
  shows "n \<noteq> 0 \<and> n AND (n - 1) = 0 \<longleftrightarrow> (\<exists>k < LENGTH('a). n = 2 ^ k)"
proof -
  have pos: "n \<noteq> 0 \<longleftrightarrow> 0 < unat n" by (simp add: unat_gt_0)
  have pred: "n \<noteq> 0 \<Longrightarrow> unat (n - 1) = unat n - 1"
    by (metis unat_minus_one)
  have "n AND (n - 1) = 0 \<longleftrightarrow> unat (n AND (n - 1)) = 0"
    by (simp only: unsigned_eq_0_iff)
  then have "n \<noteq> 0 \<and> n AND (n - 1) = 0 \<longleftrightarrow> 0 < unat n \<and> unat n AND (unat n - 1) = 0"
    using pos pred by (metis unsigned_and_eq)
  also have "\<dots> \<longleftrightarrow> (\<exists>k. unat n = 2 ^ k)" by (rule nat_pow2_iff)
  also have "\<dots> \<longleftrightarrow> (\<exists>k < LENGTH('a). n = 2 ^ k)"
  proof
    assume "\<exists>k. unat n = 2 ^ k"
    then obtain k where k: "unat n = 2 ^ k" ..
    then have lt: "k < LENGTH('a)" using unsigned_less [of n, where ?'a = nat] by (simp add: k)
    have "n = of_nat (2 ^ k)" by (simp flip: k)
    then show "\<exists>k < LENGTH('a). n = 2 ^ k" using lt by auto
  next
    assume "\<exists>k < LENGTH('a). n = 2 ^ k"
    then obtain k where k: "k < LENGTH('a)" "n = of_nat (2 ^ k)" by auto
    then have "unat n = 2 ^ k" by (simp only: unsigned_of_nat) (simp add: take_bit_nat_def)
    then show "\<exists>k. unat n = 2 ^ k" ..
  qed
  finally show ?thesis .
qed

lemma unat_and_mask:
  fixes p n :: "'a::len word"
  assumes "n = 2 ^ k" and "k < LENGTH('a)"
  shows "unat (p AND (n - 1)) = unat p mod 2 ^ k"
proof -
  have "n - 1 = mask k" using assms by (simp add: mask_eq_exp_minus_1)
  then have "unat (p AND (n - 1)) = take_bit k (unat p)"
    by (simp add: unsigned_take_bit_eq flip: take_bit_eq_mask)
  then show ?thesis by (simp add: take_bit_nat_def)
qed

lemma unat_add_of_nat_mod:
  fixes r :: "'a::len word"
  assumes "k \<le> LENGTH('a)"
  shows "unat (r + of_nat j) mod 2 ^ k = (unat r + j) mod 2 ^ k"
proof -
  have "unat (r + of_nat j) = (unat r + j) mod 2 ^ LENGTH('a)"
    by (simp add: unat_word_ariths unat_of_nat mod_simps)
  then show ?thesis
    using assms by (simp add: mod_mod_cancel le_imp_power_dvd)
qed

lemma unat_pow2:
  assumes "k < LENGTH('a)"
  shows "unat (2 ^ k :: 'a::len word) = 2 ^ k"
proof -
  have "unat (of_nat (2 ^ k) :: 'a word) = 2 ^ k"
    using assms by (simp only: unsigned_of_nat take_bit_nat_def) simp
  then show ?thesis by (simp only: of_nat_power of_nat_numeral)
qed

lemma sint_of_int_self:
  assumes "- (2 ^ (LENGTH('a) - 1)) \<le> k" "k < 2 ^ (LENGTH('a) - 1)"
  shows "sint (of_int k :: 'a::len word) = k"
  using assms by (simp add: sint_sbintrunc' signed_take_bit_int_eq_self)

lemma unat_of_nat_self: "k < 2 ^ LENGTH('a) \<Longrightarrow> unat (of_nat k :: 'a::len word) = k"
  by (simp add: unat_of_nat)

lemma of_nat_unat_self: "of_nat (unat w) = (w :: 'a::len word)"
  by simp

lemma mod_window_le:
  "(a + i) mod n = (a + j) mod (n::nat) \<Longrightarrow> i \<le> j \<Longrightarrow> j < n \<Longrightarrow> i = j"
  using mod_eq_dvd_iff_nat [of "a + i" "a + j" n] by (auto dest!: dvd_imp_le)

lemma mod_window_inj:
  "(a + i) mod n = (a + j) mod (n::nat) \<Longrightarrow> i < n \<Longrightarrow> j < n \<Longrightarrow> i = j"
  using mod_window_le [of a i n j] mod_window_le [of a j n i] by (metis nat_le_linear)

end
