(* ===== verification/Packet.thy ===== *)
theory Packet
  imports Hqq_Prelude
begin

text \<open>
  The fixed 64-byte packet ABI (\<^verbatim>\<open>src/internal/protocol/protocol.go\<close>): eight
  little-endian words, the opcode in the low byte of word 0 and seven operands.
  A packet is its byte array; every operation keeps the length of 64 bytes.
  The lemmas show that the general constructor stores exactly its operands and that
  the hot-path constructors build the same packets.
\<close>

section \<open>Constants\<close>

definition HQQProtocolMajorVersion :: u8 where [hqq_consts]: "HQQProtocolMajorVersion = 1"
definition HQQProtocolMinorVersion :: u8 where [hqq_consts]: "HQQProtocolMinorVersion = 1"

definition PacketWordCount :: nat where [hqq_consts]: "PacketWordCount = 8"
definition PacketOperandCount :: nat where
  [hqq_consts]: "PacketOperandCount = PacketWordCount - 1"
definition PacketSize :: nat where [hqq_consts]: "PacketSize = PacketWordCount * 8"

type_synonym OpCode = u8

definition OpError :: OpCode where [hqq_consts]: "OpError = 0x00"
definition OpConnCreate :: OpCode where [hqq_consts]: "OpConnCreate = 0x01"
definition OpConnAccept :: OpCode where [hqq_consts]: "OpConnAccept = 0x02"
definition OpConnClose :: OpCode where [hqq_consts]: "OpConnClose = 0x03"
definition OpConnCopy :: OpCode where [hqq_consts]: "OpConnCopy = 0x04"
definition OpProtoNegotiate :: OpCode where [hqq_consts]: "OpProtoNegotiate = 0x05"
definition OpProtoAck :: OpCode where [hqq_consts]: "OpProtoAck = 0x06"
definition OpCancel :: OpCode where [hqq_consts]: "OpCancel = 0x07"
definition OpStandardLinkTombstone :: OpCode where
  [hqq_consts]: "OpStandardLinkTombstone = 0xFE"
definition OpStandardLinkCopy :: OpCode where [hqq_consts]: "OpStandardLinkCopy = 0xFF"

section \<open>Operations\<close>

type_synonym Packet = bytes

definition zeroPacket :: Packet where
  "zeroPacket = replicate PacketSize 0"

definition SetOp :: "OpCode \<Rightarrow> Packet \<Rightarrow> Packet" where
  "SetOp op p = put_at 0 (put64 (ucast op)) p"

definition Op :: "Packet \<Rightarrow> OpCode" where
  "Op p = ucast (get64 (slice_of 0 8 p) AND 0xFF)"

definition Operand :: "Packet \<Rightarrow> int \<Rightarrow> u64" where
  "Operand p i =
     (if i < 0 \<or> i \<ge> int PacketOperandCount then 0
      else let offset = (nat i + 1) * 8 in get64 (slice_of offset 8 p))"

definition SetOperand :: "int \<Rightarrow> u64 \<Rightarrow> Packet \<Rightarrow> Packet" where
  "SetOperand i value p =
     (if i < 0 \<or> i \<ge> int PacketOperandCount then p
      else let offset = (nat i + 1) * 8 in put_at offset (put64 value) p)"

text \<open>The operand loop of the general constructor, with its break after seven.\<close>

fun setOperands :: "nat \<Rightarrow> u64 list \<Rightarrow> Packet \<Rightarrow> Packet" where
  "setOperands i [] p = p"
| "setOperands i (operand # operands) p =
     (if i \<ge> PacketOperandCount then p
      else setOperands (Suc i) operands (SetOperand (int i) operand p))"

definition NewPacket :: "OpCode \<Rightarrow> u64 list \<Rightarrow> Packet" where
  "NewPacket op operands = setOperands 0 operands (SetOp op zeroPacket)"

definition NewStandardLinkCopyPacket :: "u64 \<Rightarrow> u64 \<Rightarrow> u64 \<Rightarrow> Packet" where
  "NewStandardLinkCopyPacket copyID bufferIndex dataSize =
     put_at 24 (put64 dataSize) (put_at 16 (put64 bufferIndex) (put_at 8 (put64 copyID)
       (put_at 0 (put64 (ucast OpStandardLinkCopy)) zeroPacket)))"

definition NewStandardLinkTombstonePacket :: "u64 \<Rightarrow> u64 \<Rightarrow> u64 \<Rightarrow> Packet" where
  "NewStandardLinkTombstonePacket copyID bufferIndex reason =
     put_at 24 (put64 reason) (put_at 16 (put64 bufferIndex) (put_at 8 (put64 copyID)
       (put_at 0 (put64 (ucast OpStandardLinkTombstone)) zeroPacket)))"

definition NewConnCopyPacket ::
    "u64 \<Rightarrow> u64 \<Rightarrow> u64 \<Rightarrow> u64 \<Rightarrow> u64 \<Rightarrow> u64 \<Rightarrow> u64 \<Rightarrow> Packet" where
  "NewConnCopyPacket connectionID messageID totalSize chunkOffset chunkSize flags aux =
     put_at 56 (put64 aux) (put_at 48 (put64 flags) (put_at 40 (put64 chunkSize)
       (put_at 32 (put64 chunkOffset) (put_at 24 (put64 totalSize) (put_at 16 (put64 messageID)
         (put_at 8 (put64 connectionID)
           (put_at 0 (put64 (ucast OpConnCopy)) zeroPacket)))))))"

section \<open>Well-formedness and lookup\<close>

definition packet_wf :: "Packet \<Rightarrow> bool" where
  "packet_wf p \<longleftrightarrow> length p = PacketSize"

lemma packet_wf_zero [simp, intro]: "packet_wf zeroPacket"
  by (simp add: packet_wf_def zeroPacket_def)

lemma packet_wf_SetOp [simp, intro]: "packet_wf p \<Longrightarrow> packet_wf (SetOp op p)"
  by (simp add: packet_wf_def SetOp_def hqq_consts)

text \<open>The operations on operand index \<open>k\<close> as a natural number, in and out of range.\<close>

lemma SetOperand_nat: "k < 7 \<Longrightarrow> SetOperand (int k) v p = put_at (8 * Suc k) (put64 v) p"
  by (simp add: SetOperand_def hqq_consts algebra_simps)

lemma Operand_nat: "k < 7 \<Longrightarrow> Operand p (int k) = get64 (slice_of (8 * Suc k) 8 p)"
  by (simp add: Operand_def hqq_consts algebra_simps)

lemma operand_index_cases:
  obtains k where "i = int k" "k < 7" | "i < 0 \<or> 7 \<le> i"
  by (metis not_le nat_0_le not_less of_nat_less_iff of_nat_numeral)

lemma SetOperand_out: "i < 0 \<or> 7 \<le> i \<Longrightarrow> SetOperand i v p = p"
  by (simp add: SetOperand_def hqq_consts)

lemma Operand_out: "i < 0 \<or> 7 \<le> i \<Longrightarrow> Operand p i = 0"
  by (simp add: Operand_def hqq_consts)

lemma packet_wf_SetOperand [simp, intro]: "packet_wf p \<Longrightarrow> packet_wf (SetOperand i v p)"
  by (cases i rule: operand_index_cases)
    (simp_all add: packet_wf_def SetOperand_nat SetOperand_out hqq_consts)

lemma packet_wf_setOperands [simp, intro]: "packet_wf p \<Longrightarrow> packet_wf (setOperands i xs p)"
  by (induction i xs p rule: setOperands.induct) simp_all

lemma packet_wf_NewPacket [simp, intro]: "packet_wf (NewPacket op xs)"
  by (simp add: NewPacket_def)

lemma ucast_low_byte: "(ucast ((ucast (op :: u8) :: u64) AND 0xFF) :: u8) = op"
proof -
  have mask: "(0xFF :: u64) = mask 8" by (simp add: mask_eq_exp_minus_1)
  show ?thesis
    unfolding mask by (rule bit_eqI) (simp add: bit_simps)
qed

lemma Op_SetOp [simp]: "packet_wf p \<Longrightarrow> Op (SetOp op p) = op"
  by (simp add: Op_def SetOp_def packet_wf_def hqq_consts codec_simps ucast_low_byte)

lemma Op_SetOperand [simp]: "packet_wf p \<Longrightarrow> Op (SetOperand i v p) = Op p"
  by (cases i rule: operand_index_cases)
    (simp_all add: Op_def packet_wf_def SetOperand_nat SetOperand_out hqq_consts slice_put_before)

lemma Operand_SetOp [simp]: "packet_wf p \<Longrightarrow> Operand (SetOp op p) i = Operand p i"
  by (simp add: Operand_def SetOp_def packet_wf_def hqq_consts Let_def slice_put_after)

lemma Operand_SetOperand:
  assumes wf: "packet_wf p"
  shows "Operand (SetOperand i v p) j =
    (if i = j \<and> 0 \<le> j \<and> j < int PacketOperandCount then v else Operand p j)"
proof (cases i rule: operand_index_cases)
  case i: (1 k)
  show ?thesis
  proof (cases j rule: operand_index_cases)
    case j: (1 m)
    have len: "length p = 64" using wf by (simp add: packet_wf_def hqq_consts)
    consider "k = m" | "k < m" | "m < k" by linarith
    then show ?thesis
      using i j len
      by cases (simp_all add: Operand_nat SetOperand_nat hqq_consts slice_put_same
          slice_put_before slice_put_after)
  next
    case 2
    then show ?thesis by (auto simp: Operand_out hqq_consts)
  qed
next
  case 2
  then show ?thesis by (auto simp: SetOperand_out hqq_consts)
qed

lemma Operand_zeroPacket [simp]: "Operand zeroPacket i = 0"
proof -
  have zero: "get64 (replicate n 0) = 0" for n
    by (induction n) simp_all
  show ?thesis
    by (simp add: Operand_def zeroPacket_def slice_of_def Let_def zero take_replicate
        flip: replicate_add)
qed

lemma Op_setOperands [simp]: "packet_wf p \<Longrightarrow> Op (setOperands i xs p) = Op p"
  by (induction i xs p rule: setOperands.induct) simp_all

lemma Operand_setOperands:
  "packet_wf p \<Longrightarrow> Operand (setOperands i xs p) j =
    (if int i \<le> j \<and> j < int (i + length xs) \<and> j < int PacketOperandCount
     then xs ! nat (j - int i) else Operand p j)"
proof (induction i xs p rule: setOperands.induct)
  case (1 i p)
  then show ?case by auto
next
  case (2 i x xs p)
  show ?case
  proof (cases "i \<ge> PacketOperandCount")
    case True
    then show ?thesis by auto
  next
    case False
    then show ?thesis
      using 2 by (auto simp: Operand_SetOperand nth_Cons' nat_diff_distrib nat_add_distrib)
  qed
qed

lemma Op_NewPacket [simp]: "Op (NewPacket op xs) = op"
  by (simp add: NewPacket_def)

lemma Operand_NewPacket:
  "Operand (NewPacket op xs) i =
    (if 0 \<le> i \<and> i < int (min (length xs) PacketOperandCount) then xs ! nat i else 0)"
  by (auto simp: NewPacket_def Operand_setOperands)

lemma put_at_as_SetOperand:
  "put_at 8 (put64 v) p = SetOperand 0 v p" "put_at 16 (put64 v) p = SetOperand 1 v p"
  "put_at 24 (put64 v) p = SetOperand 2 v p" "put_at 32 (put64 v) p = SetOperand 3 v p"
  "put_at 40 (put64 v) p = SetOperand 4 v p" "put_at 48 (put64 v) p = SetOperand 5 v p"
  "put_at 56 (put64 v) p = SetOperand 6 v p"
  by (simp_all add: SetOperand_def hqq_consts)

section \<open>The packet properties\<close>

text \<open>
  C36: a packet built by \<^verbatim>\<open>NewPacket\<close> has the fixed size, reads back its opcode, and
  operand \<open>i\<close> reads back the \<open>i\<close>-th argument, zero for an operand that was not given and
  for an index outside 0..6; arguments after the seventh are ignored.
\<close>

theorem packet_roundtrip:
  "length (NewPacket op xs) = PacketSize \<and> Op (NewPacket op xs) = op \<and>
   Operand (NewPacket op xs) i =
     (if 0 \<le> i \<and> i < int PacketOperandCount \<and> i < int (length xs) then xs ! nat i else 0)"
  using packet_wf_NewPacket [of op xs] by (auto simp: packet_wf_def Operand_NewPacket)

text \<open>
  The three hot-path constructors, which write their words directly, build
  byte for byte the packets of the general constructor.
\<close>

theorem packet_constructors_agree:
  "NewStandardLinkCopyPacket a b c = NewPacket OpStandardLinkCopy [a, b, c] \<and>
   NewStandardLinkTombstonePacket a b c = NewPacket OpStandardLinkTombstone [a, b, c] \<and>
   NewConnCopyPacket a b c d e f g = NewPacket OpConnCopy [a, b, c, d, e, f, g]"
  by (simp add: NewStandardLinkCopyPacket_def NewStandardLinkTombstonePacket_def
      NewConnCopyPacket_def NewPacket_def put_at_as_SetOperand PacketOperandCount_def
      PacketWordCount_def flip: SetOp_def)

end
