(* ===== verification/Mpmc_Ring.thy ===== *)
theory Mpmc_Ring
  imports Hqq_Prelude
begin

text \<open>
  The bounded MPMC ring (\<^verbatim>\<open>src/internal/mpmc/mpmc.go\<close>): its shared-memory image, the
  format and attach routines, the claim loops and every operation built on them.

  The memory of a ring is one record: the header words and the slots. A blocking loop
  is a recursion over a list of \<^emph>\<open>turns\<close>; a turn says what happened before the loop came
  round again: how other threads and processes changed the memory, and the error a wait
  ended with, if it ended with one. A loop whose turns are used up is still waiting
  (\<open>None\<close>). Wake-ups that leave the memory (futex, \<^verbatim>\<open>Parker\<close>) are returned as events.
  The interleaving of single atomic accesses is the subject of the theory
  \<^verbatim>\<open>Mpmc_Concurrent\<close>; here an operation between two turns is atomic.
\<close>

section \<open>Constants and memory image\<close>

definition HeaderSize :: u64 where [hqq_consts]: "HeaderSize = 512"
definition slotAlign :: u64 where [hqq_consts]: "slotAlign = 64"
definition layoutVersion :: u64 where [hqq_consts]: "layoutVersion = 2"
definition mpmc_magic :: u64 where [hqq_consts]: "mpmc_magic = 0xc9d8c1d43f096702"
definition mpmc_init :: u64 where [hqq_consts]: "mpmc_init = 2"
definition FormatSlice :: nat where [hqq_consts]: "FormatSlice = 1024"

record 'a melem =
  seq :: u64
  edata :: 'a

record 'a mring =
  rg_magic :: u64
  rg_size :: u64
  rg_flag :: u64
  rg_stride :: u64
  rg_version :: u64
  rg_r :: u64
  rg_w :: u64
  notEmpty :: u32
  emptyWaiters :: u32
  notFull :: u32
  fullWaiters :: u32
  slots :: "'a melem list"

text \<open>A handle (\<^verbatim>\<open>MPMCRing\<close>): what an attached process keeps; \<open>h_parker\<close> tells whether a
  \<^verbatim>\<open>Parker\<close> replaces the wait words.\<close>

datatype WaitPolicy = WaitAdaptive | WaitSpin

record mhandle =
  h_mask :: u64
  h_size :: u64
  h_stride :: u64
  h_policy :: WaitPolicy
  h_parker :: bool

definition SetParker :: "bool \<Rightarrow> mhandle \<Rightarrow> mhandle" where
  "SetParker p h = h\<lparr>h_parker := p\<rparr>"

definition SetWaitPolicy :: "WaitPolicy \<Rightarrow> mhandle \<Rightarrow> mhandle" where
  "SetWaitPolicy p h = h\<lparr>h_policy := p\<rparr>"

definition Size :: "mhandle \<Rightarrow> u64" where
  "Size h = h_size h"

definition ProducerCursor :: "'a mring \<Rightarrow> u64" where
  "ProducerCursor m = rg_w m"

datatype side = NotEmpty | NotFull

datatype wake_event = FutexWake side | ParkerWake side u32

text \<open>The slot stride for an element whose slot (sequence word and payload) has \<open>es\<close> bytes.\<close>

definition stride :: "u64 \<Rightarrow> u64" where
  "stride es = (es + slotAlign - 1) AND NOT (slotAlign - 1)"

definition validRingSize :: "u64 \<Rightarrow> bool" where
  "validRingSize n \<longleftrightarrow> n \<ge> 2 \<and> n AND (n - 1) = 0"

definition SizeMPMCRing :: "u64 \<Rightarrow> u64 \<Rightarrow> u64" where
  "SizeMPMCRing es n =
     (if \<not> validRingSize n then 0
      else let st = stride es in
        if n > (NOT 0 - HeaderSize) div st then 0 else HeaderSize + st * n)"

section \<open>Format and attach\<close>

datatype 'e format_result = FormatPanic | FormatErr 'e | FormatOk

text \<open>
  \<open>check k\<close> is what the \<open>k\<close>-th call of the ownership check returns; a nil check never
  fails. The result is the error, the number of checks made and the memory.
\<close>

function formatSlots ::
    "(nat \<Rightarrow> 'e option) \<Rightarrow> 'a \<Rightarrow> nat \<Rightarrow> nat \<Rightarrow> nat \<Rightarrow> 'a mring \<Rightarrow> 'e option \<times> nat \<times> 'a mring" where
  "formatSlots check zero n i k m =
     (if i \<ge> n then (None, k, m)
      else if i \<noteq> 0 \<and> i mod FormatSlice = 0 then
        (case check k of
           Some e \<Rightarrow> (Some e, Suc k, m)
         | None \<Rightarrow> formatSlots check zero n (Suc i) (Suc k)
             (m\<lparr>slots := (slots m)[i := \<lparr>seq = of_nat i, edata = zero\<rparr>]\<rparr>))
      else formatSlots check zero n (Suc i) k
             (m\<lparr>slots := (slots m)[i := \<lparr>seq = of_nat i, edata = zero\<rparr>]\<rparr>))"
  by pat_completeness auto
termination
  by (relation "measure (\<lambda>(check, zero, n, i, k, m). n - i)") auto

declare formatSlots.simps [simp del]

definition FormatGuarded ::
    "u64 \<Rightarrow> (nat \<Rightarrow> 'e option) \<Rightarrow> 'a \<Rightarrow> u64 \<Rightarrow> 'a mring \<Rightarrow> 'e format_result \<times> 'a mring" where
  "FormatGuarded es check zero n m =
     (if \<not> validRingSize n then (FormatPanic, m)
      else case check 0 of
        Some e \<Rightarrow> (FormatErr e, m)
      | None \<Rightarrow>
        (let m1 = m\<lparr>rg_flag := 0, rg_magic := 0\<rparr> in
         case formatSlots check zero (unat n) 0 1 m1 of
           (Some e, k, m2) \<Rightarrow> (FormatErr e, m2)
         | (None, k, m2) \<Rightarrow>
           (case check k of
              Some e \<Rightarrow> (FormatErr e, m2)
            | None \<Rightarrow>
              (FormatOk, m2\<lparr>rg_r := 0, rg_w := 0, notEmpty := 0, emptyWaiters := 0,
                 notFull := 0, fullWaiters := 0, rg_size := n, rg_stride := stride es,
                 rg_version := layoutVersion, rg_magic := mpmc_magic, rg_flag := mpmc_init\<rparr>))))"

definition Format :: "u64 \<Rightarrow> 'a \<Rightarrow> u64 \<Rightarrow> 'a mring \<Rightarrow> unit format_result \<times> 'a mring" where
  "Format es zero n m = FormatGuarded es (\<lambda>_. None) zero n m"

text \<open>
  Attaching polls the header. A poll is the memory it sees and the time since the
  start; \<open>None\<close>: still polling, \<open>Some None\<close>: nil, \<open>Some (Some h)\<close>: a handle.
\<close>

fun Attach :: "u64 \<Rightarrow> nat \<Rightarrow> ('a mring \<times> nat) list \<Rightarrow> mhandle option option" where
  "Attach es timeout [] = None"
| "Attach es timeout ((m, elapsed) # polls) =
     (if rg_magic m = mpmc_magic \<and> rg_flag m AND mpmc_init \<noteq> 0 then
        (let n = rg_size m; st = stride es in
         if rg_stride m \<noteq> st \<or> rg_version m \<noteq> layoutVersion \<or> \<not> validRingSize n
         then Some None
         else Some (Some \<lparr>h_mask = n - 1, h_size = n, h_stride = st,
                h_policy = WaitAdaptive, h_parker = False\<rparr>))
      else if timeout > 0 \<and> elapsed \<ge> timeout then Some None
      else Attach es timeout polls)"

section \<open>Waking\<close>

definition wakeWord :: "side \<Rightarrow> 'a mring \<Rightarrow> 'a mring \<times> wake_event list" where
  "wakeWord s m =
     (case s of
        NotEmpty \<Rightarrow> (m\<lparr>notEmpty := notEmpty m + 1\<rparr>, [FutexWake NotEmpty])
      | NotFull \<Rightarrow> (m\<lparr>notFull := notFull m + 1\<rparr>, [FutexWake NotFull]))"

definition waitersOf :: "side \<Rightarrow> 'a mring \<Rightarrow> u32" where
  "waitersOf s m = (case s of NotEmpty \<Rightarrow> emptyWaiters m | NotFull \<Rightarrow> fullWaiters m)"

definition wakeOne :: "mhandle \<Rightarrow> side \<Rightarrow> 'a mring \<Rightarrow> 'a mring \<times> wake_event list" where
  "wakeOne h s m =
     (if h_parker h then
        (if waitersOf s m \<noteq> 0 then (m, [ParkerWake s 1]) else (m, []))
      else wakeWord s m)"

definition wakeAll :: "mhandle \<Rightarrow> side \<Rightarrow> 'a mring \<Rightarrow> 'a mring \<times> wake_event list" where
  "wakeAll h s m =
     (if h_parker h then
        (let n = waitersOf s m in if n \<noteq> 0 then (m, [ParkerWake s n]) else (m, []))
      else wakeWord s m)"

definition WakeAll :: "mhandle \<Rightarrow> 'a mring \<Rightarrow> 'a mring \<times> wake_event list" where
  "WakeAll h m =
     (case wakeAll h NotEmpty m of (m1, e1) \<Rightarrow>
        (case wakeAll h NotFull m1 of (m2, e2) \<Rightarrow> (m2, e1 @ e2)))"

definition notifyConsumers :: "mhandle \<Rightarrow> 'a mring \<Rightarrow> 'a mring \<times> wake_event list" where
  "notifyConsumers h m = (if emptyWaiters m \<noteq> 0 then wakeOne h NotEmpty m else (m, []))"

definition notifyProducers :: "mhandle \<Rightarrow> 'a mring \<Rightarrow> 'a mring \<times> wake_event list" where
  "notifyProducers h m = (if fullWaiters m \<noteq> 0 then wakeOne h NotFull m else (m, []))"

section \<open>Claiming and completing slots\<close>

definition slot_index :: "mhandle \<Rightarrow> u64 \<Rightarrow> nat" where
  "slot_index h pos = unat (pos AND h_mask h)"

definition slot_seq :: "mhandle \<Rightarrow> u64 \<Rightarrow> 'a mring \<Rightarrow> u64" where
  "slot_seq h pos m = seq (slots m ! slot_index h pos)"

definition slot_data :: "mhandle \<Rightarrow> u64 \<Rightarrow> 'a mring \<Rightarrow> 'a" where
  "slot_data h pos m = edata (slots m ! slot_index h pos)"

definition set_seq :: "mhandle \<Rightarrow> u64 \<Rightarrow> u64 \<Rightarrow> 'a mring \<Rightarrow> 'a mring" where
  "set_seq h pos v m =
     (let i = slot_index h pos in m\<lparr>slots := (slots m)[i := (slots m ! i)\<lparr>seq := v\<rparr>]\<rparr>)"

definition set_data :: "mhandle \<Rightarrow> u64 \<Rightarrow> 'a \<Rightarrow> 'a mring \<Rightarrow> 'a mring" where
  "set_data h pos v m =
     (let i = slot_index h pos in m\<lparr>slots := (slots m)[i := (slots m ! i)\<lparr>edata := v\<rparr>]\<rparr>)"

type_synonym ('a, 'e) turn = "('a mring \<Rightarrow> 'a mring) \<times> 'e option"

text \<open>
  The claim loops. The first component of a turn is applied whenever the loop comes
  round; the second is the result of \<^verbatim>\<open>waiter.wait\<close> and only read after a wait.
\<close>

fun claimProducerSlow ::
    "mhandle \<Rightarrow> ('a, 'e) turn list \<Rightarrow> u64 \<Rightarrow> 'a mring \<Rightarrow> (('e + u64) \<times> 'a mring) option" where
  "claimProducerSlow h turns pos m =
     (let diff = sint (slot_seq h pos m - pos) in
      if diff = 0 then
        if rg_w m = pos then Some (Inr pos, m\<lparr>rg_w := pos + 1\<rparr>)
        else (case turns of [] \<Rightarrow> None
              | (f, _) # ts \<Rightarrow> claimProducerSlow h ts (rg_w m) (f m))
      else if diff > 0 then
        (case turns of [] \<Rightarrow> None
         | (f, _) # ts \<Rightarrow> claimProducerSlow h ts (rg_w m) (f m))
      else (case turns of [] \<Rightarrow> None
            | (f, Some e) # ts \<Rightarrow> Some (Inl e, f m)
            | (f, None) # ts \<Rightarrow> claimProducerSlow h ts pos (f m)))"

fun claimProducerLoop ::
    "mhandle \<Rightarrow> ('a, 'e) turn list \<Rightarrow> u64 \<Rightarrow> 'a mring \<Rightarrow> (('e + u64) \<times> 'a mring) option" where
  "claimProducerLoop h turns pos m =
     (let diff = sint (slot_seq h pos m - pos) in
      if diff = 0 then
        if rg_w m = pos then Some (Inr pos, m\<lparr>rg_w := pos + 1\<rparr>)
        else (case turns of [] \<Rightarrow> None
              | (f, _) # ts \<Rightarrow> claimProducerLoop h ts (rg_w m) (f m))
      else if diff > 0 then
        (case turns of [] \<Rightarrow> None
         | (f, _) # ts \<Rightarrow> claimProducerLoop h ts (rg_w m) (f m))
      else claimProducerSlow h turns pos m)"

definition claimProducer ::
    "mhandle \<Rightarrow> ('a, 'e) turn list \<Rightarrow> 'a mring \<Rightarrow> (('e + u64) \<times> 'a mring) option" where
  "claimProducer h turns m = claimProducerLoop h turns (rg_w m) m"

fun claimConsumerSlow ::
    "mhandle \<Rightarrow> ('a, 'e) turn list \<Rightarrow> u64 \<Rightarrow> 'a mring \<Rightarrow> (('e + u64) \<times> 'a mring) option" where
  "claimConsumerSlow h turns pos m =
     (let diff = sint (slot_seq h pos m - (pos + 1)) in
      if diff = 0 then
        if rg_r m = pos then Some (Inr pos, m\<lparr>rg_r := pos + 1\<rparr>)
        else (case turns of [] \<Rightarrow> None
              | (f, _) # ts \<Rightarrow> claimConsumerSlow h ts (rg_r m) (f m))
      else if diff > 0 then
        (case turns of [] \<Rightarrow> None
         | (f, _) # ts \<Rightarrow> claimConsumerSlow h ts (rg_r m) (f m))
      else (case turns of [] \<Rightarrow> None
            | (f, Some e) # ts \<Rightarrow> Some (Inl e, f m)
            | (f, None) # ts \<Rightarrow> claimConsumerSlow h ts pos (f m)))"

fun claimConsumerLoop ::
    "mhandle \<Rightarrow> ('a, 'e) turn list \<Rightarrow> u64 \<Rightarrow> 'a mring \<Rightarrow> (('e + u64) \<times> 'a mring) option" where
  "claimConsumerLoop h turns pos m =
     (let diff = sint (slot_seq h pos m - (pos + 1)) in
      if diff = 0 then
        if rg_r m = pos then Some (Inr pos, m\<lparr>rg_r := pos + 1\<rparr>)
        else (case turns of [] \<Rightarrow> None
              | (f, _) # ts \<Rightarrow> claimConsumerLoop h ts (rg_r m) (f m))
      else if diff > 0 then
        (case turns of [] \<Rightarrow> None
         | (f, _) # ts \<Rightarrow> claimConsumerLoop h ts (rg_r m) (f m))
      else claimConsumerSlow h turns pos m)"

definition claimConsumer ::
    "mhandle \<Rightarrow> ('a, 'e) turn list \<Rightarrow> 'a mring \<Rightarrow> (('e + u64) \<times> 'a mring) option" where
  "claimConsumer h turns m = claimConsumerLoop h turns (rg_r m) m"

declare claimProducerSlow.simps [simp del] claimProducerLoop.simps [simp del]
  claimConsumerSlow.simps [simp del] claimConsumerLoop.simps [simp del]

text \<open>Publishing and releasing by the only owner (a store) and through a slot value (a swap).\<close>

definition publish :: "mhandle \<Rightarrow> u64 \<Rightarrow> 'a mring \<Rightarrow> 'a mring \<times> wake_event list" where
  "publish h pos m = notifyConsumers h (set_seq h pos (pos + 1) m)"

definition release :: "mhandle \<Rightarrow> u64 \<Rightarrow> 'a mring \<Rightarrow> 'a mring \<times> wake_event list" where
  "release h pos m = notifyProducers h (set_seq h pos (pos + h_mask h + 1) m)"

definition publishSlot :: "mhandle \<Rightarrow> u64 \<Rightarrow> 'a mring \<Rightarrow> bool \<times> 'a mring \<times> wake_event list" where
  "publishSlot h pos m =
     (if slot_seq h pos m \<noteq> pos then (False, m, [])
      else (True, notifyConsumers h (set_seq h pos (pos + 1) m)))"

definition releaseSlot :: "mhandle \<Rightarrow> u64 \<Rightarrow> 'a mring \<Rightarrow> bool \<times> 'a mring \<times> wake_event list" where
  "releaseSlot h pos m =
     (if slot_seq h pos m \<noteq> pos + 1 then (False, m, [])
      else (True, notifyProducers h (set_seq h pos (pos + h_mask h + 1) m)))"

text \<open>
  Slot values. \<open>sl_elem\<close> says that the value refers to a slot (the zero value does not);
  copies of a value share the ring but not the done flag.
\<close>

record mslot =
  sl_pos :: u64
  sl_elem :: bool
  sl_done :: bool

definition zeroSlot :: mslot where
  "zeroSlot = \<lparr>sl_pos = 0, sl_elem = False, sl_done = False\<rparr>"

definition slotValid :: "mslot \<Rightarrow> bool" where
  "slotValid s \<longleftrightarrow> sl_elem s \<and> \<not> sl_done s"

definition producerOwned :: "mhandle \<Rightarrow> mslot \<Rightarrow> 'a mring \<Rightarrow> bool" where
  "producerOwned h s m \<longleftrightarrow> slotValid s \<and> slot_seq h (sl_pos s) m = sl_pos s"

definition consumerOwned :: "mhandle \<Rightarrow> mslot \<Rightarrow> 'a mring \<Rightarrow> bool" where
  "consumerOwned h s m \<longleftrightarrow> slotValid s \<and> slot_seq h (sl_pos s) m = sl_pos s + 1"

definition Slot :: "mhandle \<Rightarrow> mslot \<Rightarrow> u64" where
  "Slot h s = (if sl_elem s then sl_pos s AND h_mask h else 0)"

definition Commit :: "mhandle \<Rightarrow> mslot \<Rightarrow> 'a mring \<Rightarrow> bool \<times> mslot \<times> 'a mring \<times> wake_event list" where
  "Commit h s m =
     (if \<not> slotValid s then (False, s, m, [])
      else case publishSlot h (sl_pos s) m of
        (ok, m', ev) \<Rightarrow> (ok, s\<lparr>sl_done := True\<rparr>, m', ev))"

definition Release :: "mhandle \<Rightarrow> mslot \<Rightarrow> 'a mring \<Rightarrow> bool \<times> mslot \<times> 'a mring \<times> wake_event list" where
  "Release h s m =
     (if \<not> slotValid s then (False, s, m, [])
      else case releaseSlot h (sl_pos s) m of
        (ok, m', ev) \<Rightarrow> (ok, s\<lparr>sl_done := True\<rparr>, m', ev))"

definition Value :: "mhandle \<Rightarrow> mslot \<Rightarrow> 'a mring \<Rightarrow> 'a option" where
  "Value h s m = (if slotValid s then Some (slot_data h (sl_pos s) m) else None)"

definition Position :: "mslot \<Rightarrow> u64" where
  "Position s = sl_pos s"

text \<open>Completion by a caller that holds the only copy.\<close>

definition CommitOwned :: "mhandle \<Rightarrow> mslot \<Rightarrow> 'a mring \<Rightarrow> 'a mring \<times> wake_event list" where
  "CommitOwned h s m = publish h (sl_pos s) m"

definition ReleaseOwned :: "mhandle \<Rightarrow> mslot \<Rightarrow> 'a mring \<Rightarrow> 'a mring \<times> wake_event list" where
  "ReleaseOwned h s m = release h (sl_pos s) m"

definition ReserveProducerCancel ::
    "mhandle \<Rightarrow> ('a, 'e) turn list \<Rightarrow> 'a mring \<Rightarrow> (('e + mslot) \<times> 'a mring) option" where
  "ReserveProducerCancel h turns m =
     (case claimProducer h turns m of
        None \<Rightarrow> None
      | Some (Inl e, m') \<Rightarrow> Some (Inl e, m')
      | Some (Inr pos, m') \<Rightarrow> Some (Inr \<lparr>sl_pos = pos, sl_elem = True, sl_done = False\<rparr>, m'))"

definition ReserveConsumerCancel ::
    "mhandle \<Rightarrow> ('a, 'e) turn list \<Rightarrow> 'a mring \<Rightarrow> (('e + mslot) \<times> 'a mring) option" where
  "ReserveConsumerCancel h turns m =
     (case claimConsumer h turns m of
        None \<Rightarrow> None
      | Some (Inl e, m') \<Rightarrow> Some (Inl e, m')
      | Some (Inr pos, m') \<Rightarrow> Some (Inr \<lparr>sl_pos = pos, sl_elem = True, sl_done = False\<rparr>, m'))"

section \<open>Enqueue and dequeue\<close>

text \<open>
  A zero-copy callback returns the element it left behind and whether it returned
  normally (False: it panicked or ended its goroutine).
\<close>

datatype 'e zc_result = ZcErr 'e | ZcPanic | ZcOk

definition EnqueueZeroCopyCancel ::
    "mhandle \<Rightarrow> ('a, 'e) turn list \<Rightarrow> 'a \<Rightarrow> (u64 \<Rightarrow> 'a \<Rightarrow> 'a \<times> bool) \<Rightarrow> 'a mring
       \<Rightarrow> ('e zc_result \<times> 'a mring \<times> wake_event list) option" where
  "EnqueueZeroCopyCancel h turns zero fn m =
     (case claimProducer h turns m of
        None \<Rightarrow> None
      | Some (Inl e, m') \<Rightarrow> Some (ZcErr e, m', [])
      | Some (Inr pos, m') \<Rightarrow>
          (case fn (pos AND h_mask h) (slot_data h pos m') of
             (v, True) \<Rightarrow> Some (ZcOk, publish h pos (set_data h pos v m'))
           | (v, False) \<Rightarrow> Some (ZcPanic, publish h pos (set_data h pos zero m'))))"

definition DequeueZeroCopyCancel ::
    "mhandle \<Rightarrow> ('a, 'e) turn list \<Rightarrow> (u64 \<Rightarrow> 'a \<Rightarrow> 'a \<times> bool) \<Rightarrow> 'a mring
       \<Rightarrow> ('e zc_result \<times> 'a mring \<times> wake_event list) option" where
  "DequeueZeroCopyCancel h turns fn m =
     (case claimConsumer h turns m of
        None \<Rightarrow> None
      | Some (Inl e, m') \<Rightarrow> Some (ZcErr e, m', [])
      | Some (Inr pos, m') \<Rightarrow>
          (case fn (pos AND h_mask h) (slot_data h pos m') of
             (v, ok) \<Rightarrow>
               Some (if ok then ZcOk else ZcPanic, release h pos (set_data h pos v m'))))"

definition Enqueue ::
    "mhandle \<Rightarrow> ('a, 'e) turn list \<Rightarrow> 'a \<Rightarrow> 'a mring \<Rightarrow> ('a mring \<times> wake_event list) option" where
  "Enqueue h turns v m =
     (case claimProducer h turns m of
        Some (Inr pos, m') \<Rightarrow> Some (publish h pos (set_data h pos v m'))
      | _ \<Rightarrow> None)"

definition EnqueueWithContext ::
    "mhandle \<Rightarrow> ('a, 'e) turn list \<Rightarrow> 'a \<Rightarrow> 'a mring \<Rightarrow> (bool \<times> 'a mring \<times> wake_event list) option" where
  "EnqueueWithContext h turns v m =
     (case claimProducer h turns m of
        None \<Rightarrow> None
      | Some (Inl e, m') \<Rightarrow> Some (False, m', [])
      | Some (Inr pos, m') \<Rightarrow> Some (True, publish h pos (set_data h pos v m')))"

definition Dequeue ::
    "mhandle \<Rightarrow> ('a, 'e) turn list \<Rightarrow> 'a mring \<Rightarrow> ('a \<times> 'a mring \<times> wake_event list) option" where
  "Dequeue h turns m =
     (case claimConsumer h turns m of
        Some (Inr pos, m') \<Rightarrow> Some (slot_data h pos m', release h pos m')
      | _ \<Rightarrow> None)"

definition DequeueWithContext ::
    "mhandle \<Rightarrow> ('a, 'e) turn list \<Rightarrow> 'a mring \<Rightarrow> ('a option \<times> 'a mring \<times> wake_event list) option" where
  "DequeueWithContext h turns m =
     (case claimConsumer h turns m of
        None \<Rightarrow> None
      | Some (Inl e, m') \<Rightarrow> Some (None, m', [])
      | Some (Inr pos, m') \<Rightarrow> Some (Some (slot_data h pos m'), release h pos m'))"

text \<open>In-place variants without a guard: a callback that panics keeps the slot claimed.\<close>

definition EnqueueFunc ::
    "mhandle \<Rightarrow> ('a, 'e) turn list \<Rightarrow> ('a \<Rightarrow> 'a \<times> bool) \<Rightarrow> 'a mring
       \<Rightarrow> (bool \<times> 'a mring \<times> wake_event list) option" where
  "EnqueueFunc h turns fn m =
     (case claimProducer h turns m of
        Some (Inr pos, m') \<Rightarrow>
          (case fn (slot_data h pos m') of
             (v, True) \<Rightarrow> Some (True, publish h pos (set_data h pos v m'))
           | (v, False) \<Rightarrow> Some (False, set_data h pos v m', []))
      | _ \<Rightarrow> None)"

definition DequeueFunc ::
    "mhandle \<Rightarrow> ('a, 'e) turn list \<Rightarrow> ('a \<Rightarrow> 'a \<times> bool) \<Rightarrow> 'a mring
       \<Rightarrow> (bool \<times> 'a mring \<times> wake_event list) option" where
  "DequeueFunc h turns fn m =
     (case claimConsumer h turns m of
        Some (Inr pos, m') \<Rightarrow>
          (case fn (slot_data h pos m') of
             (v, True) \<Rightarrow> Some (True, release h pos (set_data h pos v m'))
           | (v, False) \<Rightarrow> Some (False, set_data h pos v m', []))
      | _ \<Rightarrow> None)"

definition ReserveProducerWithContext ::
    "mhandle \<Rightarrow> ('a, 'e) turn list \<Rightarrow> 'a mring \<Rightarrow> (mslot \<times> bool \<times> 'a mring) option" where
  "ReserveProducerWithContext h turns m =
     (case ReserveProducerCancel h turns m of
        None \<Rightarrow> None
      | Some (Inl e, m') \<Rightarrow> Some (zeroSlot, False, m')
      | Some (Inr s, m') \<Rightarrow> Some (s, True, m'))"

definition ReserveConsumerWithContext ::
    "mhandle \<Rightarrow> ('a, 'e) turn list \<Rightarrow> 'a mring \<Rightarrow> (mslot \<times> bool \<times> 'a mring) option" where
  "ReserveConsumerWithContext h turns m =
     (case ReserveConsumerCancel h turns m of
        None \<Rightarrow> None
      | Some (Inl e, m') \<Rightarrow> Some (zeroSlot, False, m')
      | Some (Inr s, m') \<Rightarrow> Some (s, True, m'))"

end
