(* ===== verification/Fifo_Spec.thy ===== *)
theory Fifo_Spec
  imports Hqq_Prelude
begin

text \<open>
  The contract of a bounded FIFO queue and what a client may conclude from it. A queue is
  an abstract list of at most \<open>cap\<close> elements; putting blocks on a full queue (\<open>None\<close>) and
  taking blocks on an empty one.
\<close>

datatype 'v qop = Put 'v | Take

text \<open>A client: a sequence of calls, the elements taken so far; \<open>None\<close> once a call blocks.\<close>

fun run_ops ::
    "('v \<Rightarrow> 's \<Rightarrow> 's option) \<Rightarrow> ('s \<Rightarrow> ('v \<times> 's) option) \<Rightarrow> 'v qop list \<Rightarrow> 's
       \<Rightarrow> ('v list \<times> 's) option" where
  "run_ops enq deq [] s = Some ([], s)"
| "run_ops enq deq (Put v # ops) s =
     (case enq v s of None \<Rightarrow> None | Some s' \<Rightarrow> run_ops enq deq ops s')"
| "run_ops enq deq (Take # ops) s =
     (case deq s of None \<Rightarrow> None
      | Some (v, s') \<Rightarrow>
          (case run_ops enq deq ops s' of None \<Rightarrow> None | Some (vs, t) \<Rightarrow> Some (v # vs, t)))"

fun puts :: "'v qop list \<Rightarrow> 'v list" where
  "puts [] = []"
| "puts (Put v # ops) = v # puts ops"
| "puts (Take # ops) = puts ops"

definition list_enq :: "nat \<Rightarrow> 'v \<Rightarrow> 'v list \<Rightarrow> 'v list option" where
  "list_enq cap v q = (if length q < cap then Some (q @ [v]) else None)"

definition list_deq :: "'v list \<Rightarrow> ('v \<times> 'v list) option" where
  "list_deq q = (case q of [] \<Rightarrow> None | v # vs \<Rightarrow> Some (v, vs))"

locale bounded_fifo =
  fixes inv :: "'s \<Rightarrow> bool"
    and abs :: "'s \<Rightarrow> 'v list"
    and cap :: nat
    and enq :: "'v \<Rightarrow> 's \<Rightarrow> 's option"
    and deq :: "'s \<Rightarrow> ('v \<times> 's) option"
  assumes within_cap: "inv s \<Longrightarrow> length (abs s) \<le> cap"
    and enq_room: "inv s \<Longrightarrow> length (abs s) < cap \<Longrightarrow>
          \<exists>s'. enq v s = Some s' \<and> inv s' \<and> abs s' = abs s @ [v]"
    and enq_full: "inv s \<Longrightarrow> length (abs s) = cap \<Longrightarrow> enq v s = None"
    and deq_some: "inv s \<Longrightarrow> abs s = v # vs \<Longrightarrow>
          \<exists>s'. deq s = Some (v, s') \<and> inv s' \<and> abs s' = vs"
    and deq_empty: "inv s \<Longrightarrow> abs s = [] \<Longrightarrow> deq s = None"
begin

lemma enq_refines: "inv s \<Longrightarrow> map_option abs (enq v s) = list_enq cap v (abs s)"
  using enq_room [of s v] enq_full [of s v] within_cap [of s]
  by (cases "length (abs s) < cap") (auto simp: list_enq_def)

lemma enq_inv: "inv s \<Longrightarrow> enq v s = Some s' \<Longrightarrow> inv s'"
  using enq_room [of s v] enq_full [of s v] within_cap [of s]
  by (cases "length (abs s) < cap") auto

lemma deq_refines: "inv s \<Longrightarrow> map_option (apsnd abs) (deq s) = list_deq (abs s)"
  using deq_some [of s] deq_empty [of s]
  by (cases "abs s") (auto simp: list_deq_def)

lemma deq_inv: "inv s \<Longrightarrow> deq s = Some (v, s') \<Longrightarrow> inv s'"
  using deq_some [of s] deq_empty [of s] by (cases "abs s") auto

lemma run_refines:
  "inv s \<Longrightarrow> map_option (apsnd abs) (run_ops enq deq ops s) =
     run_ops (list_enq cap) list_deq ops (abs s)"
proof (induction ops arbitrary: s)
  case Nil
  then show ?case by simp
next
  case (Cons op ops)
  show ?case
  proof (cases op)
    case (Put v)
    show ?thesis
      using enq_refines [OF Cons.prems, of v, symmetric] enq_inv [OF Cons.prems, of v] Cons.IH Put
      by (cases "enq v s") auto
  next
    case Take
    show ?thesis
    proof (cases "deq s")
      case None
      then show ?thesis using deq_refines [OF Cons.prems] Take by auto
    next
      case (Some p)
      obtain v s' where p: "p = (v, s')" by (cases p)
      then have "inv s'" using deq_inv [OF Cons.prems] Some by simp
      from Cons.IH [OF this, symmetric] show ?thesis
        using deq_refines [OF Cons.prems, symmetric] Take Some p
        by (cases "run_ops enq deq ops s'") auto
    qed
  qed
qed

lemma run_inv: "inv s \<Longrightarrow> run_ops enq deq ops s = Some (outs, t) \<Longrightarrow> inv t"
proof (induction ops arbitrary: s outs)
  case (Cons op ops)
  then show ?case
    by (cases op) (auto dest: enq_inv deq_inv split: option.splits prod.splits)
qed simp

text \<open>First in, first out: what was taken, then what is left, is what was there and was put.\<close>

lemma run_fifo:
  assumes "inv s" "run_ops enq deq ops s = Some (outs, t)"
  shows "outs @ abs t = abs s @ puts ops"
  using assms
proof (induction ops arbitrary: s outs)
  case (Cons op ops)
  show ?case
  proof (cases op)
    case (Put v)
    then obtain s' where s': "enq v s = Some s'" "run_ops enq deq ops s' = Some (outs, t)"
      using Cons.prems by (auto split: option.splits)
    have "abs s' = abs s @ [v]"
      using enq_refines [OF Cons.prems(1), of v] s' by (auto simp: list_enq_def split: if_splits)
    then show ?thesis using Cons.IH [OF enq_inv [OF Cons.prems(1) s'(1)] s'(2)] Put by simp
  next
    case Take
    then obtain v s' vs where s': "deq s = Some (v, s')" "run_ops enq deq ops s' = Some (vs, t)"
        "outs = v # vs"
      using Cons.prems by (auto split: option.splits)
    have "abs s = v # abs s'"
      using deq_refines [OF Cons.prems(1)] s' by (auto simp: list_deq_def split: list.splits)
    then show ?thesis
      using Cons.IH [OF deq_inv [OF Cons.prems(1) s'(1)] s'(2)] s'(3) Take by simp
  qed
qed simp

end

end
