(* ===== verification/Mpmc_Fifo.thy ===== *)
theory Mpmc_Fifo
  imports Mpmc_Ring Fifo_Spec
begin

text \<open>
  What the ring promises its callers when calls do not overlap: the invariant of the
  memory, the refinement of the bounded FIFO queue of \<^verbatim>\<open>Fifo_Spec\<close>, formatting and
  attaching, blocking, reservations and zero-copy callbacks.
\<close>

section \<open>Ring sizes and slot indices\<close>

definition handle_ok :: "mhandle \<Rightarrow> bool" where
  "handle_ok h \<longleftrightarrow> validRingSize (h_size h) \<and> h_mask h = h_size h - 1"

lemma validRingSize_iff: "validRingSize n \<longleftrightarrow> (\<exists>k. 1 \<le> k \<and> k < 64 \<and> n = 2 ^ k)"
proof
  assume v: "validRingSize n"
  then have "n \<noteq> 0" "n AND (n - 1) = 0" by (auto simp: validRingSize_def word_le_nat_alt)
  then obtain k where k: "k < 64" "n = 2 ^ k" using word_pow2_iff [of n] by auto
  with v have "k \<noteq> 0" by (intro notI) (simp add: validRingSize_def word_le_nat_alt)
  with k show "\<exists>k. 1 \<le> k \<and> k < 64 \<and> n = 2 ^ k" by (metis less_one not_le)
next
  assume "\<exists>k. 1 \<le> k \<and> k < 64 \<and> n = 2 ^ k"
  then obtain k where k: "1 \<le> k" "k < 64" "n = 2 ^ k" by blast
  then have "n \<noteq> 0 \<and> n AND (n - 1) = 0" using word_pow2_iff [of n] by auto
  moreover have "unat n = 2 ^ k" using k by (simp add: unat_pow2)
  moreover have "(2::nat) ^ 1 \<le> 2 ^ k" using k by (intro power_increasing) auto
  ultimately show "validRingSize n" by (simp add: validRingSize_def word_le_nat_alt)
qed

lemma handle_okE:
  assumes "handle_ok h"
  obtains k where "1 \<le> k" "k < 64" "h_size h = 2 ^ k" "h_mask h = 2 ^ k - 1"
    "unat (h_size h) = 2 ^ k"
  using assms by (auto simp: handle_ok_def validRingSize_iff unat_pow2)

lemma handle_size_bounds:
  assumes "handle_ok h"
  shows "2 \<le> unat (h_size h)" "unat (h_size h) \<le> 2 ^ 63"
  using assms
proof (atomize (full), elim handle_okE)
  fix k :: nat assume "1 \<le> k" "k < 64" "unat (h_size h) = 2 ^ k"
  then show "2 \<le> unat (h_size h) \<and> unat (h_size h) \<le> 2 ^ 63"
    using power_increasing [of 1 k "2::nat"] power_increasing [of k 63 "2::nat"] by simp
qed

lemma handle_mask_Suc: "handle_ok h \<Longrightarrow> pos + h_mask h + 1 = pos + h_size h"
  by (simp add: handle_ok_def)

lemma slot_index_mod: "handle_ok h \<Longrightarrow> slot_index h pos = unat pos mod unat (h_size h)"
  by (elim handle_okE) (simp add: slot_index_def unat_and_mask)

lemma slot_index_add:
  assumes "handle_ok h"
  shows "slot_index h (r + of_nat j) = (unat r + j) mod unat (h_size h)"
  using assms
proof (elim handle_okE)
  fix k assume "k < 64" and n: "unat (h_size h) = 2 ^ k"
  then have "unat (r + of_nat j) mod 2 ^ k = (unat r + j) mod 2 ^ k"
    by (intro unat_add_of_nat_mod) simp
  with n show ?thesis using slot_index_mod [OF assms, of "r + of_nat j"] by simp
qed

lemma slot_index_less: "handle_ok h \<Longrightarrow> slot_index h pos < unat (h_size h)"
  using handle_size_bounds(1) [of h] by (simp add: slot_index_mod)

lemma slot_index_add_size: "handle_ok h \<Longrightarrow> slot_index h (pos + h_size h) = slot_index h pos"
  using slot_index_add [of h pos "unat (h_size h)"] by (simp add: slot_index_mod)

lemma slot_index_eq_iff:
  assumes "handle_ok h" "i < unat (h_size h)" "j < unat (h_size h)"
  shows "slot_index h (r + of_nat i) = slot_index h (r + of_nat j) \<longleftrightarrow> i = j"
  using assms mod_window_inj [of "unat r" i "unat (h_size h)" j] by (auto simp: slot_index_add)

section \<open>The sequential invariant and the abstract queue\<close>

text \<open>
  Between operations the ring is a window of \<open>h_size h\<close> consecutive positions that starts
  at the consumer index: the first \<open>ring_len m\<close> of them are published, the others are free.
  Indices are compared modulo \<open>2 ^ 64\<close>, so the invariant survives their wrap-around.
\<close>

definition ring_len :: "'a mring \<Rightarrow> nat" where
  "ring_len m = unat (rg_w m - rg_r m)"

definition ring_inv :: "mhandle \<Rightarrow> 'a mring \<Rightarrow> bool" where
  "ring_inv h m \<longleftrightarrow> handle_ok h \<and> length (slots m) = unat (h_size h)
     \<and> ring_len m \<le> unat (h_size h)
     \<and> (\<forall>j < unat (h_size h). slot_seq h (rg_r m + of_nat j) m =
          rg_r m + of_nat j + (if j < ring_len m then 1 else 0))"

definition ring_abs :: "mhandle \<Rightarrow> 'a mring \<Rightarrow> 'a list" where
  "ring_abs h m = map (\<lambda>j. slot_data h (rg_r m + of_nat j) m) [0..<ring_len m]"

lemma length_ring_abs [simp]: "length (ring_abs h m) = ring_len m"
  by (simp add: ring_abs_def)

lemma ring_w_eq: "rg_w m = rg_r m + of_nat (ring_len m)"
  by (simp add: ring_len_def)

lemma notify_frame [simp]:
  "rg_r (fst (notifyConsumers h m)) = rg_r m" "rg_w (fst (notifyConsumers h m)) = rg_w m"
  "slots (fst (notifyConsumers h m)) = slots m"
  "rg_r (fst (notifyProducers h m)) = rg_r m" "rg_w (fst (notifyProducers h m)) = rg_w m"
  "slots (fst (notifyProducers h m)) = slots m"
  by (simp_all add: notifyConsumers_def notifyProducers_def wakeOne_def wakeWord_def)

lemma ring_frame:
  assumes "rg_r m' = rg_r m" "rg_w m' = rg_w m" "slots m' = slots m"
  shows "ring_inv h m' = ring_inv h m" "ring_abs h m' = ring_abs h m" "ring_len m' = ring_len m"
  using assms by (simp_all add: ring_inv_def ring_abs_def ring_len_def slot_seq_def slot_data_def)

lemma set_frame [simp]:
  "rg_r (set_seq h p v m) = rg_r m" "rg_w (set_seq h p v m) = rg_w m"
  "length (slots (set_seq h p v m)) = length (slots m)"
  "rg_r (set_data h p d m) = rg_r m" "rg_w (set_data h p d m) = rg_w m"
  "length (slots (set_data h p d m)) = length (slots m)"
  by (simp_all add: set_seq_def set_data_def Let_def)

lemma set_seq_rg_r: "set_seq h p v (m\<lparr>rg_r := x\<rparr>) = (set_seq h p v m)\<lparr>rg_r := x\<rparr>"
  by (cases m) (simp add: set_seq_def Let_def)

lemma slot_read_frame [simp]:
  "slot_seq h p (m\<lparr>rg_w := x\<rparr>) = slot_seq h p m" "slot_seq h p (m\<lparr>rg_r := x\<rparr>) = slot_seq h p m"
  "slot_data h p (m\<lparr>rg_w := x\<rparr>) = slot_data h p m"
  "slot_data h p (m\<lparr>rg_r := x\<rparr>) = slot_data h p m"
  by (simp_all add: slot_seq_def slot_data_def)

lemma slot_seq_set_seq:
  "slot_index h p < length (slots m) \<Longrightarrow>
   slot_seq h q (set_seq h p v m) = (if slot_index h q = slot_index h p then v else slot_seq h q m)"
  by (simp add: slot_seq_def set_seq_def Let_def nth_list_update)

lemma slot_seq_set_data [simp]: "slot_seq h q (set_data h p v m) = slot_seq h q m"
  by (cases "slot_index h p < length (slots m)")
     (auto simp: slot_seq_def set_data_def Let_def nth_list_update not_less list_update_beyond)

lemma slot_data_set_data:
  "slot_index h p < length (slots m) \<Longrightarrow>
   slot_data h q (set_data h p v m) =
     (if slot_index h q = slot_index h p then v else slot_data h q m)"
  by (simp add: slot_data_def set_data_def Let_def nth_list_update)

lemma slot_data_set_seq [simp]: "slot_data h q (set_seq h p v m) = slot_data h q m"
  by (cases "slot_index h p < length (slots m)")
     (auto simp: slot_data_def set_seq_def Let_def nth_list_update not_less list_update_beyond)

lemma ring_inv_index:
  "ring_inv h m \<Longrightarrow> slot_index h p < length (slots m)"
  by (simp add: ring_inv_def slot_index_less)

lemma unat_Suc_len:
  assumes "ring_inv h m" "ring_len m < unat (h_size h)"
  shows "unat (rg_w m + 1 - rg_r m) = Suc (ring_len m)"
proof -
  have "ring_len m < 2 ^ 63"
    using assms handle_size_bounds(2) [of h] by (simp add: ring_inv_def)
  moreover have "rg_w m + 1 - rg_r m = of_nat (Suc (ring_len m))"
    by (simp add: ring_w_eq algebra_simps)
  ultimately show ?thesis by (simp only: unat_of_nat) simp
qed

lemma sint_one_minus_size:
  assumes "handle_ok h"
  shows "sint (1 - h_size h) < 0"
proof -
  obtain x where x: "h_size h = of_nat x" "2 \<le> x" "x \<le> 2 ^ 63"
    using handle_size_bounds [OF assms] by (metis of_nat_unat_self)
  have "sint (of_int (1 - int x) :: u64) = 1 - int x"
    using x by (intro sint_of_int_self) simp_all
  then show ?thesis using x by simp
qed

lemma claimProducer_free:
  assumes "ring_inv h m" "ring_len m < unat (h_size h)"
  shows "claimProducer h turns m = Some (Inr (rg_w m), m\<lparr>rg_w := rg_w m + 1\<rparr>)"
proof -
  have "slot_seq h (rg_w m) m = rg_w m"
    using assms by (auto simp: ring_inv_def ring_w_eq [of m])
  then show ?thesis by (simp add: claimProducer_def claimProducerLoop.simps)
qed

lemma claimConsumer_ready:
  assumes "ring_inv h m" "0 < ring_len m"
  shows "claimConsumer h turns m = Some (Inr (rg_r m), m\<lparr>rg_r := rg_r m + 1\<rparr>)"
proof -
  have "0 < unat (h_size h)" using assms by (simp add: ring_inv_def)
  then have "slot_seq h (rg_r m) m = rg_r m + 1"
    using assms by (auto simp: ring_inv_def dest: spec [of _ 0])
  then show ?thesis by (simp add: claimConsumer_def claimConsumerLoop.simps)
qed

text \<open>On a full (empty) ring a claim waits: only an error or a change made by others ends it.\<close>

lemma claimProducer_full:
  assumes "ring_inv h m" "ring_len m = unat (h_size h)"
  shows "claimProducer h turns m =
     (case turns of [] \<Rightarrow> None
      | (f, Some e) # ts \<Rightarrow> Some (Inl e, f m)
      | (f, None) # ts \<Rightarrow> claimProducerSlow h ts (rg_w m) (f m))"
proof -
  have ok: "handle_ok h" "0 < unat (h_size h)"
    using assms handle_size_bounds(1) [of h] by (auto simp: ring_inv_def)
  have w: "rg_w m = rg_r m + h_size h" using ring_w_eq [of m] assms by simp
  have "slot_seq h (rg_w m) m = slot_seq h (rg_r m) m"
    using ok by (simp add: slot_seq_def w slot_index_add_size)
  also have "\<dots> = rg_r m + 1"
    using assms ok by (auto simp: ring_inv_def dest: spec [of _ 0])
  finally have "sint (slot_seq h (rg_w m) m - rg_w m) < 0"
    using sint_one_minus_size [OF ok(1)] by (simp add: w)
  then show ?thesis
    by (simp add: claimProducer_def claimProducerLoop.simps claimProducerSlow.simps Let_def
        split: list.split option.split)
qed

lemma claimConsumer_empty:
  assumes "ring_inv h m" "ring_len m = 0"
  shows "claimConsumer h turns m =
     (case turns of [] \<Rightarrow> None
      | (f, Some e) # ts \<Rightarrow> Some (Inl e, f m)
      | (f, None) # ts \<Rightarrow> claimConsumerSlow h ts (rg_r m) (f m))"
proof -
  have "0 < unat (h_size h)"
    using assms handle_size_bounds(1) [of h] by (auto simp: ring_inv_def)
  then have "slot_seq h (rg_r m) m = rg_r m"
    using assms by (auto simp: ring_inv_def dest: spec [of _ 0])
  then have "sint (slot_seq h (rg_r m) m - (rg_r m + 1)) < 0" by simp
  then show ?thesis
    by (simp add: claimConsumer_def claimConsumerLoop.simps claimConsumerSlow.simps Let_def
        split: list.split option.split)
qed

section \<open>Refinement of a bounded FIFO queue\<close>

definition enq_state :: "mhandle \<Rightarrow> 'a \<Rightarrow> 'a mring \<Rightarrow> 'a mring" where
  "enq_state h v m =
     fst (publish h (rg_w m) (set_data h (rg_w m) v (m\<lparr>rg_w := rg_w m + 1\<rparr>)))"

definition deq_state :: "mhandle \<Rightarrow> 'a mring \<Rightarrow> 'a mring" where
  "deq_state h m = fst (release h (rg_r m) (m\<lparr>rg_r := rg_r m + 1\<rparr>))"

lemma enq_state_refines:
  assumes inv: "ring_inv h m" and room: "ring_len m < unat (h_size h)"
  shows "ring_inv h (enq_state h v m)" "ring_abs h (enq_state h v m) = ring_abs h m @ [v]"
proof -
  let ?m = "set_seq h (rg_w m) (rg_w m + 1) (set_data h (rg_w m) v (m\<lparr>rg_w := rg_w m + 1\<rparr>))"
  have st: "enq_state h v m = fst (notifyConsumers h ?m)"
    by (simp add: enq_state_def publish_def)
  have ok: "handle_ok h" using inv by (simp add: ring_inv_def)
  have idx: "slot_index h p < length (slots m)" for p using inv by (rule ring_inv_index)
  have len: "ring_len ?m = Suc (ring_len m)"
    using unat_Suc_len [OF inv room] by (simp add: ring_len_def)
  have same: "slot_index h (rg_r m + of_nat j) = slot_index h (rg_w m) \<longleftrightarrow> j = ring_len m"
    if "j < unat (h_size h)" for j
    using slot_index_eq_iff [OF ok that room] ring_w_eq [of m] by simp
  have inv': "ring_inv h ?m"
    using inv room ok len idx same
    by (auto simp: ring_inv_def slot_seq_set_seq less_Suc_eq ring_w_eq [of m])
  show "ring_inv h (enq_state h v m)"
    using inv' by (simp add: st ring_frame [of "fst (notifyConsumers h ?m)" ?m])
  have "ring_abs h ?m = ring_abs h m @ [v]"
    using room idx same ring_w_eq [of m] len
    by (simp add: ring_abs_def slot_data_set_data)
  then show "ring_abs h (enq_state h v m) = ring_abs h m @ [v]"
    by (simp add: st ring_frame [of "fst (notifyConsumers h ?m)" ?m])
qed

text \<open>Consuming moves the window on by one: its last position takes the slot of the first.\<close>

lemma slot_index_shift:
  assumes ok: "handle_ok h" and j: "j < unat (h_size h)"
  shows "slot_index h (r + of_nat (Suc j)) = slot_index h r \<longleftrightarrow> Suc j = unat (h_size h)"
proof (cases "Suc j < unat (h_size h)")
  case True
  then show ?thesis using slot_index_eq_iff [OF ok True, of 0 r] by (simp del: of_nat_Suc)
next
  case False
  then have "Suc j = unat (h_size h)" using j by simp
  then have "of_nat (Suc j) = h_size h" by (metis of_nat_unat_self)
  then show ?thesis using False j slot_index_add_size [OF ok] by (simp del: of_nat_Suc)
qed

lemma deq_window_seq:
  assumes inv: "ring_inv h m" and j: "j < unat (h_size h)"
  shows "slot_seq h (rg_r m + of_nat (Suc j)) (set_seq h (rg_r m) (rg_r m + h_size h) m) =
     rg_r m + of_nat (Suc j) + (if Suc j < ring_len m then 1 else 0)"
proof (cases "Suc j = unat (h_size h)")
  case True
  then have "of_nat (Suc j) = h_size h" by (metis of_nat_unat_self)
  moreover have "\<not> Suc j < ring_len m" using True inv by (simp add: ring_inv_def)
  ultimately show ?thesis
    using ring_inv_index [OF inv] slot_index_add_size inv
    by (simp add: slot_seq_set_seq ring_inv_def del: of_nat_Suc)
next
  case False
  then have "Suc j < unat (h_size h)" using j by simp
  then show ?thesis
    using slot_index_shift [of h j "rg_r m"] ring_inv_index [OF inv] inv False j
    by (simp add: slot_seq_set_seq ring_inv_def del: of_nat_Suc)
qed

lemma deq_window_len:
  assumes inv: "ring_inv h m" and some: "0 < ring_len m"
  shows "unat (rg_w m - (rg_r m + 1)) = ring_len m - 1"
proof -
  have "rg_w m - (rg_r m + 1) = of_nat (ring_len m - 1)"
    using some by (simp add: ring_w_eq [of m] of_nat_diff)
  moreover have "ring_len m - 1 < 2 ^ LENGTH(64)"
    using inv handle_size_bounds(2) [of h] by (auto simp: ring_inv_def)
  ultimately show ?thesis by (simp only: unat_of_nat_self)
qed

lemma deq_state_refines:
  assumes inv: "ring_inv h m" and some: "0 < ring_len m"
  shows "ring_inv h (deq_state h m)"
    "ring_abs h m = slot_data h (rg_r m) m # ring_abs h (deq_state h m)"
proof -
  let ?m = "(set_seq h (rg_r m) (rg_r m + h_size h) m)\<lparr>rg_r := rg_r m + 1\<rparr>"
  have "handle_ok h" using inv by (simp add: ring_inv_def)
  then have st: "deq_state h m = fst (notifyProducers h ?m)"
    by (simp add: deq_state_def release_def handle_mask_Suc set_seq_rg_r)
  have len: "ring_len ?m = ring_len m - 1"
    using deq_window_len [OF inv some] by (simp add: ring_len_def [of ?m])
  have shift: "rg_r m + 1 + of_nat j = rg_r m + of_nat (Suc j)" for j by simp
  have "ring_len m - Suc 0 \<le> unat (h_size h)" using inv by (auto simp: ring_inv_def)
  then have "ring_inv h ?m"
    using inv len deq_window_seq [OF inv]
    by (simp add: ring_inv_def shift less_diff_conv del: of_nat_Suc)
  then show "ring_inv h (deq_state h m)"
    by (simp add: st ring_frame [of "fst (notifyProducers h ?m)" ?m])
  have "ring_abs h ?m = map (\<lambda>j. slot_data h (rg_r m + of_nat (Suc j)) m) [0..<ring_len m - 1]"
    by (simp only: ring_abs_def len) (simp add: add_ac)
  moreover have "[0..<ring_len m] = 0 # map Suc [0..<ring_len m - 1]"
    using some by (simp add: upt_conv_Cons map_Suc_upt)
  ultimately have "ring_abs h m = slot_data h (rg_r m) m # ring_abs h ?m"
    by (simp only: ring_abs_def [of h m]) simp
  then show "ring_abs h m = slot_data h (rg_r m) m # ring_abs h (deq_state h m)"
    by (simp add: st ring_frame [of "fst (notifyProducers h ?m)" ?m])
qed

lemma Enqueue_free:
  assumes "ring_inv h m" "ring_len m < unat (h_size h)"
  shows "\<exists>ev. Enqueue h turns v m = Some (enq_state h v m, ev)"
  using claimProducer_free [OF assms, of turns]
  by (cases "publish h (rg_w m) (set_data h (rg_w m) v (m\<lparr>rg_w := rg_w m + 1\<rparr>))")
     (simp add: Enqueue_def enq_state_def)

lemma Dequeue_ready:
  assumes "ring_inv h m" "0 < ring_len m"
  shows "\<exists>ev. Dequeue h turns m = Some (slot_data h (rg_r m) m, deq_state h m, ev)"
  using claimConsumer_ready [OF assms, of turns]
  by (cases "release h (rg_r m) (m\<lparr>rg_r := rg_r m + 1\<rparr>)") (simp add: Dequeue_def deq_state_def)

definition ring_enq :: "mhandle \<Rightarrow> 'a \<Rightarrow> 'a mring \<Rightarrow> 'a mring option" where
  "ring_enq h v m = map_option fst (Enqueue h ([] :: ('a, unit) turn list) v m)"

definition ring_deq :: "mhandle \<Rightarrow> 'a mring \<Rightarrow> ('a \<times> 'a mring) option" where
  "ring_deq h m = map_option (apsnd fst) (Dequeue h ([] :: ('a, unit) turn list) m)"

lemma ring_enq_room:
  assumes "ring_inv h m" "ring_len m < unat (h_size h)"
  shows "ring_enq h v m = Some (enq_state h v m)"
  using Enqueue_free [OF assms, of "[] :: ('a, unit) turn list" v] by (auto simp: ring_enq_def)

lemma ring_deq_some:
  assumes "ring_inv h m" "0 < ring_len m"
  shows "ring_deq h m = Some (slot_data h (rg_r m) m, deq_state h m)"
  using Dequeue_ready [OF assms, of "[] :: ('a, unit) turn list"] by (auto simp: ring_deq_def)

interpretation mq: bounded_fifo "ring_inv h" "ring_abs h" "unat (h_size h)" "ring_enq h" "ring_deq h"
  for h
proof unfold_locales
  fix m :: "'b mring" and v :: 'b and vs
  assume inv: "ring_inv h m"
  then show "length (ring_abs h m) \<le> unat (h_size h)" by (simp add: ring_inv_def)
  show "\<exists>m'. ring_enq h v m = Some m' \<and> ring_inv h m' \<and> ring_abs h m' = ring_abs h m @ [v]"
    if "length (ring_abs h m) < unat (h_size h)"
    using that inv by (simp add: ring_enq_room enq_state_refines)
  show "ring_enq h v m = None" if "length (ring_abs h m) = unat (h_size h)"
    using that inv by (simp add: ring_enq_def Enqueue_def claimProducer_full)
  show "ring_deq h m = None" if "ring_abs h m = []"
    using that inv length_ring_abs [of h m] by (simp add: ring_deq_def Dequeue_def claimConsumer_empty)
  show "\<exists>m'. ring_deq h m = Some (v, m') \<and> ring_inv h m' \<and> ring_abs h m' = vs"
    if "ring_abs h m = v # vs"
  proof -
    have "0 < ring_len m" using that length_ring_abs [of h m] by simp
    then show ?thesis
      using that inv deq_state_refines [of h m] by (simp add: ring_deq_some)
  qed
qed

section \<open>Formatting\<close>

definition slice_start :: "nat \<Rightarrow> bool" where
  "slice_start i \<longleftrightarrow> i \<noteq> 0 \<and> i mod FormatSlice = 0"

definition format_slot :: "'a \<Rightarrow> nat \<Rightarrow> 'a mring \<Rightarrow> 'a mring" where
  "format_slot zero i m = m\<lparr>slots := (slots m)[i := \<lparr>seq = of_nat i, edata = zero\<rparr>]\<rparr>"

lemma formatSlots_stop: "n \<le> i \<Longrightarrow> formatSlots check zero n i k m = (None, k, m)"
  by (simp add: formatSlots.simps)

lemma formatSlots_fail:
  "i < n \<Longrightarrow> slice_start i \<Longrightarrow> check k = Some e \<Longrightarrow>
   formatSlots check zero n i k m = (Some e, Suc k, m)"
  by (simp add: formatSlots.simps [of check zero n i] slice_start_def)

lemma formatSlots_next:
  "i < n \<Longrightarrow> slice_start i \<longrightarrow> check k = None \<Longrightarrow>
   formatSlots check zero n i k m =
     formatSlots check zero n (Suc i) (if slice_start i then Suc k else k) (format_slot zero i m)"
  by (simp add: formatSlots.simps [of check zero n i] slice_start_def format_slot_def)

lemma formatSlots_frame:
  "formatSlots check zero n i k m = (e, k', m') \<Longrightarrow>
   (\<exists>ss. m' = m\<lparr>slots := ss\<rparr> \<and> length ss = length (slots m))"
proof (induction "n - i" arbitrary: i k m)
  case 0
  then show ?case by (intro exI [of _ "slots m"]) (simp add: formatSlots_stop)
next
  case (Suc x)
  then have lt: "i < n" by simp
  show ?case
  proof (cases "slice_start i \<longrightarrow> check k = None")
    case True
    then have "\<exists>ss. m' = (format_slot zero i m)\<lparr>slots := ss\<rparr>
        \<and> length ss = length (slots (format_slot zero i m))"
      using Suc.prems Suc.hyps(2) by (intro Suc.hyps(1) [of "Suc i"]) (simp_all add: formatSlots_next lt)
    then show ?thesis by (auto simp: format_slot_def)
  next
    case False
    then show ?thesis
      using Suc.prems by (intro exI [of _ "slots m"]) (auto simp: formatSlots_fail lt)
  qed
qed

lemma formatSlots_slots:
  "formatSlots check zero n i k m = (None, k', m') \<Longrightarrow> n \<le> length (slots m) \<Longrightarrow> j < n \<Longrightarrow>
   slots m' ! j = (if j < i then slots m ! j else \<lparr>seq = of_nat j, edata = zero\<rparr>)"
proof (induction "n - i" arbitrary: i k m)
  case 0
  then show ?case by (simp add: formatSlots_stop)
next
  case (Suc x)
  then have lt: "i < n" by simp
  have c: "slice_start i \<longrightarrow> check k = None"
    using Suc.prems by (cases "check k") (auto simp: formatSlots_fail lt)
  then show ?case
    using Suc.hyps(1) [of "Suc i" _ "format_slot zero i m"] Suc.hyps(2) Suc.prems
    by (auto simp: formatSlots_next lt format_slot_def nth_list_update less_Suc_eq)
qed

text \<open>How many ownership checks precede slot \<open>i\<close>: one at the start, one per started slice.\<close>

definition format_checks :: "nat \<Rightarrow> nat" where
  "format_checks n = 1 + (n - 1) div FormatSlice"

lemma format_checks_Suc:
  "format_checks (Suc i) = (if slice_start i then Suc (format_checks i) else format_checks i)"
  by (cases i) (simp_all add: format_checks_def FormatSlice_def slice_start_def div_Suc)

lemma format_checks_mono: "i \<le> j \<Longrightarrow> format_checks i \<le> format_checks j"
  by (simp add: format_checks_def div_le_mono)

lemma formatSlots_count:
  "formatSlots check zero n i (format_checks i) m = (None, k', m') \<Longrightarrow> i \<le> n \<Longrightarrow>
   k' = format_checks n"
proof (induction "n - i" arbitrary: i m)
  case 0
  then show ?case by (simp add: formatSlots_stop)
next
  case (Suc x)
  then have lt: "i < n" by simp
  have c: "slice_start i \<longrightarrow> check (format_checks i) = None"
    using Suc.prems by (cases "check (format_checks i)") (auto simp: formatSlots_fail lt)
  show ?case
    using Suc.hyps(1) [of "Suc i" "format_slot zero i m"] Suc.hyps(2) Suc.prems
    by (simp add: formatSlots_next [of i n check "format_checks i", OF lt c] format_checks_Suc Suc_leI lt)
qed

lemma formatSlots_checks:
  "i \<le> n \<Longrightarrow> fst (formatSlots check zero n i (format_checks i) m) = None \<longleftrightarrow>
   (\<forall>j \<in> {format_checks i ..< format_checks n}. check j = None)"
proof (induction "n - i" arbitrary: i m)
  case 0
  then show ?case by (simp add: formatSlots_stop)
next
  case (Suc x)
  then have lt: "i < n" by simp
  then have le: "format_checks (Suc i) \<le> format_checks n" by (intro format_checks_mono) simp
  have IH: "fst (formatSlots check zero n (Suc i) (format_checks (Suc i)) (format_slot zero i m)) = None
      \<longleftrightarrow> (\<forall>j \<in> {format_checks (Suc i) ..< format_checks n}. check j = None)"
    using Suc.hyps lt by simp
  show ?case
  proof (cases "slice_start i")
    case True
    then have "{format_checks i ..< format_checks n} =
        insert (format_checks i) {format_checks (Suc i) ..< format_checks n}"
      using le by (auto simp: format_checks_Suc)
    then show ?thesis
      using IH True lt
      by (cases "check (format_checks i)") (simp_all add: formatSlots_next formatSlots_fail format_checks_Suc)
  next
    case False
    then show ?thesis using IH lt by (simp add: formatSlots_next format_checks_Suc)
  qed
qed

lemma formatSlots_error:
  "i \<le> n \<Longrightarrow> formatSlots check zero n i (format_checks i) m = (Some e, k', m') \<Longrightarrow>
   \<exists>k. format_checks i \<le> k \<and> k < format_checks n \<and> check k = Some e \<and> (\<forall>j. format_checks i \<le> j \<and> j < k \<longrightarrow> check j = None)"
proof (induction "n - i" arbitrary: i m)
  case 0
  then show ?case by (simp add: formatSlots_stop)
next
  case (Suc x)
  then have lt: "i < n" by simp
  show ?case
  proof (cases "slice_start i \<and> check (format_checks i) \<noteq> None")
    case True
    then obtain e' where e': "check (format_checks i) = Some e'" by blast
    then have "e' = e" using Suc.prems(2) formatSlots_fail [of i n check "format_checks i" e' zero m] lt True e' by simp
    moreover have "format_checks i < format_checks n"
      using True lt format_checks_mono [of "Suc i" n] by (simp add: format_checks_Suc)
    ultimately show ?thesis using e' by auto
  next
    case False
    then have c: "slice_start i \<longrightarrow> check (format_checks i) = None" by blast
    have "formatSlots check zero n (Suc i) (format_checks (Suc i)) (format_slot zero i m) = (Some e, k', m')"
      using Suc.prems(2) formatSlots_next [of i n check "format_checks i" zero m, OF lt c] by (simp add: format_checks_Suc)
    then obtain k where k: "format_checks (Suc i) \<le> k" "k < format_checks n" "check k = Some e"
        "\<forall>j. format_checks (Suc i) \<le> j \<and> j < k \<longrightarrow> check j = None"
      using Suc.hyps(1) [of "Suc i" "format_slot zero i m"] Suc.hyps(2) lt by fastforce
    have "check j = None" if "format_checks i \<le> j" "j < k" for j
      using that k(4) c by (cases "j = format_checks i") (auto simp: format_checks_Suc split: if_splits)
    moreover have "format_checks i \<le> k" using k(1) by (simp add: format_checks_Suc split: if_splits)
    ultimately show ?thesis using k(2,3) by blast
  qed
qed

lemma FormatGuarded_ok_iff:
  "fst (FormatGuarded es check zero n m) = FormatOk \<longleftrightarrow>
   validRingSize n \<and> (\<forall>k \<le> format_checks (unat n). check k = None)"
proof -
  let ?m = "m\<lparr>rg_flag := 0, rg_magic := 0\<rparr>"
  obtain e k m2 where fs: "formatSlots check zero (unat n) 0 1 ?m = (e, k, m2)"
    by (metis prod_cases3)
  have c0: "format_checks 0 = 1" by (simp add: format_checks_def)
  have range: "{..format_checks (unat n)} =
      insert 0 (insert (format_checks (unat n)) {1..<format_checks (unat n)})"
    by (auto simp: format_checks_def)
  have all: "(\<forall>k \<le> format_checks (unat n). check k = None) \<longleftrightarrow> check 0 = None \<and>
      (\<forall>j \<in> {1..<format_checks (unat n)}. check j = None) \<and> check (format_checks (unat n)) = None"
    unfolding atMost_iff [symmetric] Ball_def [symmetric] range by auto
  have "e = None \<longleftrightarrow> (\<forall>j \<in> {1..<format_checks (unat n)}. check j = None)"
    using formatSlots_checks [of 0 "unat n" check zero ?m] fs by (simp add: c0)
  moreover have "e = None \<Longrightarrow> k = format_checks (unat n)"
    using formatSlots_count [of check zero "unat n" 0 ?m k m2] fs by (simp add: c0)
  ultimately show ?thesis
    unfolding all FormatGuarded_def Let_def fs
    by (cases "check 0"; cases e) (auto split: option.splits)
qed

lemma FormatGuarded_ok_state:
  assumes ok: "FormatGuarded es check zero n m = (FormatOk, m')"
    and len: "length (slots m) = unat n"
  shows "rg_magic m' = mpmc_magic" "rg_flag m' = mpmc_init" "rg_size m' = n"
    "rg_stride m' = stride es" "rg_version m' = layoutVersion" "rg_r m' = 0" "rg_w m' = 0"
    "emptyWaiters m' = 0" "fullWaiters m' = 0" "notEmpty m' = 0" "notFull m' = 0"
    "length (slots m') = unat n"
    "j < unat n \<Longrightarrow> slots m' ! j = \<lparr>seq = of_nat j, edata = zero\<rparr>"
proof -
  let ?m = "m\<lparr>rg_flag := 0, rg_magic := 0\<rparr>"
  obtain e k m2 where fs: "formatSlots check zero (unat n) 0 1 ?m = (e, k, m2)"
    by (metis prod_cases3)
  have e: "e = None" and m': "m' = m2\<lparr>rg_r := 0, rg_w := 0, notEmpty := 0, emptyWaiters := 0,
      notFull := 0, fullWaiters := 0, rg_size := n, rg_stride := stride es,
      rg_version := layoutVersion, rg_magic := mpmc_magic, rg_flag := mpmc_init\<rparr>"
    using ok unfolding FormatGuarded_def Let_def fs by (auto split: if_splits option.splits)
  show "rg_magic m' = mpmc_magic" "rg_flag m' = mpmc_init" "rg_size m' = n"
    "rg_stride m' = stride es" "rg_version m' = layoutVersion" "rg_r m' = 0" "rg_w m' = 0"
    "emptyWaiters m' = 0" "fullWaiters m' = 0" "notEmpty m' = 0" "notFull m' = 0"
    by (simp_all add: m')
  have "\<exists>ss. m2 = ?m\<lparr>slots := ss\<rparr> \<and> length ss = length (slots ?m)"
    using fs by (rule formatSlots_frame)
  then show "length (slots m') = unat n" using len by (auto simp: m')
  show "slots m' ! j = \<lparr>seq = of_nat j, edata = zero\<rparr>" if "j < unat n"
    using formatSlots_slots [of check zero "unat n" 0 1 ?m k m2 j] fs e len that by (simp add: m')
qed

lemma Attach_no_magic:
  "\<forall>(m, el) \<in> set polls. rg_magic m \<noteq> mpmc_magic \<Longrightarrow> Attach es timeout polls \<noteq> Some (Some h)"
  by (induction es timeout polls rule: Attach.induct) auto

section \<open>Properties of the ring\<close>

text \<open>A ring of two slots whose indices are about to wrap around, for the witnesses.\<close>

definition wit_h :: mhandle where
  "wit_h = \<lparr>h_mask = 1, h_size = 2, h_stride = 64, h_policy = WaitAdaptive, h_parker = False\<rparr>"

definition wit_ring :: "nat mring" where
  "wit_ring = \<lparr>rg_magic = mpmc_magic, rg_size = 2, rg_flag = mpmc_init, rg_stride = 64,
     rg_version = layoutVersion, rg_r = - 1, rg_w = - 1, notEmpty = 0, emptyWaiters = 0,
     notFull = 0, fullWaiters = 0, slots = [\<lparr>seq = 0, edata = 0\<rparr>, \<lparr>seq = - 1, edata = 0\<rparr>]\<rparr>"

lemma wit_ring_inv: "ring_inv wit_h wit_ring"
  by code_simp

text \<open>
  C3: As long as no call overlaps another, the ring is a bounded FIFO queue: for every
  sequence of calls, \<^verbatim>\<open>Enqueue\<close> and \<^verbatim>\<open>Dequeue\<close> deliver the same elements in the same
  order as a list of at most \<open>h_size\<close> elements, block in exactly the same places, and keep
  the ring's invariant. The 64-bit indices may wrap around meanwhile.
\<close>

theorem ring_refines_fifo:
  assumes "ring_inv h m"
  shows "map_option (apsnd (ring_abs h)) (run_ops (ring_enq h) (ring_deq h) ops m) =
      run_ops (list_enq (unat (h_size h))) list_deq ops (ring_abs h m)
    \<and> (\<forall>outs m'. run_ops (ring_enq h) (ring_deq h) ops m = Some (outs, m') \<longrightarrow>
          ring_inv h m' \<and> outs @ ring_abs h m' = ring_abs h m @ puts ops)"
  using assms by (auto intro: mq.run_refines mq.run_inv mq.run_fifo)

theorem ring_refines_fifo_witness:
  "map_option fst (run_ops (ring_enq wit_h) (ring_deq wit_h)
     [Put 1, Put 2, Take, Put 3, Take, Take] wit_ring) = Some [1, 2, 3]"
  (is "map_option fst (?run) = _")
proof -
  have "map_option (apsnd (ring_abs wit_h)) ?run = Some ([1, 2, 3], [])"
    using ring_refines_fifo [OF wit_ring_inv, of "[Put 1, Put 2, Take, Put 3, Take, Take]"]
    by (simp add: list_enq_def list_deq_def ring_abs_def ring_len_def wit_ring_def wit_h_def)
  then show ?thesis by (cases ?run) auto
qed

lemma format_empty_ring:
  assumes ok: "FormatGuarded es check zero n m = (FormatOk, m')"
    and len: "length (slots m) = unat n"
  shows "ring_inv \<lparr>h_mask = n - 1, h_size = n, h_stride = st, h_policy = po, h_parker = b\<rparr> m'"
    "ring_abs \<lparr>h_mask = n - 1, h_size = n, h_stride = st, h_policy = po, h_parker = b\<rparr> m' = []"
proof -
  note st = FormatGuarded_ok_state [OF assms]
  let ?h = "\<lparr>h_mask = n - 1, h_size = n, h_stride = st, h_policy = po, h_parker = b\<rparr>"
  have "validRingSize n" using FormatGuarded_ok_iff [of es check zero n m] ok by simp
  then have h: "handle_ok ?h" by (simp add: handle_ok_def)
  have "slot_seq ?h (of_nat j) m' = of_nat j" if "j < unat n" for j
    using slot_index_add [OF h, of 0 j] that st(13) [of j] by (simp add: slot_seq_def)
  then show "ring_inv ?h m'" using h st by (simp add: ring_inv_def ring_len_def)
  show "ring_abs ?h m' = []" using st by (simp add: ring_abs_def ring_len_def)
qed

text \<open>
  C23: Whatever the memory held, a format of \<open>n\<close> slots whose ownership checks all succeed
  publishes an empty ring: an attacher that finds it gets a handle for \<open>n\<close> slots, with that
  handle the invariant holds and the queue is empty, and no waiter is registered.
\<close>

theorem format_then_attach:
  assumes "validRingSize n" "length (slots m) = unat n"
    and "\<forall>k \<le> format_checks (unat n). check k = None"
  shows "\<exists>m' h. FormatGuarded es check zero n m = (FormatOk, m')
     \<and> Attach es timeout ((m', elapsed) # polls) = Some (Some h) \<and> h_size h = n
     \<and> ring_inv h m' \<and> ring_abs h m' = [] \<and> emptyWaiters m' = 0 \<and> fullWaiters m' = 0"
proof -
  obtain m' where ok: "FormatGuarded es check zero n m = (FormatOk, m')"
    using FormatGuarded_ok_iff [of es check zero n m] assms by (metis prod.collapse)
  note st = FormatGuarded_ok_state [OF ok assms(2)]
  have "Attach es timeout ((m', elapsed) # polls) =
      Some (Some \<lparr>h_mask = n - 1, h_size = n, h_stride = stride es,
        h_policy = WaitAdaptive, h_parker = False\<rparr>)"
    using st assms(1) by (simp add: mpmc_init_def Let_def)
  then show ?thesis using ok st format_empty_ring [OF ok assms(2)] by (metis mhandle.select_convs(2))
qed

theorem format_then_attach_witness:
  "\<exists>m' h. FormatGuarded 16 (\<lambda>_. None :: nat option) 0 2 wit_ring = (FormatOk, m')
     \<and> Attach 16 0 [(m', 0)] = Some (Some h) \<and> h_size h = 2 \<and> ring_inv h m'
     \<and> ring_abs h m' = [] \<and> emptyWaiters m' = 0 \<and> fullWaiters m' = 0"
  by (rule format_then_attach) (simp_all add: validRingSize_def wit_ring_def)

text \<open>
  C24: A format of a ring of valid size succeeds exactly when each of its ownership checks succeeds:
  one before the first store, one per started slice of \<open>FormatSlice\<close> slots, one before the header
  is published. With an invalid size it panics and writes nothing. It reports the error of the
  first check that fails: if that is the very first check, the memory is untouched; if it is a later
  one, the ring is left unpublished, and no attacher that sees only that memory gets a handle.
\<close>

theorem format_guard:
  "(fst (FormatGuarded es check zero n m) = FormatOk \<longleftrightarrow>
      validRingSize n \<and> (\<forall>k \<le> format_checks (unat n). check k = None))
   \<and> (FormatGuarded es check zero n m = (FormatPanic, m) \<longleftrightarrow> \<not> validRingSize n)
   \<and> (\<forall>e m'. FormatGuarded es check zero n m = (FormatErr e, m') \<longrightarrow>
        (\<exists>k \<le> format_checks (unat n). check k = Some e \<and> (\<forall>j < k. check j = None) \<and>
           (if k = 0 then m' = m
            else rg_magic m' = 0 \<and> (\<forall>ts timeout h. Attach es timeout (map (Pair m') ts) \<noteq> Some (Some h)))))"
proof (intro conjI allI impI)
  show "fst (FormatGuarded es check zero n m) = FormatOk \<longleftrightarrow>
      validRingSize n \<and> (\<forall>k \<le> format_checks (unat n). check k = None)"
    by (rule FormatGuarded_ok_iff)
  show "FormatGuarded es check zero n m = (FormatPanic, m) \<longleftrightarrow> \<not> validRingSize n"
    by (simp add: FormatGuarded_def Let_def split: option.split prod.split)
next
  fix e m' assume err: "FormatGuarded es check zero n m = (FormatErr e, m')"
  have v: "validRingSize n" using err by (cases "validRingSize n") (simp_all add: FormatGuarded_def)
  show "\<exists>k \<le> format_checks (unat n). check k = Some e \<and> (\<forall>j < k. check j = None) \<and>
      (if k = 0 then m' = m
       else rg_magic m' = 0 \<and> (\<forall>ts timeout h. Attach es timeout (map (Pair m') ts) \<noteq> Some (Some h)))"
  proof (cases "check 0")
    case (Some e')
    then show ?thesis using err v by (intro exI [of _ 0]) (auto simp: FormatGuarded_def)
  next
    case None
    let ?m = "m\<lparr>rg_flag := 0, rg_magic := 0\<rparr>"
    obtain e1 k m2 where fs: "formatSlots check zero (unat n) 0 1 ?m = (e1, k, m2)"
      by (metis prod_cases3)
    have c0: "format_checks 0 = 1" by (simp add: format_checks_def)
    have m2: "m' = m2" "e1 = Some e \<or> e1 = None \<and> check k = Some e"
      using err None v unfolding FormatGuarded_def Let_def fs by (auto split: option.splits)
    have "\<exists>k. 1 \<le> k \<and> k \<le> format_checks (unat n) \<and> check k = Some e \<and> (\<forall>j. 1 \<le> j \<and> j < k \<longrightarrow> check j = None)"
      using m2(2)
    proof
      assume "e1 = Some e"
      then show ?thesis using formatSlots_error [of 0 "unat n" check zero ?m e k m2] fs by (auto simp: c0)
    next
      assume e1: "e1 = None \<and> check k = Some e"
      then have "k = format_checks (unat n)" using formatSlots_count [of check zero "unat n" 0 ?m k m2] fs by (simp add: c0)
      moreover have "\<forall>j \<in> {1..<format_checks (unat n)}. check j = None"
        using formatSlots_checks [of 0 "unat n" check zero ?m] fs e1 by (simp add: c0)
      ultimately show ?thesis using e1 by (intro exI [of _ k]) (auto simp: format_checks_def)
    qed
    then obtain k where k: "1 \<le> k" "k \<le> format_checks (unat n)" "check k = Some e" "\<forall>j. 1 \<le> j \<and> j < k \<longrightarrow> check j = None" by blast
    have "check j = None" if "j < k" for j using k(4) None that by (cases j) auto
    moreover have "rg_magic m2 = 0" using formatSlots_frame [OF fs] by auto
    ultimately show ?thesis
      using k(1-3) m2(1) Attach_no_magic [of "map (Pair m') _" es] by (intro exI [of _ k]) (auto simp: mpmc_magic_def)
  qed
qed

theorem format_guard_witness:
  "(\<exists>m'. FormatGuarded 16 (\<lambda>k. if k = 1 then Some () else None) 0 2 wit_ring = (FormatErr (), m') \<and> rg_magic m' = 0)"
proof -
  let ?c = "\<lambda>k. if k = 1 then Some () else None :: unit option"
  let ?r = "FormatGuarded 16 ?c 0 2 wit_ring"
  note g = format_guard [of 16 ?c 0 2 wit_ring]
  have "fst ?r \<noteq> FormatOk" using conjunct1 [OF g] by (auto simp: format_checks_def)
  moreover have "fst ?r \<noteq> FormatPanic"
    by (simp add: FormatGuarded_def validRingSize_def Let_def split: prod.split option.split)
  ultimately obtain m' where r: "?r = (FormatErr (), m')" by (cases ?r; cases "fst ?r") auto
  show ?thesis
    using r conjunct2 [OF conjunct2 [OF g], rule_format, OF r] by (auto split: if_splits)
qed

lemma ring_inv_set_data [simp]: "ring_inv h (set_data h p v m) = ring_inv h m"
  by (simp add: ring_inv_def ring_len_def)

lemma set_data_rg_r: "set_data h p v (m\<lparr>rg_r := x\<rparr>) = (set_data h p v m)\<lparr>rg_r := x\<rparr>"
  by (cases m) (simp add: set_data_def Let_def)

lemma tl_ring_abs_set_data:
  assumes "ring_inv h m"
  shows "tl (ring_abs h (set_data h (rg_r m) v m)) = tl (ring_abs h m)"
proof -
  have "slot_data h (rg_r m + of_nat j) (set_data h (rg_r m) v m) = slot_data h (rg_r m + of_nat j) m"
    if "j \<in> set [1..<ring_len m]" for j
    using that assms slot_index_eq_iff [of h j 0 "rg_r m"] ring_inv_index [OF assms]
    by (auto simp: slot_data_set_data ring_inv_def)
  then show ?thesis by (simp add: ring_abs_def ring_len_def map_tl [symmetric] tl_upt)
qed

lemma deq_state_set_data:
  assumes "ring_inv h m" "0 < ring_len m"
  shows "ring_inv h (deq_state h (set_data h (rg_r m) v m))"
    "ring_abs h (deq_state h (set_data h (rg_r m) v m)) = tl (ring_abs h m)"
  using deq_state_refines [of h "set_data h (rg_r m) v m"] assms
    tl_ring_abs_set_data [OF assms(1), of v]
  by (simp_all add: ring_len_def)

text \<open>
  A zero-copy callback that panics leaves the queue as consistent as one that returns.
  On the producer side the claimed slot is still published, holding the zeroed element in
  place of a partly written one; on the consumer side the slot is still released, so the
  element is consumed.
\<close>

theorem zero_copy_panic_safe:
  fixes fn :: "u64 \<Rightarrow> 'a \<Rightarrow> 'a \<times> bool"
  assumes inv: "ring_inv h m"
  defines "wr \<equiv> fn (rg_w m AND h_mask h) (slot_data h (rg_w m) m)"
    and "rd \<equiv> fn (rg_r m AND h_mask h) (slot_data h (rg_r m) m)"
  shows "(ring_len m < unat (h_size h) \<longrightarrow>
       (\<exists>m' ev. EnqueueZeroCopyCancel h turns zero fn m =
           Some (if snd wr then ZcOk else ZcPanic, m', ev)
         \<and> ring_inv h m' \<and> ring_abs h m' = ring_abs h m @ [if snd wr then fst wr else zero]))
     \<and> (0 < ring_len m \<longrightarrow>
       (\<exists>m' ev. DequeueZeroCopyCancel h turns fn m =
           Some (if snd rd then ZcOk else ZcPanic, m', ev)
         \<and> ring_inv h m' \<and> ring_abs h m' = tl (ring_abs h m)))"
proof (intro conjI impI)
  assume room: "ring_len m < unat (h_size h)"
  let ?v = "if snd wr then fst wr else zero"
  have "EnqueueZeroCopyCancel h turns zero fn m = Some (if snd wr then ZcOk else ZcPanic,
      enq_state h ?v m, snd (publish h (rg_w m) (set_data h (rg_w m) ?v (m\<lparr>rg_w := rg_w m + 1\<rparr>))))"
    using claimProducer_free [OF inv room, of turns]
    by (cases wr) (simp add: EnqueueZeroCopyCancel_def enq_state_def wr_def split: bool.split)
  then show "\<exists>m' ev. EnqueueZeroCopyCancel h turns zero fn m =
        Some (if snd wr then ZcOk else ZcPanic, m', ev)
      \<and> ring_inv h m' \<and> ring_abs h m' = ring_abs h m @ [?v]"
    using enq_state_refines [OF inv room, of ?v] by blast
next
  assume some: "0 < ring_len m"
  have "DequeueZeroCopyCancel h turns fn m = Some (if snd rd then ZcOk else ZcPanic,
      deq_state h (set_data h (rg_r m) (fst rd) m),
      snd (release h (rg_r m) (set_data h (rg_r m) (fst rd) (m\<lparr>rg_r := rg_r m + 1\<rparr>))))"
    using claimConsumer_ready [OF inv some, of turns]
    by (cases rd) (simp add: DequeueZeroCopyCancel_def deq_state_def rd_def set_data_rg_r)
  then show "\<exists>m' ev. DequeueZeroCopyCancel h turns fn m =
        Some (if snd rd then ZcOk else ZcPanic, m', ev)
      \<and> ring_inv h m' \<and> ring_abs h m' = tl (ring_abs h m)"
    using deq_state_set_data [OF inv some, of "fst rd"] by blast
qed

theorem zero_copy_panic_safe_witness:
  "\<exists>m' ev. EnqueueZeroCopyCancel wit_h ([] :: (nat, unit) turn list) 0 (\<lambda>_ _. (7, False)) wit_ring =
       Some (ZcPanic, m', ev) \<and> ring_inv wit_h m' \<and> ring_abs wit_h m' = [0]"
  using zero_copy_panic_safe [OF wit_ring_inv, of "[]" 0 "\<lambda>_ _. (7, False)"]
  by (simp add: ring_len_def ring_abs_def wit_ring_def wit_h_def)

lemma enq_state_Commit:
  assumes inv: "ring_inv h m" and room: "ring_len m < unat (h_size h)"
  shows "\<exists>ev. publishSlot h (rg_w m) (set_data h (rg_w m) v (m\<lparr>rg_w := rg_w m + 1\<rparr>)) =
      (True, enq_state h v m, ev)"
    "slot_seq h (rg_w m) (enq_state h v m) = rg_w m + 1"
proof -
  have "slot_seq h (rg_w m) m = rg_w m"
    using assms by (auto simp: ring_inv_def ring_w_eq [of m])
  then show "\<exists>ev. publishSlot h (rg_w m) (set_data h (rg_w m) v (m\<lparr>rg_w := rg_w m + 1\<rparr>)) =
      (True, enq_state h v m, ev)"
    by (simp add: publishSlot_def enq_state_def publish_def prod_eq_iff)
  show "slot_seq h (rg_w m) (enq_state h v m) = rg_w m + 1"
    using ring_inv_index [OF inv]
    by (simp add: enq_state_def publish_def slot_seq_def set_seq_def set_data_def Let_def)
qed

text \<open>
  C25: A producer reservation splits an enqueue in two. The reserved slot is owned until it
  is committed; filling and committing it is the enqueue; and afterwards neither the
  committed value nor a copy of it made before can commit again: the call reports failure
  and leaves the memory alone.
\<close>

theorem reservation_commits_once:
  assumes inv: "ring_inv h m" and room: "ring_len m < unat (h_size h)"
  shows "\<exists>s m1. ReserveProducerCancel h turns m = Some (Inr s, m1) \<and> producerOwned h s m1
     \<and> (\<exists>s' ev. Commit h s (set_data h (sl_pos s) v m1) = (True, s', enq_state h v m, ev)
          \<and> ring_abs h (enq_state h v m) = ring_abs h m @ [v]
          \<and> Commit h s' (enq_state h v m) = (False, s', enq_state h v m, [])
          \<and> Commit h s (enq_state h v m) = (False, s', enq_state h v m, []))"
proof -
  let ?s = "\<lparr>sl_pos = rg_w m, sl_elem = True, sl_done = False\<rparr>"
  have seq: "slot_seq h (rg_w m) m = rg_w m"
    using assms by (auto simp: ring_inv_def ring_w_eq [of m])
  have "ReserveProducerCancel h turns m = Some (Inr ?s, m\<lparr>rg_w := rg_w m + 1\<rparr>)"
    using claimProducer_free [OF assms, of turns] by (simp add: ReserveProducerCancel_def)
  moreover have "producerOwned h ?s (m\<lparr>rg_w := rg_w m + 1\<rparr>)"
    using seq by (simp add: producerOwned_def slotValid_def)
  moreover have "\<exists>ev. Commit h ?s (set_data h (sl_pos ?s) v (m\<lparr>rg_w := rg_w m + 1\<rparr>)) =
      (True, ?s\<lparr>sl_done := True\<rparr>, enq_state h v m, ev)"
    using enq_state_Commit(1) [OF assms, of v] by (auto simp: Commit_def slotValid_def)
  moreover have "Commit h (?s\<lparr>sl_done := True\<rparr>) (enq_state h v m) =
      (False, ?s\<lparr>sl_done := True\<rparr>, enq_state h v m, [])"
    by (simp add: Commit_def slotValid_def)
  moreover have "Commit h ?s (enq_state h v m) = (False, ?s\<lparr>sl_done := True\<rparr>, enq_state h v m, [])"
    using enq_state_Commit(2) [OF assms, of v] by (simp add: Commit_def publishSlot_def slotValid_def)
  ultimately show ?thesis using enq_state_refines(2) [OF assms, of v] by blast
qed

theorem reservation_commits_once_witness:
  "\<exists>s m1. ReserveProducerCancel wit_h ([] :: (nat, unit) turn list) wit_ring = Some (Inr s, m1)
     \<and> producerOwned wit_h s m1"
  using reservation_commits_once [OF wit_ring_inv, of "[]" 7]
  by (auto simp: ring_len_def wit_ring_def wit_h_def)

lemma claimProducerSlow_free:
  assumes "ring_inv h m" "ring_len m < unat (h_size h)"
  shows "claimProducerSlow h turns (rg_w m) m = Some (Inr (rg_w m), m\<lparr>rg_w := rg_w m + 1\<rparr>)"
proof -
  have "slot_seq h (rg_w m) m = rg_w m"
    using assms by (auto simp: ring_inv_def ring_w_eq [of m])
  then show ?thesis by (simp add: claimProducerSlow.simps)
qed

lemma claimConsumerSlow_ready:
  assumes "ring_inv h m" "0 < ring_len m"
  shows "claimConsumerSlow h turns (rg_r m) m = Some (Inr (rg_r m), m\<lparr>rg_r := rg_r m + 1\<rparr>)"
proof -
  have "0 < unat (h_size h)" using assms by (simp add: ring_inv_def)
  then have "slot_seq h (rg_r m) m = rg_r m + 1"
    using assms by (auto simp: ring_inv_def dest: spec [of _ 0])
  then show ?thesis by (simp add: claimConsumerSlow.simps)
qed

lemma state_indices [simp]:
  "rg_w (deq_state h m) = rg_w m" "rg_r (enq_state h v m) = rg_r m"
  by (simp_all add: deq_state_def enq_state_def release_def publish_def)

lemma blocked_producer_resumes:
  assumes "ring_inv h m" and full: "ring_len m = unat (h_size h)"
  shows "EnqueueWithContext h ((f, Some e) # ts) v m = Some (False, f m, [])"
    "\<exists>m' ev. EnqueueWithContext h ((deq_state h, None) # ts) v m = Some (True, m', ev)
       \<and> ring_inv h m' \<and> ring_abs h m' = tl (ring_abs h m) @ [v]"
proof -
  note blocked = claimProducer_full [OF assms]
  show "EnqueueWithContext h ((f, Some e) # ts) v m = Some (False, f m, [])"
    by (simp add: EnqueueWithContext_def blocked)
  let ?m = "deq_state h m"
  have some: "0 < ring_len m"
    using full assms(1) handle_size_bounds(1) [of h] by (simp add: ring_inv_def)
  have inv: "ring_inv h ?m" and abs: "ring_abs h ?m = tl (ring_abs h m)"
    using deq_state_refines [OF assms(1) some] by simp_all
  then have room: "ring_len ?m < unat (h_size h)"
    using length_ring_abs [of h ?m] some full by simp
  have "EnqueueWithContext h ((deq_state h, None) # ts) v m = Some (True, enq_state h v ?m,
      snd (publish h (rg_w ?m) (set_data h (rg_w ?m) v (?m\<lparr>rg_w := rg_w ?m + 1\<rparr>))))"
    using claimProducerSlow_free [OF inv room, of ts]
    by (simp add: EnqueueWithContext_def blocked enq_state_def)
  then show "\<exists>m' ev. EnqueueWithContext h ((deq_state h, None) # ts) v m = Some (True, m', ev)
      \<and> ring_inv h m' \<and> ring_abs h m' = tl (ring_abs h m) @ [v]"
    using enq_state_refines [OF inv room, of v] abs by simp
qed

lemma blocked_consumer_resumes:
  assumes "ring_inv h m" and empty: "ring_len m = 0"
  shows "DequeueWithContext h ((f, Some e) # ts) m = Some (None, f m, [])"
    "\<exists>m' ev. DequeueWithContext h ((enq_state h v, None) # ts) m = Some (Some v, m', ev)
       \<and> ring_inv h m' \<and> ring_abs h m' = []"
proof -
  note blocked = claimConsumer_empty [OF assms]
  show "DequeueWithContext h ((f, Some e) # ts) m = Some (None, f m, [])"
    by (simp add: DequeueWithContext_def blocked)
  let ?m = "enq_state h v m"
  have "ring_len m < unat (h_size h)"
    using empty assms(1) handle_size_bounds(1) [of h] by (simp add: ring_inv_def)
  then have inv: "ring_inv h ?m" and abs: "ring_abs h ?m = [v]"
    using enq_state_refines [OF assms(1), of v] empty by (simp_all add: ring_abs_def [of h m])
  then have some: "0 < ring_len ?m" using length_ring_abs [of h ?m] by simp
  have "DequeueWithContext h ((enq_state h v, None) # ts) m =
      Some (Some (slot_data h (rg_r ?m) ?m), deq_state h ?m,
        snd (release h (rg_r ?m) (?m\<lparr>rg_r := rg_r ?m + 1\<rparr>)))"
    using claimConsumerSlow_ready [OF inv some, of ts]
    by (simp add: DequeueWithContext_def blocked deq_state_def)
  then show "\<exists>m' ev. DequeueWithContext h ((enq_state h v, None) # ts) m = Some (Some v, m', ev)
      \<and> ring_inv h m' \<and> ring_abs h m' = []"
    using deq_state_refines [OF inv some] abs by simp
qed

text \<open>
  Waiting on a full ring. If the wait ends with an error, the call reports it and the
  memory is what the others made of it; if another process consumes an element meanwhile,
  the waiting producer goes on, and its element follows the ones still queued. Dually for
  a consumer on an empty ring.
\<close>

theorem blocked_calls_resume:
  assumes "ring_inv h m"
  shows "(ring_len m = unat (h_size h) \<longrightarrow>
       EnqueueWithContext h ((f, Some e) # ts) v m = Some (False, f m, [])
       \<and> (\<exists>m' ev. EnqueueWithContext h ((deq_state h, None) # ts) v m = Some (True, m', ev)
            \<and> ring_inv h m' \<and> ring_abs h m' = tl (ring_abs h m) @ [v]))
     \<and> (ring_len m = 0 \<longrightarrow>
       DequeueWithContext h ((f, Some e) # ts) m = Some (None, f m, [])
       \<and> (\<exists>m' ev. DequeueWithContext h ((enq_state h v, None) # ts) m = Some (Some v, m', ev)
            \<and> ring_inv h m' \<and> ring_abs h m' = []))"
  by (intro conjI impI blocked_producer_resumes blocked_consumer_resumes assms)

theorem blocked_calls_resume_witness:
  "\<exists>m' ev. DequeueWithContext wit_h [(enq_state wit_h 5, None :: unit option)] wit_ring =
       Some (Some 5, m', ev) \<and> ring_inv wit_h m' \<and> ring_abs wit_h m' = []"
  using blocked_calls_resume [OF wit_ring_inv, of id "()" "[]" 5]
  by (simp add: ring_len_def wit_ring_def)

end
