(* ===== verification/Mpmc_Concurrent.thy ===== *)
theory Mpmc_Concurrent
  imports Mpmc_Fifo
begin

text \<open>
  Many producers and consumers on one ring, one atomic access at a time. A thread runs
  \<^verbatim>\<open>claimProducer\<close>/\<^verbatim>\<open>publish\<close> or \<^verbatim>\<open>claimConsumer\<close>/\<^verbatim>\<open>release\<close> (\<^verbatim>\<open>src/internal/mpmc/mpmc.go\<close>);
  its program counter says which access of the loop comes next. Accesses of all threads
  interleave in any order (the code uses sequentially consistent atomics). Two histories
  are kept beside the memory: the values in the order of the producer claims, and the
  (position, value) pairs in the order the consumers finished. Positions are counted up to
  \<open>2 ^ 63\<close> claims, so that no index wraps around within a run.
\<close>

section \<open>Threads\<close>

datatype 'a pc =
    Idle
  | PLoad 'a          \<comment> \<open>about to load the producer index\<close>
  | PCheck u64 'a     \<comment> \<open>about to load the sequence of the slot\<close>
  | PCas u64 'a       \<comment> \<open>about to swap the producer index\<close>
  | PWrite u64 'a     \<comment> \<open>owns the slot, about to write the element\<close>
  | PPublish u64      \<comment> \<open>owns the slot, about to publish it\<close>
  | CLoad
  | CCheck u64
  | CCas u64
  | CRead u64         \<comment> \<open>owns the slot, about to read the element\<close>
  | CRelease u64 'a   \<comment> \<open>owns the slot, about to release it\<close>

datatype 'a act = StartEnq 'a | StartDeq | Go | GoSlot | GiveUp

record 'a cstate =
  cm :: "'a mring"
  pcs :: "nat \<Rightarrow> 'a pc"
  plog :: "'a list"
  clog :: "(nat \<times> 'a) list"

definition goto :: "nat \<Rightarrow> 'a pc \<Rightarrow> 'a cstate \<Rightarrow> 'a cstate" where
  "goto t c s = s\<lparr>pcs := (pcs s)(t := c)\<rparr>"

text \<open>
  One step of thread \<open>t\<close>; \<open>None\<close> when the action does not apply. A wait (\<^verbatim>\<open>w.wait\<close>) leaves the
  thread where it is, \<open>GiveUp\<close> is a wait that returned an error. \<open>GoSlot\<close> completes a claim held
  in a slot value, by compare-and-swap.
\<close>

fun cstep :: "mhandle \<Rightarrow> nat \<Rightarrow> 'a act \<Rightarrow> 'a cstate \<Rightarrow> 'a cstate option" where
  "cstep h t a s =
     (let m = cm s in
      case (pcs s t, a) of
        (Idle, StartEnq v) \<Rightarrow> Some (goto t (PLoad v) s)
      | (Idle, StartDeq) \<Rightarrow> Some (goto t CLoad s)
      | (PLoad v, Go) \<Rightarrow> Some (goto t (PCheck (rg_w m) v) s)
      | (PCheck p v, Go) \<Rightarrow>
          (let diff = sint (slot_seq h p m - p) in
           if diff = 0 then Some (goto t (PCas p v) s)
           else if diff > 0 then Some (goto t (PLoad v) s)
           else Some s)
      | (PCheck p v, GiveUp) \<Rightarrow>
          (if sint (slot_seq h p m - p) < 0 then Some (goto t Idle s) else None)
      | (PCas p v, Go) \<Rightarrow>
          (if rg_w m = p
           then Some (goto t (PWrite p v) (s\<lparr>cm := m\<lparr>rg_w := p + 1\<rparr>, plog := plog s @ [v]\<rparr>))
           else Some (goto t (PLoad v) s))
      | (PWrite p v, Go) \<Rightarrow> Some (goto t (PPublish p) (s\<lparr>cm := set_data h p v m\<rparr>))
      | (PPublish p, Go) \<Rightarrow> Some (goto t Idle (s\<lparr>cm := fst (publish h p m)\<rparr>))
      | (PPublish p, GoSlot) \<Rightarrow>
          (case publishSlot h p m of
             (ok, m', _) \<Rightarrow> Some (goto t Idle (s\<lparr>cm := m'\<rparr>)))
      | (CLoad, Go) \<Rightarrow> Some (goto t (CCheck (rg_r m)) s)
      | (CCheck p, Go) \<Rightarrow>
          (let diff = sint (slot_seq h p m - (p + 1)) in
           if diff = 0 then Some (goto t (CCas p) s)
           else if diff > 0 then Some (goto t CLoad s)
           else Some s)
      | (CCheck p, GiveUp) \<Rightarrow>
          (if sint (slot_seq h p m - (p + 1)) < 0 then Some (goto t Idle s) else None)
      | (CCas p, Go) \<Rightarrow>
          (if rg_r m = p then Some (goto t (CRead p) (s\<lparr>cm := m\<lparr>rg_r := p + 1\<rparr>\<rparr>))
           else Some (goto t CLoad s))
      | (CRead p, Go) \<Rightarrow> Some (goto t (CRelease p (slot_data h p m)) s)
      | (CRelease p v, Go) \<Rightarrow>
          Some (goto t Idle (s\<lparr>cm := fst (release h p m), clog := clog s @ [(unat p, v)]\<rparr>))
      | (CRelease p v, GoSlot) \<Rightarrow>
          (case releaseSlot h p m of
             (ok, m', _) \<Rightarrow> Some (goto t Idle (s\<lparr>cm := m', clog := clog s @ [(unat p, v)]\<rparr>)))
      | _ \<Rightarrow> None)"

declare cstep.simps [simp del]

definition cinit :: "'a mring \<Rightarrow> 'a cstate" where
  "cinit m = \<lparr>cm = m, pcs = (\<lambda>_. Idle), plog = [], clog = []\<rparr>"

inductive creach :: "mhandle \<Rightarrow> 'a mring \<Rightarrow> 'a cstate \<Rightarrow> bool" for h m where
  init: "creach h m (cinit m)"
| step: "creach h m s \<Longrightarrow> cstep h t a s = Some s' \<Longrightarrow> length (plog s') < 2 ^ 63 \<Longrightarrow> creach h m s'"

text \<open>A schedule: who moves and how.\<close>

fun crun :: "mhandle \<Rightarrow> (nat \<times> 'a act) list \<Rightarrow> 'a cstate \<Rightarrow> 'a cstate option" where
  "crun h [] s = Some s"
| "crun h ((t, a) # sched) s =
     (case cstep h t a s of None \<Rightarrow> None | Some s' \<Rightarrow> crun h sched s')"

section \<open>The invariant\<close>

text \<open>
  Positions are natural numbers here: \<open>W\<close> and \<open>R\<close> are the claims so far, \<open>sq i\<close> and \<open>dt i\<close> the
  sequence and the element of slot \<open>i\<close>. A slot whose sequence is \<open>p\<close> is free for position \<open>p\<close>, or
  owned by the producer of \<open>p\<close>; one whose sequence is \<open>p + 1\<close> holds the element of \<open>p\<close>.
\<close>

definition sqn :: "'a mring \<Rightarrow> nat \<Rightarrow> nat" where
  "sqn m i = unat (seq (slots m ! i))"

definition dat :: "'a mring \<Rightarrow> nat \<Rightarrow> 'a" where
  "dat m i = edata (slots m ! i)"

fun powner :: "'a pc \<Rightarrow> nat option" where
  "powner (PWrite p v) = Some (unat p)"
| "powner (PPublish p) = Some (unat p)"
| "powner _ = None"

fun cowner :: "'a pc \<Rightarrow> nat option" where
  "cowner (CRead p) = Some (unat p)"
| "cowner (CRelease p v) = Some (unat p)"
| "cowner _ = None"

definition slots_inv ::
    "nat \<Rightarrow> nat \<Rightarrow> nat \<Rightarrow> (nat \<Rightarrow> nat) \<Rightarrow> (nat \<Rightarrow> 'a) \<Rightarrow> 'a list \<Rightarrow> (nat \<Rightarrow> 'a pc) \<Rightarrow> bool" where
  "slots_inv n R W sq dt pl cs \<longleftrightarrow>
     (\<forall>p. sq (p mod n) = p \<longrightarrow> R \<le> p \<and> p < R + n \<and> (p < W \<longrightarrow> (\<exists>t. powner (cs t) = Some p)))
   \<and> (\<forall>p. sq (p mod n) = Suc p \<longrightarrow> p < W \<and> W \<le> p + n \<and> dt (p mod n) = pl ! p
        \<and> (p < R \<longrightarrow> (\<exists>t. cowner (cs t) = Some p)))
   \<and> (\<forall>i < n. \<exists>p. p mod n = i \<and> (sq i = p \<or> sq i = Suc p))"

fun pc_ok ::
    "nat \<Rightarrow> nat \<Rightarrow> nat \<Rightarrow> (nat \<Rightarrow> nat) \<Rightarrow> (nat \<Rightarrow> 'a) \<Rightarrow> 'a list \<Rightarrow> 'a pc \<Rightarrow> bool" where
  "pc_ok n R W sq dt pl (PCheck p v) \<longleftrightarrow> unat p \<le> W"
| "pc_ok n R W sq dt pl (PCas p v) \<longleftrightarrow> unat p \<le> W \<and> (unat p = W \<longrightarrow> sq (W mod n) = W)"
| "pc_ok n R W sq dt pl (PWrite p v) \<longleftrightarrow>
     unat p < W \<and> sq (unat p mod n) = unat p \<and> pl ! unat p = v"
| "pc_ok n R W sq dt pl (PPublish p) \<longleftrightarrow>
     unat p < W \<and> sq (unat p mod n) = unat p \<and> dt (unat p mod n) = pl ! unat p"
| "pc_ok n R W sq dt pl (CCheck p) \<longleftrightarrow> unat p \<le> R"
| "pc_ok n R W sq dt pl (CCas p) \<longleftrightarrow> unat p \<le> R \<and> (unat p = R \<longrightarrow> sq (R mod n) = Suc R)"
| "pc_ok n R W sq dt pl (CRead p) \<longleftrightarrow> unat p < R \<and> sq (unat p mod n) = Suc (unat p)"
| "pc_ok n R W sq dt pl (CRelease p v) \<longleftrightarrow>
     unat p < R \<and> sq (unat p mod n) = Suc (unat p) \<and> v = pl ! unat p"
| "pc_ok n R W sq dt pl _ \<longleftrightarrow> True"

definition owners_inv :: "(nat \<Rightarrow> 'a pc) \<Rightarrow> bool" where
  "owners_inv cs \<longleftrightarrow>
     (\<forall>t t' p. powner (cs t) = Some p \<and> powner (cs t') = Some p \<longrightarrow> t = t')
   \<and> (\<forall>t t' p. cowner (cs t) = Some p \<and> cowner (cs t') = Some p \<longrightarrow> t = t')"

definition log_inv :: "nat \<Rightarrow> 'a list \<Rightarrow> (nat \<times> 'a) list \<Rightarrow> (nat \<Rightarrow> 'a pc) \<Rightarrow> bool" where
  "log_inv R pl cl cs \<longleftrightarrow> distinct (map fst cl)
   \<and> (\<forall>(p, v) \<in> set cl. p < R \<and> v = pl ! p \<and> (\<forall>t. cowner (cs t) \<noteq> Some p))"

definition done_inv :: "nat \<Rightarrow> (nat \<times> 'a) list \<Rightarrow> (nat \<Rightarrow> 'a pc) \<Rightarrow> bool" where
  "done_inv R cl cs \<longleftrightarrow> (\<forall>p < R. p \<in> fst ` set cl \<or> (\<exists>t. cowner (cs t) = Some p))"

definition cinv :: "mhandle \<Rightarrow> 'a cstate \<Rightarrow> bool" where
  "cinv h s \<longleftrightarrow>
     (let m = cm s; n = unat (h_size h); R = unat (rg_r m); W = unat (rg_w m) in
      handle_ok h \<and> length (slots m) = n \<and> length (plog s) = W \<and> W < 2 ^ 63
      \<and> R \<le> W \<and> W \<le> R + n
      \<and> slots_inv n R W (sqn m) (dat m) (plog s) (pcs s)
      \<and> (\<forall>t. pc_ok n R W (sqn m) (dat m) (plog s) (pcs s t))
      \<and> owners_inv (pcs s) \<and> log_inv R (plog s) (clog s) (pcs s) \<and> done_inv R (clog s) (pcs s))"

section \<open>Preservation, one kind of step at a time\<close>

lemma Suc_mod_neq: "2 \<le> n \<Longrightarrow> Suc p mod n \<noteq> p mod n"
  using mod_Suc [of p n] by (auto split: if_splits)

lemma slots_inv_move:
  assumes "slots_inv n R W sq dt pl cs" "powner (cs t) = powner c" "cowner (cs t) = cowner c"
  shows "slots_inv n R W sq dt pl (cs(t := c))"
  using assms unfolding slots_inv_def by (auto simp: fun_upd_def) (metis assms(2,3))+

lemma owners_inv_move:
  assumes "owners_inv cs" "powner (cs t) = powner c" "cowner (cs t) = cowner c"
  shows "owners_inv (cs(t := c))"
  using assms unfolding owners_inv_def by (auto split: if_splits)

lemma log_inv_move:
  assumes "log_inv R pl cl cs" "cowner (cs t) = cowner c"
  shows "log_inv R pl cl (cs(t := c))"
  using assms unfolding log_inv_def by (fastforce split: if_splits)

lemma done_inv_move:
  assumes "done_inv R cl cs" "cowner (cs t) = cowner c"
  shows "done_inv R cl (cs(t := c))"
  using assms unfolding done_inv_def by (metis fun_upd_apply)

lemma done_inv_cclaim:
  assumes "done_inv R cl cs" "cowner (cs t) = None" "cowner c = Some R"
  shows "done_inv (Suc R) cl (cs(t := c))"
  using assms unfolding done_inv_def by (metis fun_upd_apply less_SucE option.distinct(1))

lemma done_inv_release:
  assumes "done_inv R cl cs" "cowner (cs t) = Some p"
  shows "done_inv R (cl @ [(p, v)]) (cs(t := Idle))"
proof -
  have "q \<in> fst ` set cl \<or> q = p \<or> (\<exists>t'. cowner ((cs(t := Idle)) t') = Some q)" if "q < R" for q
    using assms that unfolding done_inv_def by (metis fun_upd_apply option.inject)
  then show ?thesis unfolding done_inv_def by (simp del: fun_upd_apply) blast
qed

lemma cinv_goto:
  assumes "cinv h s" "powner (pcs s t) = powner c" "cowner (pcs s t) = cowner c"
    and "pc_ok (unat (h_size h)) (unat (rg_r (cm s))) (unat (rg_w (cm s))) (sqn (cm s)) (dat (cm s))
           (plog s) c"
  shows "cinv h (goto t c s)"
  using assms by (simp add: cinv_def goto_def Let_def slots_inv_move owners_inv_move log_inv_move
      done_inv_move)

text \<open>A producer claims position \<open>W\<close>.\<close>

lemma slots_inv_pclaim:
  assumes inv: "slots_inv n R W sq dt pl cs" and free: "sq (W mod n) = W"
    and own: "powner (cs t) = None" "cowner (cs t) = cowner c" "powner c = Some W"
    and len: "length pl = W" and n: "2 \<le> n"
  shows "slots_inv n R (Suc W) sq dt (pl @ [v]) (cs(t := c))"
proof -
  have "Suc W \<le> p + n" if "sq (p mod n) = Suc p" "W \<le> p + n" for p
    using that free n by (cases "W = p + n") auto
  moreover have "\<exists>t'. powner ((cs(t := c)) t') = Some p"
    if old: "p < Suc W" "p < W \<longrightarrow> (\<exists>t'. powner (cs t') = Some p)" for p
  proof (cases "p = W")
    case True
    then show ?thesis using own by (intro exI [of _ t]) simp
  next
    case False
    then obtain t' where "powner (cs t') = Some p" using old by auto
    then show ?thesis using own by (intro exI [of _ t']) auto
  qed
  moreover have "\<exists>t'. cowner ((cs(t := c)) t') = Some p" if "\<exists>t'. cowner (cs t') = Some p" for p
    using that own by (metis fun_upd_apply)
  ultimately show ?thesis
    using inv len unfolding slots_inv_def by (simp add: nth_append) (metis less_SucI)
qed

lemma pc_ok_pclaim:
  assumes "pc_ok n R W sq dt pl c" "length pl = W" "R \<le> W"
  shows "pc_ok n R (Suc W) sq dt (pl @ [v]) c"
  using assms by (cases c) (auto simp: nth_append)

lemma owners_inv_pclaim:
  assumes "owners_inv cs" "\<And>t'. powner (cs t') \<noteq> Some W" "powner c = Some W"
    "cowner (cs t) = cowner c"
  shows "owners_inv (cs(t := c))"
  using assms unfolding owners_inv_def by (auto split: if_splits)

lemma log_inv_pclaim:
  assumes "log_inv R pl cl cs" "cowner (cs t) = cowner c" "R \<le> length pl"
  shows "log_inv R (pl @ [v]) cl (cs(t := c))"
  using assms unfolding log_inv_def by (fastforce simp: nth_append split: if_splits)

lemma pc_ok_powner_less: "pc_ok n R W sq dt pl c \<Longrightarrow> powner c = Some p \<Longrightarrow> p < W \<and> sq (p mod n) = p"
  by (cases c) auto

lemma pc_ok_cowner_less:
  "pc_ok n R W sq dt pl c \<Longrightarrow> cowner c = Some p \<Longrightarrow> p < R \<and> sq (p mod n) = Suc p"
  by (cases c) auto

text \<open>A consumer claims position \<open>R\<close>.\<close>

lemma slots_inv_cclaim:
  assumes inv: "slots_inv n R W sq dt pl cs" and ready: "sq (R mod n) = Suc R"
    and own: "powner (cs t) = powner c" "cowner (cs t) = None" "cowner c = Some R"
  shows "slots_inv n (Suc R) W sq dt pl (cs(t := c)) \<and> R < W"
proof -
  have "Suc R \<le> p" if "sq (p mod n) = p" "R \<le> p" for p
    using that ready by (cases "p = R") auto
  moreover have "\<exists>t'. cowner ((cs(t := c)) t') = Some p"
    if old: "p < Suc R" "p < R \<longrightarrow> (\<exists>t'. cowner (cs t') = Some p)" for p
  proof (cases "p = R")
    case True
    then show ?thesis using own by (intro exI [of _ t]) simp
  next
    case False
    then obtain t' where "cowner (cs t') = Some p" using old by auto
    then show ?thesis using own by (intro exI [of _ t']) auto
  qed
  moreover have "\<exists>t'. powner ((cs(t := c)) t') = Some p" if "\<exists>t'. powner (cs t') = Some p" for p
    using that own by (metis fun_upd_apply)
  moreover have "R < W" using inv ready unfolding slots_inv_def by blast
  ultimately show ?thesis
    using inv unfolding slots_inv_def by (simp) (metis less_SucI less_Suc_eq)
qed

lemma pc_ok_cclaim:
  assumes "pc_ok n R W sq dt pl c"
  shows "pc_ok n (Suc R) W sq dt pl c"
  using assms by (cases c) auto

lemma owners_inv_cclaim:
  assumes "owners_inv cs" "\<And>t'. cowner (cs t') \<noteq> Some R" "cowner c = Some R"
    "powner (cs t) = powner c"
  shows "owners_inv (cs(t := c))"
  using assms unfolding owners_inv_def by (auto split: if_splits)

lemma log_inv_cclaim:
  assumes "log_inv R pl cl cs" "cowner c = Some R"
  shows "log_inv (Suc R) pl cl (cs(t := c))"
  using assms unfolding log_inv_def by (fastforce split: if_splits)

text \<open>The producer that owns \<open>p\<close> writes its element.\<close>

lemma slots_inv_write:
  assumes "slots_inv n R W sq dt pl cs" "sq (p mod n) = p" "2 \<le> n"
  shows "slots_inv n R W sq (dt(p mod n := v)) pl cs"
proof -
  have "(dt(p mod n := v)) (q mod n) = dt (q mod n)" if "sq (q mod n) = Suc q" for q
    using that assms(2) Suc_mod_neq [OF assms(3), of q] by auto
  then show ?thesis using assms(1) unfolding slots_inv_def by simp
qed

lemma pc_ok_write:
  assumes "pc_ok n R W sq dt pl c" "sq (p mod n) = p" "powner c \<noteq> Some p"
  shows "pc_ok n R W sq (dt(p mod n := v)) pl c"
  using assms by (cases c) auto

text \<open>The producer that owns \<open>p\<close> publishes it.\<close>

lemma slots_inv_publish:
  assumes inv: "slots_inv n R W sq dt pl cs" and own: "sq (p mod n) = p" "p < W"
    and dat: "dt (p mod n) = pl ! p" and t: "powner (cs t) = Some p" "cowner (cs t) = None"
    and n: "2 \<le> n" and W: "W \<le> R + n"
  shows "slots_inv n R W (sq(p mod n := Suc p)) dt pl (cs(t := Idle))"
proof -
  have R: "R \<le> p" using inv own unfolding slots_inv_def by blast
  have keep: "\<exists>t'. powner ((cs(t := Idle)) t') = Some q"
    if "\<exists>t'. powner (cs t') = Some q" "q mod n \<noteq> p mod n" for q
    using that t by (metis fun_upd_apply option.inject)
  have keepc: "\<exists>t'. cowner ((cs(t := Idle)) t') = Some q" if "\<exists>t'. cowner (cs t') = Some q" for q
    using that t by (metis fun_upd_apply option.distinct(1))
  show ?thesis
    unfolding slots_inv_def
  proof (intro conjI allI impI)
    fix q assume q: "(sq(p mod n := Suc p)) (q mod n) = q"
    then have ne: "q mod n \<noteq> p mod n" using Suc_mod_neq [OF n, of p] by auto
    with q have "sq (q mod n) = q" by simp
    then show "R \<le> q" "q < R + n" "q < W \<Longrightarrow> \<exists>t'. powner ((cs(t := Idle)) t') = Some q"
      using inv keep [OF _ ne] unfolding slots_inv_def by blast+
  next
    fix q assume "(sq(p mod n := Suc p)) (q mod n) = Suc q"
    then have "q = p \<or> sq (q mod n) = Suc q" by (auto split: if_splits)
    then show "q < W" "W \<le> q + n" "dt (q mod n) = pl ! q"
        "q < R \<Longrightarrow> \<exists>t'. cowner ((cs(t := Idle)) t') = Some q"
      using inv own R W dat keepc unfolding slots_inv_def by auto
  next
    fix i assume "i < n"
    then show "\<exists>q. q mod n = i \<and> ((sq(p mod n := Suc p)) i = q \<or> (sq(p mod n := Suc p)) i = Suc q)"
      using inv unfolding slots_inv_def by (metis fun_upd_apply)
  qed
qed

lemma pc_ok_publish:
  assumes "pc_ok n R W sq dt pl c" "sq (p mod n) = p" "p < W" "powner c \<noteq> Some p" "2 \<le> n"
  shows "pc_ok n R W (sq(p mod n := Suc p)) dt pl c"
  using assms Suc_mod_neq [OF \<open>2 \<le> n\<close>] Suc_mod_neq [OF \<open>2 \<le> n\<close>, THEN not_sym] by (cases c) auto

text \<open>The consumer that owns \<open>p\<close> releases it: the slot is free for position \<open>p + n\<close>.\<close>

lemma slots_inv_release:
  assumes inv: "slots_inv n R W sq dt pl cs" and own: "sq (p mod n) = Suc p" "p < R"
    and t: "cowner (cs t) = Some p" "powner (cs t) = None" and n: "2 \<le> n" and R: "R \<le> W"
  shows "slots_inv n R W (sq(p mod n := p + n)) dt pl (cs(t := Idle))"
proof -
  have W: "W \<le> p + n" using inv own unfolding slots_inv_def by blast
  have keep: "\<exists>t'. cowner ((cs(t := Idle)) t') = Some q"
    if "\<exists>t'. cowner (cs t') = Some q" "q mod n \<noteq> p mod n" for q
    using that t by (metis fun_upd_apply option.inject)
  have keepp: "\<exists>t'. powner ((cs(t := Idle)) t') = Some q" if "\<exists>t'. powner (cs t') = Some q" for q
    using that t by (metis fun_upd_apply option.distinct(1))
  show ?thesis
    unfolding slots_inv_def
  proof (intro conjI allI impI)
    fix q assume "(sq(p mod n := p + n)) (q mod n) = q"
    then have "q = p + n \<or> sq (q mod n) = q" by (auto split: if_splits)
    then show "R \<le> q" "q < R + n" "q < W \<Longrightarrow> \<exists>t'. powner ((cs(t := Idle)) t') = Some q"
      using inv own R W keepp unfolding slots_inv_def by auto
  next
    fix q assume q: "(sq(p mod n := p + n)) (q mod n) = Suc q"
    then have ne: "q mod n \<noteq> p mod n"
      using Suc_mod_neq [OF n, of q] by (metis fun_upd_same mod_add_self2)
    with q have "sq (q mod n) = Suc q" by simp
    then show "q < W" "W \<le> q + n" "dt (q mod n) = pl ! q"
        "q < R \<Longrightarrow> \<exists>t'. cowner ((cs(t := Idle)) t') = Some q"
      using inv keep [OF _ ne] unfolding slots_inv_def by blast+
  next
    fix i assume "i < n"
    then show "\<exists>q. q mod n = i \<and> ((sq(p mod n := p + n)) i = q \<or> (sq(p mod n := p + n)) i = Suc q)"
      using inv unfolding slots_inv_def by (metis fun_upd_apply mod_add_self2)
  qed
qed

lemma pc_ok_release:
  assumes "pc_ok n R W sq dt pl c" "sq (p mod n) = Suc p" "p < R" "cowner c \<noteq> Some p" "2 \<le> n"
  shows "pc_ok n R W (sq(p mod n := p + n)) dt pl c"
  using assms Suc_mod_neq [OF \<open>2 \<le> n\<close>, of p] by (cases c) auto

lemma owners_inv_idle: "owners_inv cs \<Longrightarrow> owners_inv (cs(t := Idle))"
  unfolding owners_inv_def by (auto split: if_splits)

lemma log_inv_idle: "log_inv R pl cl cs \<Longrightarrow> log_inv R pl cl (cs(t := Idle))"
  unfolding log_inv_def by (fastforce split: if_splits)

lemma log_inv_release:
  assumes "log_inv R pl cl cs" "owners_inv cs" "cowner (cs t) = Some p" "p < R" "v = pl ! p"
  shows "log_inv R pl (cl @ [(p, v)]) (cs(t := Idle))"
proof -
  have "p \<notin> fst ` set cl" using assms unfolding log_inv_def by fastforce
  moreover have "cowner (cs t') \<noteq> Some p" if "t' \<noteq> t" for t'
    using assms that unfolding owners_inv_def by blast
  ultimately show ?thesis
    using assms unfolding log_inv_def by (fastforce split: if_splits)
qed

section \<open>Every step keeps the invariant\<close>

lemma unat_Suc_word: "unat (p :: u64) < 2 ^ 63 \<Longrightarrow> unat (p + 1) = Suc (unat p)"
  by (simp add: unat_word_ariths)

lemma slot_views:
  assumes "handle_ok h"
  shows "unat (slot_seq h p m) = sqn m (unat p mod unat (h_size h))"
    "slot_data h p m = dat m (unat p mod unat (h_size h))"
  using slot_index_mod [OF assms] by (simp_all add: slot_seq_def slot_data_def sqn_def dat_def)

lemma sqn_set_seq:
  assumes "handle_ok h" "length (slots m) = unat (h_size h)"
  shows "sqn (set_seq h p v m) = (sqn m)(unat p mod unat (h_size h) := unat v)"
    "dat (set_seq h p v m) = dat m"
    "sqn (set_data h p d m) = sqn m"
    "dat (set_data h p d m) = (dat m)(unat p mod unat (h_size h) := d)"
  using assms slot_index_mod [of h p] slot_index_less [of h p]
  by (auto simp: sqn_def dat_def set_seq_def set_data_def Let_def fun_eq_iff nth_list_update)

lemma view_frame:
  "sqn (m\<lparr>rg_w := x\<rparr>) = sqn m" "dat (m\<lparr>rg_w := x\<rparr>) = dat m"
  "sqn (m\<lparr>rg_r := x\<rparr>) = sqn m" "dat (m\<lparr>rg_r := x\<rparr>) = dat m"
  "sqn (fst (notifyConsumers h m)) = sqn m" "dat (fst (notifyConsumers h m)) = dat m"
  "sqn (fst (notifyProducers h m)) = sqn m" "dat (fst (notifyProducers h m)) = dat m"
  by (simp_all add: sqn_def dat_def fun_eq_iff)

lemmas view_simps = slot_views sqn_set_seq view_frame

lemma cinv_no_owner:
  assumes "cinv h s"
  shows "powner (pcs s t) \<noteq> Some (unat (rg_w (cm s)))" "cowner (pcs s t) \<noteq> Some (unat (rg_r (cm s)))"
  using assms pc_ok_powner_less pc_ok_cowner_less unfolding cinv_def Let_def by (metis less_irrefl)+

lemma cinv_pcas:
  assumes inv: "cinv h s" and pc: "pcs s t = PCas (rg_w (cm s)) v"
    and bound: "Suc (length (plog s)) < 2 ^ 63"
  shows "cinv h (goto t (PWrite (rg_w (cm s)) v)
     (s\<lparr>cm := (cm s)\<lparr>rg_w := rg_w (cm s) + 1\<rparr>, plog := plog s @ [v]\<rparr>))"
proof -
  let ?m = "cm s" and ?c = "PWrite (rg_w (cm s)) v"
  let ?n = "unat (h_size h)" and ?W = "unat (rg_w ?m)" and ?R = "unat (rg_r ?m)"
  have n: "2 \<le> ?n" using inv handle_size_bounds by (simp add: cinv_def Let_def)
  have len: "length (plog s) = ?W" and W: "unat (rg_w ?m + 1) = Suc ?W" and R: "?R \<le> ?W"
    using inv bound by (simp_all add: cinv_def Let_def unat_Suc_word)
  have free: "sqn ?m (?W mod ?n) = ?W" and si: "slots_inv ?n ?R ?W (sqn ?m) (dat ?m) (plog s) (pcs s)"
    and pcok: "\<And>t. pc_ok ?n ?R ?W (sqn ?m) (dat ?m) (plog s) (pcs s t)"
    using inv pc by (auto simp: cinv_def Let_def dest: spec [of _ t])
  have "?W < ?R + ?n" using si free unfolding slots_inv_def by blast
  moreover have "slots_inv ?n ?R (Suc ?W) (sqn ?m) (dat ?m) (plog s @ [v]) ((pcs s)(t := ?c))"
    using si free len n pc by (intro slots_inv_pclaim) auto
  moreover have "pc_ok ?n ?R (Suc ?W) (sqn ?m) (dat ?m) (plog s @ [v]) (((pcs s)(t := ?c)) t')" for t'
    using pc_ok_pclaim [OF pcok len R] len free by (simp add: nth_append)
  moreover have "owners_inv ((pcs s)(t := ?c))"
    using inv cinv_no_owner [OF inv] pc by (intro owners_inv_pclaim) (auto simp: cinv_def Let_def)
  moreover have "log_inv ?R (plog s @ [v]) (clog s) ((pcs s)(t := ?c))"
    using inv pc len R by (intro log_inv_pclaim) (auto simp: cinv_def Let_def)
  moreover have "done_inv ?R (clog s) ((pcs s)(t := ?c))"
    using inv pc by (intro done_inv_move) (auto simp: cinv_def Let_def)
  ultimately show ?thesis
    using inv bound len W by (simp add: cinv_def Let_def goto_def view_simps)
qed

lemma cinv_ccas:
  assumes inv: "cinv h s" and pc: "pcs s t = CCas (rg_r (cm s))"
  shows "cinv h (goto t (CRead (rg_r (cm s))) (s\<lparr>cm := (cm s)\<lparr>rg_r := rg_r (cm s) + 1\<rparr>\<rparr>))"
proof -
  let ?m = "cm s" and ?c = "CRead (rg_r (cm s))"
  let ?n = "unat (h_size h)" and ?W = "unat (rg_w ?m)" and ?R = "unat (rg_r ?m)"
  have W: "?W < 2 ^ 63" "?R \<le> ?W" "?W \<le> ?R + ?n" and R: "unat (rg_r ?m + 1) = Suc ?R"
    using inv by (simp_all add: cinv_def Let_def unat_Suc_word)
  have ready: "sqn ?m (?R mod ?n) = Suc ?R"
    and si: "slots_inv ?n ?R ?W (sqn ?m) (dat ?m) (plog s) (pcs s)"
    and pcok: "\<And>t. pc_ok ?n ?R ?W (sqn ?m) (dat ?m) (plog s) (pcs s t)"
    using inv pc by (auto simp: cinv_def Let_def dest: spec [of _ t])
  have "slots_inv ?n (Suc ?R) ?W (sqn ?m) (dat ?m) (plog s) ((pcs s)(t := ?c)) \<and> ?R < ?W"
    using si ready pc by (intro slots_inv_cclaim) auto
  moreover have "pc_ok ?n (Suc ?R) ?W (sqn ?m) (dat ?m) (plog s) (((pcs s)(t := ?c)) t')" for t'
    using pc_ok_cclaim [OF pcok] ready by simp
  moreover have "owners_inv ((pcs s)(t := ?c))"
    using inv cinv_no_owner [OF inv] pc by (intro owners_inv_cclaim) (auto simp: cinv_def Let_def)
  moreover have "log_inv (Suc ?R) (plog s) (clog s) ((pcs s)(t := ?c))"
    using inv by (intro log_inv_cclaim) (auto simp: cinv_def Let_def)
  moreover have "done_inv (Suc ?R) (clog s) ((pcs s)(t := ?c))"
    using inv pc by (intro done_inv_cclaim) (auto simp: cinv_def Let_def)
  ultimately show ?thesis
    using inv W R by (simp add: cinv_def Let_def goto_def view_simps)
qed

lemma cinv_write:
  assumes inv: "cinv h s" and pc: "pcs s t = PWrite p v"
  shows "cinv h (goto t (PPublish p) (s\<lparr>cm := set_data h p v (cm s)\<rparr>))"
proof -
  let ?m = "cm s" and ?n = "unat (h_size h)" and ?c = "PPublish p"
  let ?W = "unat (rg_w ?m)" and ?R = "unat (rg_r ?m)"
  let ?dt = "(dat ?m)(unat p mod ?n := v)"
  have ok: "handle_ok h" "length (slots ?m) = ?n" and n: "2 \<le> ?n"
    using inv handle_size_bounds by (simp_all add: cinv_def Let_def)
  have own: "sqn ?m (unat p mod ?n) = unat p" "unat p < ?W" "plog s ! unat p = v"
    and si: "slots_inv ?n ?R ?W (sqn ?m) (dat ?m) (plog s) (pcs s)"
    and pcok: "\<And>t. pc_ok ?n ?R ?W (sqn ?m) (dat ?m) (plog s) (pcs s t)"
    using inv pc by (auto simp: cinv_def Let_def dest: spec [of _ t])
  have others: "powner (pcs s t') \<noteq> Some (unat p)" if "t' \<noteq> t" for t'
    using inv pc that by (auto simp: cinv_def Let_def owners_inv_def)
  have "slots_inv ?n ?R ?W (sqn ?m) ?dt (plog s) ((pcs s)(t := ?c))"
    using si own n pc by (intro slots_inv_move slots_inv_write) auto
  moreover have "pc_ok ?n ?R ?W (sqn ?m) ?dt (plog s) (((pcs s)(t := ?c)) t')" for t'
    using pc_ok_write [OF pcok own(1) others] own by auto
  moreover have "owners_inv ((pcs s)(t := ?c))" "log_inv ?R (plog s) (clog s) ((pcs s)(t := ?c))"
      "done_inv ?R (clog s) ((pcs s)(t := ?c))"
    using inv pc by (auto simp: cinv_def Let_def intro: owners_inv_move log_inv_move done_inv_move)
  ultimately show ?thesis
    using inv ok by (simp add: cinv_def Let_def goto_def view_simps)
qed

lemma cinv_publish:
  assumes inv: "cinv h s" and pc: "pcs s t = PPublish p"
  shows "cinv h (goto t Idle (s\<lparr>cm := fst (publish h p (cm s))\<rparr>))"
    "publishSlot h p (cm s) = (True, publish h p (cm s))"
proof -
  let ?m = "cm s" and ?n = "unat (h_size h)"
  let ?W = "unat (rg_w ?m)" and ?R = "unat (rg_r ?m)"
  let ?sq = "(sqn ?m)(unat p mod ?n := Suc (unat p))"
  have ok: "handle_ok h" "length (slots ?m) = ?n" and n: "2 \<le> ?n" and W: "?W \<le> ?R + ?n" "?W < 2 ^ 63"
    using inv handle_size_bounds by (simp_all add: cinv_def Let_def)
  have own: "sqn ?m (unat p mod ?n) = unat p" "unat p < ?W" "dat ?m (unat p mod ?n) = plog s ! unat p"
    and si: "slots_inv ?n ?R ?W (sqn ?m) (dat ?m) (plog s) (pcs s)"
    and pcok: "\<And>t. pc_ok ?n ?R ?W (sqn ?m) (dat ?m) (plog s) (pcs s t)"
    using inv pc by (auto simp: cinv_def Let_def dest: spec [of _ t])
  have p1: "unat (p + 1) = Suc (unat p)" using own W by (intro unat_Suc_word) simp
  have others: "powner (pcs s t') \<noteq> Some (unat p)" if "t' \<noteq> t" for t'
    using inv pc that by (auto simp: cinv_def Let_def owners_inv_def)
  have "slots_inv ?n ?R ?W ?sq (dat ?m) (plog s) ((pcs s)(t := Idle))"
    using si own n pc W by (intro slots_inv_publish) auto
  moreover have "pc_ok ?n ?R ?W ?sq (dat ?m) (plog s) (((pcs s)(t := Idle)) t')" for t'
    using pc_ok_publish [OF pcok own(1,2) others n] by simp
  moreover have "owners_inv ((pcs s)(t := Idle))" "log_inv ?R (plog s) (clog s) ((pcs s)(t := Idle))"
      "done_inv ?R (clog s) ((pcs s)(t := Idle))"
    using inv pc by (simp_all add: cinv_def Let_def owners_inv_idle log_inv_idle done_inv_move)
  ultimately show "cinv h (goto t Idle (s\<lparr>cm := fst (publish h p (cm s))\<rparr>))"
    using inv ok by (simp add: cinv_def Let_def goto_def publish_def view_simps p1)
  have "slot_seq h p ?m = p" using slot_views(1) [OF ok(1), of p ?m] own(1) by (simp add: word_unat_eq_iff)
  then show "publishSlot h p ?m = (True, publish h p ?m)" by (simp add: publishSlot_def publish_def)
qed

lemma cinv_release:
  assumes inv: "cinv h s" and pc: "pcs s t = CRelease p v"
  shows "cinv h (goto t Idle (s\<lparr>cm := fst (release h p (cm s)), clog := clog s @ [(unat p, v)]\<rparr>))"
    "releaseSlot h p (cm s) = (True, release h p (cm s))"
proof -
  let ?m = "cm s" and ?n = "unat (h_size h)"
  let ?W = "unat (rg_w ?m)" and ?R = "unat (rg_r ?m)"
  let ?sq = "(sqn ?m)(unat p mod ?n := unat p + ?n)"
  have ok: "handle_ok h" "length (slots ?m) = ?n" and n: "2 \<le> ?n" "?n \<le> 2 ^ 63"
    and W: "?R \<le> ?W" "?W < 2 ^ 63"
    using inv handle_size_bounds by (simp_all add: cinv_def Let_def)
  have own: "sqn ?m (unat p mod ?n) = Suc (unat p)" "unat p < ?R" "v = plog s ! unat p"
    and si: "slots_inv ?n ?R ?W (sqn ?m) (dat ?m) (plog s) (pcs s)"
    and pcok: "\<And>t. pc_ok ?n ?R ?W (sqn ?m) (dat ?m) (plog s) (pcs s t)"
    using inv pc by (auto simp: cinv_def Let_def dest: spec [of _ t])
  have p1: "unat (p + h_size h) = unat p + ?n" "unat (p + 1) = Suc (unat p)"
    using own W n by (simp_all add: unat_word_ariths)
  have others: "cowner (pcs s t') \<noteq> Some (unat p)" if "t' \<noteq> t" for t'
    using inv pc that by (auto simp: cinv_def Let_def owners_inv_def)
  have "slots_inv ?n ?R ?W ?sq (dat ?m) (plog s) ((pcs s)(t := Idle))"
    using si own n pc W by (intro slots_inv_release) auto
  moreover have "pc_ok ?n ?R ?W ?sq (dat ?m) (plog s) (((pcs s)(t := Idle)) t')" for t'
    using pc_ok_release [OF pcok own(1,2) others n(1)] by simp
  moreover have "owners_inv ((pcs s)(t := Idle))"
      "log_inv ?R (plog s) (clog s @ [(unat p, v)]) ((pcs s)(t := Idle))"
      "done_inv ?R (clog s @ [(unat p, v)]) ((pcs s)(t := Idle))"
    using inv pc own by (simp_all add: cinv_def Let_def owners_inv_idle log_inv_release done_inv_release)
  ultimately show "cinv h (goto t Idle
      (s\<lparr>cm := fst (release h p (cm s)), clog := clog s @ [(unat p, v)]\<rparr>))"
    using inv ok by (simp add: cinv_def Let_def goto_def release_def handle_mask_Suc view_simps p1)
  have "unat (slot_seq h p ?m) = unat (p + 1)" using slot_views(1) [OF ok(1), of p ?m] own(1) p1 by simp
  then show "releaseSlot h p ?m = (True, release h p ?m)" by (simp add: releaseSlot_def release_def word_unat_eq_iff)
qed

lemma sint_diff_zero: "sint (a - b) = 0 \<longleftrightarrow> unat a = unat (b :: u64)"
  by (metis eq_iff_diff_eq_0 signed_eq_0_iff word_unat_eq_iff)

lemma slot_seq_eq_iff:
  assumes "cinv h s"
  shows "sint (slot_seq h p (cm s) - p) = 0 \<longleftrightarrow> sqn (cm s) (unat p mod unat (h_size h)) = unat p"
    "unat p < 2 ^ 63 \<Longrightarrow> sint (slot_seq h p (cm s) - (p + 1)) = 0 \<longleftrightarrow>
       sqn (cm s) (unat p mod unat (h_size h)) = Suc (unat p)"
  using assms slot_views(1) [of h p "cm s"] unat_Suc_word [of p]
  by (simp_all add: cinv_def Let_def sint_diff_zero)

text \<open>A thread at its sequence check, and one that goes on from it, keeps its invariant.\<close>

lemma cinv_pcheck:
  assumes inv: "cinv h s" and pc: "pcs s t = PCheck p v" and eq: "sint (slot_seq h p (cm s) - p) = 0"
  shows "cinv h (goto t (PCas p v) s)"
proof (rule cinv_goto [OF inv])
  have "unat p \<le> unat (rg_w (cm s))" using inv pc by (auto simp: cinv_def Let_def dest: spec [of _ t])
  then show "pc_ok (unat (h_size h)) (unat (rg_r (cm s))) (unat (rg_w (cm s))) (sqn (cm s)) (dat (cm s))
      (plog s) (PCas p v)"
    using slot_seq_eq_iff(1) [OF inv, of p] eq by auto
qed (simp_all add: pc)

lemma cinv_ccheck:
  assumes inv: "cinv h s" and pc: "pcs s t = CCheck p" and eq: "sint (slot_seq h p (cm s) - (p + 1)) = 0"
  shows "cinv h (goto t (CCas p) s)"
proof (rule cinv_goto [OF inv])
  have le: "unat p \<le> unat (rg_r (cm s))" using inv pc by (auto simp: cinv_def Let_def dest: spec [of _ t])
  then have "unat p < 2 ^ 63" using inv by (simp add: cinv_def Let_def)
  then show "pc_ok (unat (h_size h)) (unat (rg_r (cm s))) (unat (rg_w (cm s))) (sqn (cm s)) (dat (cm s))
      (plog s) (CCas p)"
    using slot_seq_eq_iff(2) [OF inv, of p] eq le by auto
qed (simp_all add: pc)

lemma cinv_read:
  assumes inv: "cinv h s" and pc: "pcs s t = CRead p"
  shows "cinv h (goto t (CRelease p (slot_data h p (cm s))) s)"
proof (rule cinv_goto [OF inv])
  have own: "unat p < unat (rg_r (cm s))" "sqn (cm s) (unat p mod unat (h_size h)) = Suc (unat p)"
    using inv pc by (auto simp: cinv_def Let_def dest: spec [of _ t])
  moreover have "slot_data h p (cm s) = plog s ! unat p"
    using inv own(2) slot_views(2) [of h p "cm s"] by (auto simp: cinv_def Let_def slots_inv_def)
  ultimately show "pc_ok (unat (h_size h)) (unat (rg_r (cm s))) (unat (rg_w (cm s))) (sqn (cm s))
      (dat (cm s)) (plog s) (CRelease p (slot_data h p (cm s)))" by simp
qed (simp_all add: pc)

lemma cinv_cstep:
  assumes inv: "cinv h s" and st: "cstep h t a s = Some s'" and bound: "length (plog s') < 2 ^ 63"
  shows "cinv h s'"
proof (cases "pcs s t")
  case Idle
  then show ?thesis using inv st by (cases a) (auto simp: cstep.simps intro: cinv_goto)
next
  case (PLoad v)
  then show ?thesis using inv st by (cases a) (auto simp: cstep.simps intro: cinv_goto)
next
  case (PCheck p v)
  then show ?thesis using inv st
    by (cases a) (auto simp: cstep.simps Let_def split: if_splits intro: cinv_goto cinv_pcheck)
next
  case (PCas p v)
  show ?thesis
  proof (cases "a = Go \<and> rg_w (cm s) = p")
    case True
    then have s': "s' = goto t (PWrite p v) (s\<lparr>cm := (cm s)\<lparr>rg_w := p + 1\<rparr>, plog := plog s @ [v]\<rparr>)"
      using st PCas by (simp add: cstep.simps)
    then have "Suc (length (plog s)) < 2 ^ 63" using bound by (simp add: goto_def)
    then show ?thesis using cinv_pcas [OF inv, of t v] PCas True s' by simp
  next
    case False
    then show ?thesis using inv st PCas
      by (cases a) (auto simp: cstep.simps split: if_splits intro: cinv_goto)
  qed
next
  case (PWrite p v)
  then show ?thesis using inv st by (cases a) (auto simp: cstep.simps intro: cinv_write)
next
  case (PPublish p)
  then show ?thesis using inv st cinv_publish [OF inv PPublish] 
    by (cases a) (auto simp: cstep.simps split: prod.splits)
next
  case CLoad
  then show ?thesis using inv st by (cases a) (auto simp: cstep.simps intro: cinv_goto)
next
  case (CCheck p)
  then show ?thesis using inv st
    by (cases a) (auto simp: cstep.simps Let_def split: if_splits intro: cinv_goto cinv_ccheck)
next
  case (CCas p)
  then show ?thesis using inv st
    by (cases a) (auto simp: cstep.simps Let_def split: if_splits intro: cinv_goto cinv_ccas)
next
  case (CRead p)
  then show ?thesis using inv st by (cases a) (auto simp: cstep.simps intro: cinv_read)
next
  case (CRelease p v)
  then show ?thesis using inv st cinv_release [OF inv CRelease]
    by (cases a) (auto simp: cstep.simps split: prod.splits)
qed

section \<open>Reachable states\<close>

text \<open>Every run starts on a ring that \<^verbatim>\<open>Format\<close> just published, as seen through a handle of it.\<close>

definition formatted :: "mhandle \<Rightarrow> 'a mring \<Rightarrow> bool" where
  "formatted h m \<longleftrightarrow> ring_inv h m \<and> rg_r m = 0 \<and> rg_w m = 0"

lemma cinv_init:
  assumes "formatted h m"
  shows "cinv h (cinit m)"
proof -
  have h: "handle_ok h" "length (slots m) = unat (h_size h)" and rw: "rg_r m = 0" "rg_w m = 0"
    using assms by (simp_all add: formatted_def ring_inv_def)
  let ?n = "unat (h_size h)"
  have n: "2 \<le> ?n" using handle_size_bounds [OF h(1)] by simp
  have sq: "sqn m j = j" if "j < ?n" for j
  proof -
    have "slot_seq h (of_nat j) m = of_nat j"
      using assms that rw by (simp add: formatted_def ring_inv_def ring_len_def)
    moreover have "slot_index h (of_nat j) = j" using slot_index_add [OF h(1), of 0 j] that by simp
    moreover have "unat (of_nat j :: u64) = j"
      using that handle_size_bounds(2) [OF h(1)] by (intro unat_of_nat_self) simp
    ultimately show ?thesis by (simp add: sqn_def slot_seq_def)
  qed
  have small: "p < ?n" if "sqn m (p mod ?n) = p" for p
    using that sq [of "p mod ?n"] n mod_less_divisor [of ?n p] by simp
  have "sqn m (p mod ?n) \<noteq> Suc p" for p
    using sq [of "p mod ?n"] n by (metis Suc_n_not_le_n mod_less_divisor mod_less_eq_dividend
        order_less_le_trans zero_less_numeral)
  moreover have "\<exists>p. p mod ?n = i \<and> (sqn m i = p \<or> sqn m i = Suc p)" if "i < ?n" for i
    using sq [OF that] that by (intro exI [of _ i]) simp
  ultimately have "slots_inv ?n 0 0 (sqn m) (dat m) [] (\<lambda>_. Idle)"
    using small unfolding slots_inv_def by auto
  then show ?thesis
    using h rw by (simp add: cinv_def cinit_def Let_def owners_inv_def log_inv_def done_inv_def)
qed

lemma creach_cinv: "creach h m s \<Longrightarrow> formatted h m \<Longrightarrow> cinv h s"
  by (induction rule: creach.induct) (auto intro: cinv_init cinv_cstep)

lemma crun_plog:
  "cstep h t a s = Some s' \<Longrightarrow> length (plog s) \<le> length (plog s')"
  by (auto simp: cstep.simps Let_def goto_def split: pc.splits act.splits if_splits prod.splits)

lemma cstep_other: "cstep h t a s = Some s' \<Longrightarrow> t' \<noteq> t \<Longrightarrow> pcs s' t' = pcs s t'"
  by (auto simp: cstep.simps Let_def goto_def split: pc.splits act.splits if_splits prod.splits)

lemma crun_other:
  "crun h sched s = Some s' \<Longrightarrow> t' \<notin> fst ` set sched \<Longrightarrow> pcs s' t' = pcs s t'"
proof (induction h sched s rule: crun.induct)
  case (2 h t a sched s)
  then show ?case by (auto simp: cstep_other split: option.splits)
qed simp

lemma crun_length: "crun h sched s = Some s' \<Longrightarrow> length (plog s) \<le> length (plog s')"
proof (induction h sched s rule: crun.induct)
  case (2 h t a sched s)
  then show ?case by (auto dest: crun_plog split: option.splits)
qed simp

lemma crun_creach:
  "crun h sched s = Some s' \<Longrightarrow> creach h m s \<Longrightarrow> length (plog s') < 2 ^ 63 \<Longrightarrow> creach h m s'"
proof (induction h sched s rule: crun.induct)
  case (2 h t a sched s)
  then obtain s1 where s1: "cstep h t a s = Some s1" "crun h sched s1 = Some s'"
    by (auto split: option.splits)
  then have "length (plog s1) < 2 ^ 63" using crun_length [OF s1(2)] 2(4) by simp
  with 2(3) s1(1) have "creach h m s1" by (rule creach.step)
  then show ?case using 2 s1 by simp
qed simp

fun slot_owned :: "mhandle \<Rightarrow> 'a pc \<Rightarrow> nat option" where
  "slot_owned h (PWrite p v) = Some (slot_index h p)"
| "slot_owned h (PPublish p) = Some (slot_index h p)"
| "slot_owned h (CRead p) = Some (slot_index h p)"
| "slot_owned h (CRelease p v) = Some (slot_index h p)"
| "slot_owned h _ = None"

lemma slot_owned_cases:
  assumes "slot_owned h c = Some i" "handle_ok h"
  obtains p where "powner c = Some p" "i = p mod unat (h_size h)"
    | p where "cowner c = Some p" "i = p mod unat (h_size h)"
  using assms by (cases c) (auto simp: slot_index_mod)

lemma owners_disjoint:
  assumes inv: "cinv h s" and "slot_owned h (pcs s t) = Some i" "slot_owned h (pcs s t') = Some i"
  shows "t = t'"
proof -
  let ?n = "unat (h_size h)"
  have ok: "handle_ok h" and n: "2 \<le> ?n"
    using inv handle_size_bounds by (simp_all add: cinv_def Let_def)
  have pcok: "pc_ok ?n (unat (rg_r (cm s))) (unat (rg_w (cm s))) (sqn (cm s)) (dat (cm s)) (plog s)
      (pcs s t)" for t
    using inv by (simp add: cinv_def Let_def)
  have own: "owners_inv (pcs s)" using inv by (simp add: cinv_def Let_def)
  note P = pc_ok_powner_less [OF pcok] and C = pc_ok_cowner_less [OF pcok]
  show ?thesis
    by (rule slot_owned_cases [OF assms(2) ok]; rule slot_owned_cases [OF assms(3) ok])
      (use own P C Suc_mod_neq [OF n] in \<open>unfold owners_inv_def; metis Suc_inject\<close>)+
qed

lemma quiescent_slot:
  assumes inv: "slots_inv n R W sq dt pl cs" and idle: "\<And>t. powner (cs t) = None" "\<And>t. cowner (cs t) = None"
    and W: "R \<le> W" "W \<le> R + n" and p: "R \<le> p" "p < R + n"
  shows "sq (p mod n) = (if p < W then Suc p else p)" "p < W \<Longrightarrow> dt (p mod n) = pl ! p"
proof -
  have "p mod n < n" using p by simp
  then obtain q where q: "q mod n = p mod n" "sq (p mod n) = q \<or> sq (p mod n) = Suc q"
    using inv unfolding slots_inv_def by metis
  have A: "sq (q mod n) = q \<Longrightarrow> R \<le> q \<and> q < R + n \<and> W \<le> q"
    and B: "sq (q mod n) = Suc q \<Longrightarrow> q < W \<and> dt (q mod n) = pl ! q \<and> R \<le> q"
    using inv idle unfolding slots_inv_def by (metis not_le option.distinct(1))+
  have "R \<le> q" "q < R + n" using q A B W by auto
  moreover obtain a b where "q = R + a" "p = R + b" using le_Suc_ex p(1) \<open>R \<le> q\<close> by metis
  ultimately have "q = p" using mod_window_inj [of R a n b] p q(1) by simp
  then show "sq (p mod n) = (if p < W then Suc p else p)" "p < W \<Longrightarrow> dt (p mod n) = pl ! p"
    using q A B by auto
qed

lemma cinv_quiescent:
  assumes inv: "cinv h s" and idle: "\<And>t. slot_owned h (pcs s t) = None"
  shows "ring_inv h (cm s)" "ring_abs h (cm s) = drop (unat (rg_r (cm s))) (plog s)"
proof -
  let ?m = "cm s" and ?n = "unat (h_size h)"
  let ?W = "unat (rg_w ?m)" and ?R = "unat (rg_r ?m)"
  have ok: "handle_ok h" "length (slots ?m) = ?n" and W: "?R \<le> ?W" "?W \<le> ?R + ?n" "?W < 2 ^ 63"
    and n: "?n \<le> 2 ^ 63" and len: "length (plog s) = ?W"
    and si: "slots_inv ?n ?R ?W (sqn ?m) (dat ?m) (plog s) (pcs s)"
    using inv handle_size_bounds by (simp_all add: cinv_def Let_def)
  have no: "powner (pcs s t) = None" "cowner (pcs s t) = None" for t
    using idle [of t] by (cases "pcs s t"; simp)+
  have rl: "ring_len ?m = ?W - ?R" using W by (simp add: ring_len_def unat_sub word_le_nat_alt)
  have pos: "unat (rg_r ?m + of_nat j) = ?R + j" if "j < ?n" for j
    using that W n by (simp add: unat_word_ariths unat_of_nat)
  have sq: "unat (slot_seq h (rg_r ?m + of_nat j) ?m) = ?R + j + (if j < ?W - ?R then 1 else 0)"
    and dt: "j < ?W - ?R \<Longrightarrow> slot_data h (rg_r ?m + of_nat j) ?m = plog s ! (?R + j)"
    if "j < ?n" for j
    using quiescent_slot [OF si no W(1,2), of "?R + j"] that
    by (auto simp: slot_views [OF ok(1)] pos [OF that])
  have "slot_seq h (rg_r ?m + of_nat j) ?m = rg_r ?m + of_nat j + (if j < ring_len ?m then 1 else 0)"
    if "j < ?n" for j
    using sq [OF that] pos [OF that] unat_Suc_word [of "rg_r ?m + of_nat j"] W that
    by (auto simp: word_unat_eq_iff rl)
  then show "ring_inv h ?m" using ok W by (simp add: ring_inv_def rl)
  show "ring_abs h ?m = drop ?R (plog s)"
    using W len dt by (intro nth_equalityI) (auto simp: ring_abs_def rl)
qed

section \<open>Properties of concurrent runs\<close>

definition wit_m0 :: "nat mring" where
  "wit_m0 = wit_ring\<lparr>rg_r := 0, rg_w := 0, slots := [\<lparr>seq = 0, edata = 0\<rparr>, \<lparr>seq = 1, edata = 0\<rparr>]\<rparr>"

lemma formatted_wit: "formatted wit_h wit_m0"
  by code_simp

text \<open>
  A schedule for the witnesses: thread 0 claims a slot and loses the processor before it
  publishes; thread 1 loses the race for that position, claims the next one and publishes it.
\<close>

definition wit_sched :: "(nat \<times> nat act) list" where
  "wit_sched = [(0, StartEnq 10), (1, StartEnq 20), (0, Go), (1, Go), (0, Go), (1, Go),
     (0, Go), (1, Go), (1, Go), (1, Go), (1, Go), (1, Go), (1, Go)]"

definition wit_state :: "nat cstate" where
  "wit_state = the (crun wit_h wit_sched (cinit wit_m0))"

lemma wit_run: "crun wit_h wit_sched (cinit wit_m0) = Some wit_state"
proof -
  have "crun wit_h wit_sched (cinit wit_m0) \<noteq> None" by code_simp
  then show ?thesis by (auto simp: wit_state_def)
qed

lemma wit_reach: "creach wit_h wit_m0 wit_state"
proof -
  have "length (plog wit_state) = 2" by code_simp
  then show ?thesis using crun_creach [OF wit_run creach.init] by simp
qed

text \<open>
  C2: Exclusive access. In every interleaving of producers and consumers on a freshly formatted
  ring, a slot is accessed by at most one thread between its claim and its completion: two
  threads never own the same slot, whether as producers, as consumers, or one of each.
\<close>

theorem slot_mutual_exclusion:
  assumes "formatted h m" "creach h m s" "t \<noteq> t'" "slot_owned h (pcs s t) = Some i"
  shows "slot_owned h (pcs s t') \<noteq> Some i"
  using creach_cinv [OF assms(2,1)] owners_disjoint assms(3,4) by blast

theorem slot_mutual_exclusion_witness: "slot_owned wit_h (pcs wit_state 1) \<noteq> Some 0"
proof -
  have "slot_owned wit_h (pcs wit_state 0) = Some 0" by code_simp
  then show ?thesis using slot_mutual_exclusion [OF formatted_wit wit_reach, of 0 1 0] by simp
qed

text \<open>
  C1: Delivery. Whatever the interleaving, what a consumer got at a position is what the producer
  of that position enqueued, and no position is consumed twice. Once no thread is inside a slot,
  the positions before the consumer index have all been consumed, and the ring is in the state
  of the sequential invariant and holds exactly the remaining elements in the order of the claims.
\<close>

theorem concurrent_delivery:
  assumes "formatted h m" "creach h m s"
  shows "(\<forall>(p, v) \<in> set (clog s). p < length (plog s) \<and> v = plog s ! p) \<and> distinct (map fst (clog s))
     \<and> ((\<forall>t. slot_owned h (pcs s t) = None) \<longrightarrow>
          ring_inv h (cm s) \<and> ring_abs h (cm s) = drop (unat (rg_r (cm s))) (plog s)
          \<and> fst ` set (clog s) = {0..<unat (rg_r (cm s))})"
proof -
  have inv: "cinv h s" using creach_cinv assms by blast
  then have log: "log_inv (unat (rg_r (cm s))) (plog s) (clog s) (pcs s)"
    and dn: "done_inv (unat (rg_r (cm s))) (clog s) (pcs s)"
    and len: "unat (rg_r (cm s)) \<le> length (plog s)"
    by (simp_all add: cinv_def Let_def)
  have "fst ` set (clog s) = {0..<unat (rg_r (cm s))}" if "\<And>t. slot_owned h (pcs s t) = None"
  proof -
    have "cowner (pcs s t) = None" for t using that [of t] by (cases "pcs s t") auto
    then show ?thesis using log dn by (fastforce simp: log_inv_def done_inv_def)
  qed
  then show ?thesis using log len cinv_quiescent [OF inv] by (fastforce simp: log_inv_def)
qed

theorem concurrent_delivery_witness:
  "distinct (map fst (clog wit_state)) \<and> plog wit_state = [10, 20]"
proof -
  have "plog wit_state = [10, 20]" by code_simp
  then show ?thesis using concurrent_delivery [OF formatted_wit wit_reach] by simp
qed

text \<open>
  Stale slot values. Committing (releasing) a position that was claimed and is no longer held
  by its producer (consumer) fails, changes nothing and wakes no one.
\<close>

theorem stale_completion_harmless:
  assumes "formatted h m" "creach h m s"
  shows "(p < rg_w (cm s) \<and> (\<forall>t. powner (pcs s t) \<noteq> Some (unat p)) \<longrightarrow>
            publishSlot h p (cm s) = (False, cm s, []))
       \<and> (p < rg_r (cm s) \<and> (\<forall>t. cowner (pcs s t) \<noteq> Some (unat p)) \<longrightarrow>
            releaseSlot h p (cm s) = (False, cm s, []))"
proof -
  have inv: "cinv h s" using creach_cinv assms by blast
  let ?n = "unat (h_size h)"
  have ok: "handle_ok h" and W: "unat (rg_w (cm s)) < 2 ^ 63" "unat (rg_r (cm s)) \<le> unat (rg_w (cm s))"
    and si: "slots_inv ?n (unat (rg_r (cm s))) (unat (rg_w (cm s))) (sqn (cm s)) (dat (cm s)) (plog s) (pcs s)"
    using inv by (simp_all add: cinv_def Let_def)
  have "slot_seq h p (cm s) \<noteq> p"
    if "p < rg_w (cm s)" "\<forall>t. powner (pcs s t) \<noteq> Some (unat p)"
    using that si slot_views(1) [OF ok, of p "cm s"] unfolding slots_inv_def word_less_nat_alt by metis
  moreover have "slot_seq h p (cm s) \<noteq> p + 1"
    if "p < rg_r (cm s)" "\<forall>t. cowner (pcs s t) \<noteq> Some (unat p)"
  proof -
    have "unat (p + 1) = Suc (unat p)" using that W by (intro unat_Suc_word) (simp add: word_less_nat_alt)
    then show ?thesis
      using that si slot_views(1) [OF ok, of p "cm s"] unfolding slots_inv_def word_less_nat_alt by metis
  qed
  ultimately show ?thesis by (auto simp: publishSlot_def releaseSlot_def)
qed

theorem stale_completion_harmless_witness:
  "publishSlot wit_h 1 (cm wit_state) = (False, cm wit_state, [])"
proof -
  have w: "rg_w (cm wit_state) = 2" and p0: "powner (pcs wit_state 0) = Some 0"
    and idle: "powner (pcs wit_state 1) = None" by code_simp+
  have "powner (pcs wit_state t) \<noteq> Some 1" for t
  proof (cases "t < 2")
    case True
    then show ?thesis using p0 idle by (cases "t = 0") (auto simp: less_2_cases_iff)
  next
    case False
    then have "pcs wit_state t = Idle"
      using crun_other [OF wit_run, of t] by (auto simp: wit_sched_def cinit_def)
    then show ?thesis by simp
  qed
  then show ?thesis
    using stale_completion_harmless [OF formatted_wit wit_reach, of 1] w by simp
qed

end
