(* ===== verification/Mpmc_Wait.thy ===== *)
theory Mpmc_Wait
  imports Mpmc_Ring
begin

text \<open>
  One backoff step of a blocked ring operation (\<^verbatim>\<open>waiter.wait\<close> and what it calls,
  \<^verbatim>\<open>src/internal/mpmc/mpmc.go\<close>). What the step reads from outside is an observation: the
  state of the context and of the \<^verbatim>\<open>Closed\<close> channel, the clock, the values of the callbacks,
  and the slot sequence at each re-read. The outcome says how the step ended: with an
  error, at once, by yielding, by sleeping or by parking for some time. Times are
  nanoseconds since the first instant; the zero \<^verbatim>\<open>time.Time\<close> is \<open>None\<close>.
\<close>

definition spinIterations :: nat where [hqq_consts]: "spinIterations = 256"
definition spinBatch :: nat where [hqq_consts]: "spinBatch = 4"
definition pollEvery :: nat where [hqq_consts]: "pollEvery = 8"
definition yieldIterations :: nat where [hqq_consts]: "yieldIterations = 256"
definition maxPark :: int where [hqq_consts]: "maxPark = 100000000"
definition checkInterval :: int where [hqq_consts]: "checkInterval = 50000000"
definition minSleep :: int where [hqq_consts]: "minSleep = 20000"
definition maxSleep :: int where [hqq_consts]: "maxSleep = 2000000"

datatype 'e werr = ErrCanceled | ErrClosed | ErrTimeout | ErrCheck 'e

text \<open>\<^verbatim>\<open>Cancel\<close>: which sources are set. A nil \<^verbatim>\<open>*Cancel\<close> is \<open>None\<close>.\<close>

record Cancel =
  c_ctx :: bool            \<comment> \<open>a context that can be done\<close>
  c_closed :: bool
  c_deadline :: "int option"
  c_noWait :: bool
  c_deadlineFunc :: bool
  c_check :: bool

record 'e obs =
  o_ctxDone :: bool
  o_closed :: bool
  o_deadlineFunc :: "int option"
  o_check :: "'e option"
  o_now :: int
  o_seqs :: "u64 list"

text \<open>The per-call state (\<^verbatim>\<open>waiter\<close>) that the backoff reads and changes.\<close>

record waiter =
  w_iter :: nat
  w_nextCheck :: "int option"
  w_sleep :: int

definition zeroWaiter :: waiter where
  "zeroWaiter = \<lparr>w_iter = 0, w_nextCheck = None, w_sleep = 0\<rparr>"

datatype 'e wait_out = WErr "'e werr" | WRetry | WYield | WSleep int | WPark int

definition deadline :: "Cancel \<Rightarrow> 'e obs \<Rightarrow> int option" where
  "deadline c ob =
     (if c_deadlineFunc c then
        (case o_deadlineFunc ob of
           None \<Rightarrow> c_deadline c
         | Some f \<Rightarrow> (case c_deadline c of None \<Rightarrow> Some f | Some d \<Rightarrow> if f < d then Some f else Some d))
      else c_deadline c)"

definition poll :: "Cancel option \<Rightarrow> 'e obs \<Rightarrow> 'e werr option" where
  "poll c ob =
     (case c of None \<Rightarrow> None
      | Some c \<Rightarrow>
          if c_ctx c \<and> o_ctxDone ob then Some ErrCanceled
          else if c_closed c \<and> o_closed ob then Some ErrClosed
          else None)"

definition slowChecks :: "Cancel option \<Rightarrow> 'e obs \<Rightarrow> waiter \<Rightarrow> 'e werr option \<times> waiter" where
  "slowChecks c ob w =
     (case c of None \<Rightarrow> (None, w)
      | Some c \<Rightarrow>
          if (case deadline c ob of None \<Rightarrow> False | Some d \<Rightarrow> \<not> o_now ob < d) then (Some ErrTimeout, w)
          else if c_check c \<and>
               (case w_nextCheck w of None \<Rightarrow> True | Some t \<Rightarrow> \<not> o_now ob < t) then
            (map_option ErrCheck (o_check ob), w\<lparr>w_nextCheck := Some (o_now ob + checkInterval)\<rparr>)
          else (None, w))"

definition stillBlocked :: "u64 \<Rightarrow> u64 \<Rightarrow> bool" where
  "stillBlocked sq target \<longleftrightarrow> sint (sq - target) < 0"

text \<open>The park timeout: at most \<open>maxPark\<close>, not beyond the deadline or the next check.\<close>

definition parkTimeout :: "Cancel option \<Rightarrow> 'e obs \<Rightarrow> waiter \<Rightarrow> int" where
  "parkTimeout c ob w =
     (case c of None \<Rightarrow> maxPark
      | Some c \<Rightarrow>
          (let t1 = (case deadline c ob of None \<Rightarrow> maxPark
                     | Some d \<Rightarrow> if d - o_now ob < maxPark then d - o_now ob else maxPark) in
           if c_check c then
             (case w_nextCheck w of None \<Rightarrow> - (2 ^ 63)  \<comment> \<open>the zero time is in the remote past\<close>
              | Some t \<Rightarrow> if t - o_now ob < t1 then t - o_now ob else t1)
           else t1))"

text \<open>The two halves of a step: the cancellation poll at its start, and the backoff proper.\<close>

definition wait_poll :: "WaitPolicy \<Rightarrow> Cancel option \<Rightarrow> 'e obs \<Rightarrow> waiter \<Rightarrow> 'e werr option" where
  "wait_poll policy c ob w =
     (if \<not> (policy = WaitSpin \<or> w_iter w < spinIterations) \<or> w_iter w mod pollEvery = 0 then
        (case poll c ob of
           Some e \<Rightarrow> Some e
         | None \<Rightarrow> (case c of Some c' \<Rightarrow> if c_noWait c' then Some ErrTimeout else None
                    | None \<Rightarrow> None))
      else None)"

text \<open>
  \<open>cross\<close> tells whether the platform (or a \<^verbatim>\<open>Parker\<close>) wakes across processes, \<open>local\<close> whether
  it wakes at least within the process.
\<close>

definition wait_park :: "bool \<Rightarrow> bool \<Rightarrow> Cancel option \<Rightarrow> 'e obs \<Rightarrow> waiter \<Rightarrow> 'e wait_out \<times> waiter" where
  "wait_park cross local c ob w =
     (let timeout = parkTimeout c ob w in
      if timeout \<le> 0 then (WRetry, w)
      else if \<not> cross then
        (let sl = (if w_sleep w = 0 then minSleep
                   else if w_sleep w * 2 > maxSleep then maxSleep else w_sleep w * 2);
             w' = w\<lparr>w_sleep := sl\<rparr> in
         if \<not> local then (WSleep (min sl timeout), w') else (WPark (min sl timeout), w'))
      else (WPark timeout, w))"

definition wait_backoff ::
    "bool \<Rightarrow> bool \<Rightarrow> WaitPolicy \<Rightarrow> Cancel option \<Rightarrow> 'e obs \<Rightarrow> u64 \<Rightarrow> bool \<Rightarrow> waiter
       \<Rightarrow> 'e wait_out \<times> waiter" where
  "wait_backoff cross local policy c ob target spinning w =
     (if spinning \<and> (\<exists>sq \<in> set (take spinBatch (o_seqs ob)). \<not> stillBlocked sq target) then (WRetry, w)
      else if policy = WaitSpin then
        (if w_iter w mod 64 = 0 then
           (case slowChecks c ob w of
              (Some e, w') \<Rightarrow> (WErr e, w') | (None, w') \<Rightarrow> (WYield, w'))
         else (WRetry, w))
      else if spinning then (WRetry, w)
      else if w_iter w \<le> spinIterations + yieldIterations then
        (if w_iter w mod 16 = 0 then
           (case slowChecks c ob w of
              (Some e, w') \<Rightarrow> (WErr e, w') | (None, w') \<Rightarrow> (WYield, w'))
         else (WYield, w))
      else
        (case slowChecks c ob w of
           (Some e, w') \<Rightarrow> (WErr e, w') | (None, w') \<Rightarrow> wait_park cross local c ob w'))"

definition wait ::
    "bool \<Rightarrow> bool \<Rightarrow> WaitPolicy \<Rightarrow> Cancel option \<Rightarrow> 'e obs \<Rightarrow> u64 \<Rightarrow> waiter
       \<Rightarrow> 'e wait_out \<times> waiter" where
  "wait cross local policy c ob target w =
     (case wait_poll policy c ob w of
        Some e \<Rightarrow> (WErr e, w)
      | None \<Rightarrow> wait_backoff cross local policy c ob target
          (policy = WaitSpin \<or> w_iter w < spinIterations) (w\<lparr>w_iter := Suc (w_iter w)\<rparr>))"

text \<open>
  The waits of one blocked call, one observation each, until one ends with an error:
  the error and the number of waits made before it, or \<open>None\<close> while the call goes on.
\<close>

fun waits ::
    "bool \<Rightarrow> bool \<Rightarrow> WaitPolicy \<Rightarrow> Cancel option \<Rightarrow> u64 \<Rightarrow> 'e obs list \<Rightarrow> waiter
       \<Rightarrow> ('e werr \<times> nat) option" where
  "waits cross local policy c target [] w = None"
| "waits cross local policy c target (ob # obs) w =
     (case wait cross local policy c ob target w of
        (WErr e, _) \<Rightarrow> Some (e, 0)
      | (_, w') \<Rightarrow> map_option (apsnd Suc) (waits cross local policy c target obs w'))"

section \<open>Properties of waiting\<close>

lemma slowChecks_frame: "snd (slowChecks c ob w) = w\<lparr>w_nextCheck := w_nextCheck (snd (slowChecks c ob w))\<rparr>"
  by (simp add: slowChecks_def split: option.split)

lemma slowChecks_iter [simp]:
  "slowChecks c ob w = (e, w') \<Longrightarrow> w_iter w' = w_iter w \<and> w_sleep w' = w_sleep w"
  using slowChecks_frame [of c ob w] by (metis snd_conv waiter.select_convs(1,3) waiter.surjective
      waiter.update_convs(2))

lemma wait_park_iter: "wait_park cross local c ob w = (r, w') \<Longrightarrow> w_iter w' = w_iter w \<and> (\<forall>e. r \<noteq> WErr e)"
  by (auto simp: wait_park_def Let_def split: if_splits)

lemma wait_backoff_iter:
  "wait_backoff cross local policy c ob target sp w = (r, w') \<Longrightarrow> w_iter w' = w_iter w"
  by (auto simp: wait_backoff_def dest: slowChecks_iter wait_park_iter
      split: option.splits if_splits prod.splits)

lemma wait_iter: "wait cross local policy c ob target w = (r, w') \<Longrightarrow> \<forall>e. r \<noteq> WErr e \<Longrightarrow>
   w_iter w' = Suc (w_iter w)"
  by (auto simp: wait_def dest: wait_backoff_iter split: option.splits)

text \<open>If the step at iteration \<open>w_iter w + j\<close> must end with an error, the call ends by then.\<close>

lemma waits_within:
  assumes due: "\<And>w ob. ob \<in> set obs \<Longrightarrow> D (w_iter w) \<Longrightarrow>
      \<exists>e. fst (wait cross local policy c ob target w) = WErr e"
    and "D (w_iter w + j)" "j < length obs"
  shows "\<exists>e k. waits cross local policy c target obs w = Some (e, k) \<and> k \<le> j"
  using assms
proof (induction obs arbitrary: w j)
  case (Cons ob obs)
  obtain r w' where wt: "wait cross local policy c ob target w = (r, w')" by fastforce
  show ?case
  proof (cases "\<exists>e. r = WErr e")
    case True
    then show ?thesis using wt by auto
  next
    case False
    then have "\<not> D (w_iter w)" using Cons.prems(1) [of ob w] wt by auto
    then have "j \<noteq> 0" using Cons.prems(2) by (cases j) auto
    then obtain i where i: "j = Suc i" by (cases j) auto
    have "w_iter w' = Suc (w_iter w)" using wait_iter [OF wt] False by blast
    then have "D (w_iter w' + i)" using Cons.prems(2) i by simp
    then have "\<exists>e k. waits cross local policy c target obs w' = Some (e, k) \<and> k \<le> i"
      using Cons.prems(1,3) i by (intro Cons.IH) auto
    then show ?thesis using wt False i by (cases r) auto
  qed
qed simp

lemma poll_due:
  assumes "c_ctx c" "o_ctxDone ob \<or> c_noWait c" "w_iter w mod pollEvery = 0"
  shows "\<exists>e. fst (wait cross local policy (Some c) ob target w) = WErr e"
proof -
  have "wait_poll policy (Some c) ob w \<noteq> None" using assms by (auto simp: wait_poll_def poll_def)
  then show ?thesis by (auto simp: wait_def)
qed

lemma deadline_due:
  assumes "deadline c ob = Some d" "d \<le> o_now ob" "\<forall>sq \<in> set (o_seqs ob). stillBlocked sq target"
    and "policy = WaitSpin \<and> Suc (w_iter w) mod 64 = 0 \<or>
         policy = WaitAdaptive \<and> spinIterations \<le> w_iter w
           \<and> (Suc (w_iter w) mod 16 = 0 \<or> spinIterations + yieldIterations \<le> w_iter w)"
  shows "\<exists>e. fst (wait cross local policy (Some c) ob target w) = WErr e"
proof -
  have "slowChecks (Some c) ob x = (Some ErrTimeout, x)" for x
    using assms(1,2) by (simp add: slowChecks_def)
  moreover have "\<not> (\<exists>sq \<in> set (take spinBatch (o_seqs ob)). \<not> stillBlocked sq target)"
    using assms(3) by (auto dest: in_set_takeD)
  ultimately have sl: "\<And>x. slowChecks (Some c) ob x = (Some ErrTimeout, x)"
      "\<not> (\<exists>sq \<in> set (take spinBatch (o_seqs ob)). \<not> stillBlocked sq target)" by blast+
  have "\<exists>e. fst (wait_backoff cross local policy (Some c) ob target
      (policy = WaitSpin \<or> w_iter w < spinIterations) (w\<lparr>w_iter := Suc (w_iter w)\<rparr>)) = WErr e"
  proof (cases "policy = WaitSpin")
    case True
    then show ?thesis using assms(4) sl by (simp add: wait_backoff_def)
  next
    case False
    then have "\<not> w_iter w < spinIterations"
      "w_iter (w\<lparr>w_iter := Suc (w_iter w)\<rparr>) \<le> spinIterations + yieldIterations \<Longrightarrow> Suc (w_iter w) mod 16 = 0"
      using assms(4) by auto
    then show ?thesis using False sl by (simp add: wait_backoff_def del: One_nat_def)
  qed
  then show ?thesis by (simp add: wait_def split: option.split)
qed

lemma waits_nil: "waits cross local policy None target obs w = None"
proof (induction obs arbitrary: w)
  case (Cons ob obs)
  obtain r w' where wt: "wait cross local policy None ob target w = (r, w')" by fastforce
  then have "r \<noteq> WErr e" for e
    by (auto simp: wait_def wait_poll_def poll_def wait_backoff_def slowChecks_def
        dest: wait_park_iter split: if_splits)
  then show ?case using Cons.IH wt by (cases r) auto
qed simp

lemma waits_canceled:
  assumes "c_ctx c" "\<forall>ob \<in> set obs. o_ctxDone ob" "pollEvery \<le> length obs"
  shows "\<exists>e k. waits cross local policy (Some c) target obs w = Some (e, k) \<and> k < pollEvery"
proof -
  let ?j = "7 * w_iter w mod 8"
  have j: "(w_iter w + ?j) mod pollEvery = 0" "?j < pollEvery"
    by (simp_all add: pollEvery_def mod_add_right_eq)
  have "\<exists>e k. waits cross local policy (Some c) target obs w = Some (e, k) \<and> k \<le> ?j"
  proof (rule waits_within [where D = "\<lambda>i. i mod pollEvery = 0"])
    show "\<exists>e. fst (wait cross local policy (Some c) ob target w) = WErr e"
      if "ob \<in> set obs" "w_iter w mod pollEvery = 0" for w ob
      using assms that by (intro poll_due) auto
    show "(w_iter w + ?j) mod pollEvery = 0" by (rule j)
    show "?j < length obs" using j(2) assms(3) by linarith
  qed
  then show ?thesis using j(2) by (meson le_less_trans)
qed

lemma waits_noWait:
  assumes "c_noWait c" "obs \<noteq> []"
  shows "\<exists>e. waits cross local policy (Some c) target obs zeroWaiter = Some (e, 0)"
proof -
  obtain ob obs' where obs: "obs = ob # obs'" using assms(2) by (cases obs) auto
  obtain r w' where wt: "wait cross local policy (Some c) ob target zeroWaiter = (r, w')" by fastforce
  then have "\<exists>e. r = WErr e"
    using assms(1) by (auto simp: wait_def wait_poll_def zeroWaiter_def split: option.splits)
  then show ?thesis using wt by (auto simp: obs)
qed

text \<open>How many steps a call makes at most once its deadline has passed, from the state of its waiter.\<close>

definition deadlineSteps :: "WaitPolicy \<Rightarrow> waiter \<Rightarrow> nat" where
  "deadlineSteps policy w =
     (if policy = WaitSpin then 64
      else if w_iter w < spinIterations then spinIterations + 16 - w_iter w
      else if w_iter w < spinIterations + yieldIterations then 16 else 1)"

lemma next_multiple: "\<exists>j < n. Suc (i + j) mod n = 0" if "0 < (n::nat)"
proof (intro exI conjI)
  show "n - 1 - i mod n < n" using that by simp
  have "i mod n < n" using that by simp
  then have "Suc (i + (n - 1 - i mod n)) = n * (i div n) + n" using mult_div_mod_eq [of n i] by linarith
  then show "Suc (i + (n - 1 - i mod n)) mod n = 0" by simp
qed

lemma waits_deadline:
  assumes "\<forall>ob \<in> set obs. (\<exists>d. deadline c ob = Some d \<and> d \<le> o_now ob)
      \<and> (\<forall>sq \<in> set (o_seqs ob). stillBlocked sq target)" "deadlineSteps policy w \<le> length obs"
  shows "\<exists>e k. waits cross local policy (Some c) target obs w = Some (e, k) \<and> k < deadlineSteps policy w"
proof -
  define D where "D i \<longleftrightarrow> policy = WaitSpin \<and> Suc i mod 64 = 0 \<or>
      policy = WaitAdaptive \<and> spinIterations \<le> i
        \<and> (Suc i mod 16 = 0 \<or> spinIterations + yieldIterations \<le> i)" for i
  have due: "\<exists>e. fst (wait cross local policy (Some c) ob target w) = WErr e"
    if ob: "ob \<in> set obs" and Dw: "D (w_iter w)" for w ob
  proof -
    obtain d where d: "deadline c ob = Some d" "d \<le> o_now ob"
        "\<forall>sq \<in> set (o_seqs ob). stillBlocked sq target"
      using bspec [OF assms(1) ob] by blast
    show ?thesis by (rule deadline_due [OF d Dw [unfolded D_def]])
  qed
  have "\<exists>j < deadlineSteps policy w. D (w_iter w + j)"
  proof (cases policy)
    case WaitSpin
    then show ?thesis using next_multiple [of 64 "w_iter w"] by (simp add: D_def deadlineSteps_def)
  next
    case WaitAdaptive
    consider "w_iter w < spinIterations" | "spinIterations \<le> w_iter w" "w_iter w < spinIterations + yieldIterations"
      | "spinIterations + yieldIterations \<le> w_iter w" by linarith
    then show ?thesis
    proof cases
      case 1
      then have "D (w_iter w + (spinIterations + 15 - w_iter w))"
        using WaitAdaptive by (simp add: D_def spinIterations_def)
      moreover have "spinIterations + 15 - w_iter w < deadlineSteps policy w"
        using 1 WaitAdaptive by (simp add: deadlineSteps_def)
      ultimately show ?thesis by blast
    next
      case 2
      obtain j where "j < 16" "Suc (w_iter w + j) mod 16 = 0" using next_multiple [of 16 "w_iter w"] by auto
      then show ?thesis using 2 WaitAdaptive by (auto simp: D_def deadlineSteps_def)
    next
      case 3
      then show ?thesis using WaitAdaptive by (auto simp: D_def deadlineSteps_def)
    qed
  qed
  then obtain j where j: "j < deadlineSteps policy w" "D (w_iter w + j)" by blast
  then have "\<exists>e k. waits cross local policy (Some c) target obs w = Some (e, k) \<and> k \<le> j"
    using waits_within [of obs D cross local policy "Some c" target w j] due assms(2) by auto
  then show ?thesis using j(1) by (meson le_less_trans)
qed

text \<open>Whatever happened before: the waits so far end the call, or it goes on from some waiter.\<close>

lemma waits_append:
  "(\<exists>e k. waits cross local policy c target (pre @ post) w = Some (e, k) \<and> k < length pre) \<or>
   (\<exists>w'. w_iter w' = w_iter w + length pre \<and> waits cross local policy c target (pre @ post) w
      = map_option (apsnd ((+) (length pre))) (waits cross local policy c target post w'))"
proof (induction pre arbitrary: w)
  case Nil
  show ?case by (intro disjI2 exI [of _ w]) (cases "waits cross local policy c target post w"; auto)
next
  case (Cons ob pre)
  obtain r w1 where wt: "wait cross local policy c ob target w = (r, w1)" by fastforce
  show ?case
  proof (cases "\<exists>e. r = WErr e")
    case True
    then show ?thesis using wt by auto
  next
    case False
    then have iter: "w_iter w1 = Suc (w_iter w)" using wait_iter [OF wt] by blast
    have step: "waits cross local policy c target ((ob # pre) @ post) w
        = map_option (apsnd Suc) (waits cross local policy c target (pre @ post) w1)"
      using wt False by (cases r) auto
    from Cons.IH [of w1] show ?thesis
    proof
      assume "\<exists>e k. waits cross local policy c target (pre @ post) w1 = Some (e, k) \<and> k < length pre"
      then show ?thesis using step by auto
    next
      assume "\<exists>w'. w_iter w' = w_iter w1 + length pre \<and> waits cross local policy c target (pre @ post) w1
          = map_option (apsnd ((+) (length pre))) (waits cross local policy c target post w')"
      then obtain w' where w': "w_iter w' = w_iter w1 + length pre"
        "waits cross local policy c target (pre @ post) w1
          = map_option (apsnd ((+) (length pre))) (waits cross local policy c target post w')" by blast
      have "waits cross local policy c target ((ob # pre) @ post) w
          = map_option (apsnd ((+) (length (ob # pre)))) (waits cross local policy c target post w')"
        unfolding step w'(2) by (cases "waits cross local policy c target post w'") auto
      moreover have "w_iter w' = w_iter w + length (ob # pre)" using w'(1) iter by simp
      ultimately show ?thesis by blast
    qed
  qed
qed

text \<open>A time-out is never reported early.\<close>

lemma backoff_error:
  assumes "fst (wait_backoff cross local policy c ob target sp w) = WErr e"
  shows "\<exists>w'. slowChecks c ob w = (Some e, w')"
proof -
  obtain er w' where sc: "slowChecks c ob w = (er, w')" by fastforce
  have park: "fst (wait_park cross local c ob w') \<noteq> WErr e"
    using wait_park_iter [of cross local c ob w'] by (metis prod.collapse)
  show ?thesis
  proof (cases er)
    case None then show ?thesis using assms park sc by (simp add: wait_backoff_def split: if_splits)
  next
    case (Some e') then show ?thesis using assms sc by (simp add: wait_backoff_def split: if_splits)
  qed
qed

lemma slowChecks_timeout:
  assumes "slowChecks (Some c) ob w = (Some ErrTimeout, w')"
  shows "\<exists>d. deadline c ob = Some d \<and> d \<le> o_now ob"
proof (rule ccontr)
  assume "\<not> ?thesis"
  then have "\<not> (case deadline c ob of None \<Rightarrow> False | Some d \<Rightarrow> \<not> o_now ob < d)" by (simp add: not_less split: option.split)
  then show False using assms by (cases "o_check ob") (simp_all add: slowChecks_def split: if_splits)
qed

lemma wait_timeout:
  assumes "fst (wait cross local policy (Some c) ob target w) = WErr ErrTimeout" "\<not> c_noWait c"
  shows "\<exists>d. deadline c ob = Some d \<and> d \<le> o_now ob"
proof (cases "wait_poll policy (Some c) ob w")
  case None
  then show ?thesis using assms(1) backoff_error slowChecks_timeout by (fastforce simp: wait_def)
next
  case (Some e)
  then have "e \<noteq> ErrTimeout" using assms(2) by (auto simp: wait_poll_def poll_def split: if_splits)
  then show ?thesis using Some assms(1) by (simp add: wait_def)
qed

lemma waits_timeout:
  assumes "waits cross local policy (Some c) target obs w = Some (ErrTimeout, k)" "\<not> c_noWait c"
  shows "k < length obs \<and> (\<exists>d. deadline c (obs ! k) = Some d \<and> d \<le> o_now (obs ! k))"
  using assms
proof (induction obs arbitrary: w k)
  case (Cons ob obs)
  obtain r w1 where wt: "wait cross local policy (Some c) ob target w = (r, w1)" by fastforce
  show ?case
  proof (cases "\<exists>e. r = WErr e")
    case True
    then have "r = WErr ErrTimeout" "k = 0" using wt Cons.prems(1) by auto
    then show ?thesis using wait_timeout [of cross local policy c ob target w] wt Cons.prems(2) by simp
  next
    case False
    then obtain k' where "k = Suc k'" "waits cross local policy (Some c) target obs w1 = Some (ErrTimeout, k')"
      using wt Cons.prems(1) by (cases r) auto
    then show ?thesis using Cons.IH Cons.prems(2) by simp
  qed
qed simp

text \<open>
  C27: Bounded reaction, whenever it happens. A nil \<^verbatim>\<open>Cancel\<close> never ends a wait with an error. Let a
  blocked call have made any number of backoff steps, from any state of its waiter. Once its
  context is done, it ends within \<open>pollEvery\<close> further steps (a call with \<^verbatim>\<open>NoWait\<close> ends on its first
  one). Once its deadline has passed and while its slot stays blocked, it ends within 64 further
  steps under \<^verbatim>\<open>WaitSpin\<close>; otherwise within 16 when it has stopped spinning, at once when it is
  parking, and after the rest of its spinning before. A time-out is never reported before the
  deadline has passed.
\<close>

theorem blocked_call_reacts:
  "waits cross local policy None target obs w = None
   \<and> (c_ctx c \<and> (\<forall>ob \<in> set post. o_ctxDone ob) \<and> pollEvery \<le> length post \<longrightarrow>
        (\<exists>e k. waits cross local policy (Some c) target (pre @ post) w = Some (e, k) \<and> k < length pre + pollEvery))
   \<and> (c_noWait c \<and> obs \<noteq> [] \<longrightarrow>
        (\<exists>e. waits cross local policy (Some c) target obs zeroWaiter = Some (e, 0)))
   \<and> ((\<forall>ob \<in> set post. (\<exists>d. deadline c ob = Some d \<and> d \<le> o_now ob)
          \<and> (\<forall>sq \<in> set (o_seqs ob). stillBlocked sq target))
        \<and> deadlineSteps policy (w\<lparr>w_iter := w_iter w + length pre\<rparr>) \<le> length post \<longrightarrow>
        (\<exists>e k. waits cross local policy (Some c) target (pre @ post) w = Some (e, k)
           \<and> k < length pre + deadlineSteps policy (w\<lparr>w_iter := w_iter w + length pre\<rparr>)))
   \<and> (\<forall>k. \<not> c_noWait c \<and> waits cross local policy (Some c) target obs w = Some (ErrTimeout, k) \<longrightarrow>
        k < length obs \<and> (\<exists>d. deadline c (obs ! k) = Some d \<and> d \<le> o_now (obs ! k)))"
proof (intro conjI impI allI, goal_cases)
  case 1 show ?case by (rule waits_nil)
next
  case 2
  have post: "\<exists>e k. waits cross local policy (Some c) target post w' = Some (e, k) \<and> k < pollEvery" for w'
    using 2 by (intro waits_canceled) auto
  from waits_append [of cross local policy "Some c" target pre post w] show ?case
  proof (elim disjE exE conjE)
    fix w' assume "waits cross local policy (Some c) target (pre @ post) w
        = map_option (apsnd ((+) (length pre))) (waits cross local policy (Some c) target post w')"
    then show ?thesis using post [of w'] by auto
  qed auto
next
  case 3 then show ?case by (intro waits_noWait) auto
next
  case 4
  from waits_append [of cross local policy "Some c" target pre post w] show ?case
  proof (elim disjE exE conjE)
    fix w' assume w': "w_iter w' = w_iter w + length pre" "waits cross local policy (Some c) target (pre @ post) w
        = map_option (apsnd ((+) (length pre))) (waits cross local policy (Some c) target post w')"
    have "deadlineSteps policy w' = deadlineSteps policy (w\<lparr>w_iter := w_iter w + length pre\<rparr>)"
      using w'(1) by (simp add: deadlineSteps_def)
    then show ?thesis using waits_deadline [of post c target policy w' cross local] w'(2) 4 by auto
  qed auto
next
  case (5 k) then show ?case using waits_timeout [of cross local policy c target obs w k] by blast
next
  case (6 k) then show ?case using waits_timeout [of cross local policy c target obs w k] by blast
qed

definition wit_obs :: "unit obs" where
  "wit_obs = \<lparr>o_ctxDone = True, o_closed = False, o_deadlineFunc = None, o_check = None, o_now = 5,
     o_seqs = [0, 0, 0, 0]\<rparr>"

definition wit_cancel :: Cancel where
  "wit_cancel = \<lparr>c_ctx = True, c_closed = False, c_deadline = Some 3, c_noWait = False,
     c_deadlineFunc = False, c_check = False\<rparr>"

text \<open>The context ends after 100 steps; the deadline passes after 300 steps, when the call has stopped spinning.\<close>

theorem blocked_call_reacts_witness:
  "(\<exists>e k. waits True True WaitAdaptive (Some wit_cancel) 1 (replicate 100 (wit_obs\<lparr>o_ctxDone := False, o_now := 1\<rparr>) @ replicate 8 wit_obs) zeroWaiter
        = Some (e, k) \<and> k < 108)
   \<and> (\<exists>e. waits True True WaitAdaptive (Some (wit_cancel\<lparr>c_noWait := True\<rparr>)) 1 [wit_obs] zeroWaiter = Some (e, 0))
   \<and> (\<exists>e k. waits True True WaitAdaptive (Some (wit_cancel\<lparr>c_ctx := False\<rparr>)) 1 (replicate 300 (wit_obs\<lparr>o_now := 1\<rparr>) @ replicate 16 wit_obs) zeroWaiter
        = Some (e, k) \<and> k < 316)"
proof -
  have 1: "\<exists>e k. waits True True WaitAdaptive (Some wit_cancel) 1 (replicate 100 (wit_obs\<lparr>o_ctxDone := False, o_now := 1\<rparr>) @ replicate 8 wit_obs) zeroWaiter
        = Some (e, k) \<and> k < length (replicate 100 (wit_obs\<lparr>o_ctxDone := False, o_now := 1\<rparr>)) + pollEvery"
    by (rule blocked_call_reacts [THEN conjunct2, THEN conjunct1, THEN mp]) (simp add: wit_cancel_def wit_obs_def pollEvery_def)
  have 2: "\<exists>e. waits True True WaitAdaptive (Some (wit_cancel\<lparr>c_noWait := True\<rparr>)) 1 [wit_obs] zeroWaiter = Some (e, 0)"
    by (rule blocked_call_reacts [THEN conjunct2, THEN conjunct2, THEN conjunct1, THEN mp]) simp
  let ?w = "zeroWaiter\<lparr>w_iter := w_iter zeroWaiter + length (replicate 300 (wit_obs\<lparr>o_now := 1\<rparr>))\<rparr>"
  have s: "deadlineSteps WaitAdaptive ?w = 16"
    by (simp add: deadlineSteps_def zeroWaiter_def spinIterations_def yieldIterations_def)
  have "\<exists>e k. waits True True WaitAdaptive (Some (wit_cancel\<lparr>c_ctx := False\<rparr>)) 1 (replicate 300 (wit_obs\<lparr>o_now := 1\<rparr>) @ replicate 16 wit_obs) zeroWaiter
        = Some (e, k) \<and> k < length (replicate 300 (wit_obs\<lparr>o_now := 1\<rparr>)) + deadlineSteps WaitAdaptive ?w"
    by (rule blocked_call_reacts [THEN conjunct2, THEN conjunct2, THEN conjunct2, THEN conjunct1, THEN mp])
      (simp add: wit_cancel_def wit_obs_def deadline_def stillBlocked_def deadlineSteps_def zeroWaiter_def spinIterations_def yieldIterations_def)
  then show ?thesis using 1 2 s by (simp add: pollEvery_def)
qed

lemma slowChecks_deadline:
  assumes "slowChecks (Some c) ob w = (None, w')" "deadline c ob = Some d"
  shows "o_now ob < d"
  using assms by (cases "o_now ob < d") (simp_all add: slowChecks_def)

lemma slowChecks_next:
  assumes sc: "slowChecks (Some c) ob w = (None, w')" and "c_check c"
  shows "\<exists>t. w_nextCheck w' = Some t \<and> o_now ob < t"
proof -
  have "\<not> (case deadline c ob of None \<Rightarrow> False | Some d \<Rightarrow> \<not> o_now ob < d)"
    using slowChecks_deadline [OF sc] by (cases "deadline c ob") auto
  then show ?thesis using assms
    by (cases "w_nextCheck w") (auto simp: slowChecks_def checkInterval_def split: if_splits)
qed

lemma parkTimeout_nil: "0 < parkTimeout None ob w \<and> parkTimeout None ob w \<le> maxPark"
  by (simp add: parkTimeout_def maxPark_def)

lemma parkTimeout_bounds:
  assumes sc: "slowChecks (Some c) ob w = (None, w')"
  shows "0 < parkTimeout (Some c) ob w'" "parkTimeout (Some c) ob w' \<le> maxPark"
    "deadline c ob = Some d \<Longrightarrow> o_now ob + parkTimeout (Some c) ob w' \<le> d"
    "c_check c \<Longrightarrow> w_nextCheck w' = Some t \<Longrightarrow> o_now ob + parkTimeout (Some c) ob w' \<le> t"
proof -
  define t1 where "t1 = (case deadline c ob of None \<Rightarrow> maxPark
      | Some d \<Rightarrow> if d - o_now ob < maxPark then d - o_now ob else maxPark)"
  have t1: "0 < t1" "t1 \<le> maxPark" "\<And>d. deadline c ob = Some d \<Longrightarrow> o_now ob + t1 \<le> d"
    using slowChecks_deadline [OF sc] by (cases "deadline c ob"; simp add: t1_def maxPark_def)+
  have pt: "parkTimeout (Some c) ob w' = (if c_check c then
      (case w_nextCheck w' of None \<Rightarrow> - (2 ^ 63) | Some t \<Rightarrow> if t - o_now ob < t1 then t - o_now ob else t1)
      else t1)"
    unfolding parkTimeout_def t1_def Let_def by simp
  show "0 < parkTimeout (Some c) ob w'" "parkTimeout (Some c) ob w' \<le> maxPark"
    "deadline c ob = Some d \<Longrightarrow> o_now ob + parkTimeout (Some c) ob w' \<le> d"
    "c_check c \<Longrightarrow> w_nextCheck w' = Some t \<Longrightarrow> o_now ob + parkTimeout (Some c) ob w' \<le> t"
    using t1 slowChecks_next [OF sc] by (fastforce simp: pt)+
qed

lemma wait_parks:
  assumes "wait cross local policy c ob target w = (out, w')" "out = WPark t \<or> out = WSleep t"
  shows "\<exists>w2. slowChecks c ob (w\<lparr>w_iter := Suc (w_iter w)\<rparr>) = (None, w2)
    \<and> wait_park cross local c ob w2 = (out, w')"
  using assms by (auto simp: wait_def wait_backoff_def split: option.splits if_splits prod.splits)

text \<open>
  C28: A blocked call never sleeps past what it waits for. Every sleep or park lasts longer than
  zero and at most \<open>maxPark\<close>, ends no later than the deadline, and no later than the next liveness
  check is due.
\<close>

theorem park_bounded:
  assumes "wait cross local policy c ob target w = (out, w')" "out = WPark t \<or> out = WSleep t"
    and "0 \<le> w_sleep w"
  shows "0 < t \<and> t \<le> maxPark
     \<and> (\<forall>c' d. c = Some c' \<and> deadline c' ob = Some d \<longrightarrow> o_now ob + t \<le> d)
     \<and> (\<forall>c'. c = Some c' \<and> c_check c' \<longrightarrow> (\<exists>nc. w_nextCheck w' = Some nc \<and> o_now ob + t \<le> nc))"
proof -
  obtain w2 where sc: "slowChecks c ob (w\<lparr>w_iter := Suc (w_iter w)\<rparr>) = (None, w2)"
    and wp: "wait_park cross local c ob w2 = (out, w')"
    using wait_parks [OF assms(1,2)] by blast
  have "0 \<le> w_sleep w2" using slowChecks_iter [OF sc] assms(3) by simp
  then have t: "0 < t" "t \<le> parkTimeout c ob w2" and nc: "w_nextCheck w' = w_nextCheck w2"
    using wp assms(2) by (auto simp: wait_park_def Let_def minSleep_def maxSleep_def split: if_splits)
  show ?thesis
  proof (cases c)
    case None
    then show ?thesis using t parkTimeout_nil [of ob w2] by simp
  next
    case (Some c')
    note b = parkTimeout_bounds [OF sc [unfolded Some]]
    have "o_now ob + t \<le> d" if "deadline c' ob = Some d" for d using b(3) [OF that] t(2) Some by simp
    moreover have "\<exists>nc. w_nextCheck w' = Some nc \<and> o_now ob + t \<le> nc" if "c_check c'"
      using slowChecks_next [OF sc [unfolded Some] that] b(4) [OF that] t(2) nc Some by fastforce
    ultimately show ?thesis using t b(2) Some by simp
  qed
qed

theorem park_bounded_witness:
  "\<exists>t w'. wait True True WaitAdaptive (Some (wit_cancel\<lparr>c_deadline := Some 9\<rparr>)) (wit_obs\<lparr>o_ctxDone := False\<rparr>) 1
     (zeroWaiter\<lparr>w_iter := 600\<rparr>) = (WPark t, w') \<and> 5 + t \<le> 9"
proof -
  let ?c = "wit_cancel\<lparr>c_deadline := Some 9\<rparr>" and ?o = "wit_obs\<lparr>o_ctxDone := False\<rparr>"
    and ?w = "zeroWaiter\<lparr>w_iter := 600\<rparr>"
  have w: "wait True True WaitAdaptive (Some ?c) ?o 1 ?w = (WPark 4, ?w\<lparr>w_iter := 601\<rparr>)"
    by (simp add: wait_def wait_poll_def poll_def wait_backoff_def wait_park_def slowChecks_def
        parkTimeout_def deadline_def hqq_consts wit_cancel_def wit_obs_def zeroWaiter_def Let_def)
  have "deadline ?c ?o = Some 9" "o_now ?o = 5" "0 \<le> w_sleep ?w"
    by (simp_all add: deadline_def wit_cancel_def wit_obs_def zeroWaiter_def)
  then show ?thesis using park_bounded [OF w, of 4] w by auto
qed

end
