(* ===== verification/Mpmc_Park.thy ===== *)
theory Mpmc_Park
  imports Mpmc_Ring "HOL-Library.Multiset"
begin

text \<open>
  Parking (\<^verbatim>\<open>src/internal/mpmc/waitgroup.go\<close>, \<^verbatim>\<open>waitSite\<close> of \<^verbatim>\<open>mpmc.go\<close>): the groups that let one
  goroutine per process wait in the kernel for all of them, the registry of the groups, and
  the registration protocol between a parked leader and the processes that wake it.
\<close>

section \<open>The waiter group of one wait word\<close>

text \<open>
  \<^verbatim>\<open>parkGroup\<close> together with the follower channels: \<open>g_full\<close> are the channels that hold a
  value, \<open>g_pool\<close> the recycled ones. A section between \<^verbatim>\<open>mu.Lock\<close> and \<^verbatim>\<open>mu.Unlock\<close> is one step.
\<close>

record pgroup =
  g_leader :: bool
  g_wakes :: "nat list"
  g_full :: "nat set"
  g_pool :: "nat set"

definition enter :: "nat \<Rightarrow> pgroup \<Rightarrow> bool \<times> pgroup" where
  "enter wake g =
     (if \<not> g_leader g then (True, g\<lparr>g_leader := True\<rparr>)
      else (False, g\<lparr>g_wakes := g_wakes g @ [wake], g_pool := g_pool g - {wake}\<rparr>))"

definition exitLeader :: "pgroup \<Rightarrow> pgroup" where
  "exitLeader g = g\<lparr>g_leader := False, g_full := g_full g \<union> set (g_wakes g), g_wakes := []\<rparr>"

text \<open>The index of a channel in the list, if it is there.\<close>

fun wake_index :: "nat \<Rightarrow> nat list \<Rightarrow> nat option" where
  "wake_index w [] = None"
| "wake_index w (x # xs) = (if x = w then Some 0 else map_option Suc (wake_index w xs))"

definition leave :: "nat \<Rightarrow> pgroup \<Rightarrow> pgroup" where
  "leave wake g =
     (case wake_index wake (g_wakes g) of
        Some i \<Rightarrow>
          (let ws = g_wakes g in
           g\<lparr>g_wakes := butlast (ws[i := last ws]), g_pool := insert wake (g_pool g)\<rparr>)
      | None \<Rightarrow> g\<lparr>g_full := g_full g - {wake}, g_pool := insert wake (g_pool g)\<rparr>)"

text \<open>
  The goroutines of the process: outside, leading, in the \<^verbatim>\<open>select\<close> of \<^verbatim>\<open>follow\<close>, or past it
  and about to \<^verbatim>\<open>leave\<close>.
\<close>

datatype gstat = Outside | Leading | Following nat | Leaving nat

record gsys =
  s_group :: pgroup
  s_stat :: "nat \<Rightarrow> gstat"

datatype gact = AEnter nat | AExit | ATake | AOther | ALeave

text \<open>A channel for \<^verbatim>\<open>wakeChans.Get\<close> is a pooled one or a new one.\<close>

definition fresh_chan :: "nat \<Rightarrow> gsys \<Rightarrow> bool" where
  "fresh_chan ch s \<longleftrightarrow> ch \<in> g_pool (s_group s) \<or>
     ch \<notin> g_full (s_group s) \<and> ch \<notin> set (g_wakes (s_group s))
       \<and> (\<forall>t. s_stat s t \<noteq> Following ch \<and> s_stat s t \<noteq> Leaving ch)"

inductive gstep :: "nat \<Rightarrow> gact \<Rightarrow> gsys \<Rightarrow> gsys \<Rightarrow> bool" where
  enter: "s_stat s t = Outside \<Longrightarrow> fresh_chan ch s \<Longrightarrow> enter ch (s_group s) = (ld, g') \<Longrightarrow>
    gstep t (AEnter ch) s
      (s\<lparr>s_group := g', s_stat := (s_stat s)(t := if ld then Leading else Following ch)\<rparr>)"
| exit: "s_stat s t = Leading \<Longrightarrow>
    gstep t AExit s (s\<lparr>s_group := exitLeader (s_group s), s_stat := (s_stat s)(t := Outside)\<rparr>)"
| take: "s_stat s t = Following ch \<Longrightarrow> ch \<in> g_full (s_group s) \<Longrightarrow>
    gstep t ATake s (s\<lparr>s_group := (s_group s)\<lparr>g_full := g_full (s_group s) - {ch}\<rparr>,
      s_stat := (s_stat s)(t := Leaving ch)\<rparr>)"
| other: "s_stat s t = Following ch \<Longrightarrow> gstep t AOther s (s\<lparr>s_stat := (s_stat s)(t := Leaving ch)\<rparr>)"
| leave: "s_stat s t = Leaving ch \<Longrightarrow>
    gstep t ALeave s (s\<lparr>s_group := leave ch (s_group s), s_stat := (s_stat s)(t := Outside)\<rparr>)"

definition ginit :: gsys where
  "ginit = \<lparr>s_group = \<lparr>g_leader = False, g_wakes = [], g_full = {}, g_pool = {}\<rparr>, s_stat = (\<lambda>_. Outside)\<rparr>"

inductive greach :: "gsys \<Rightarrow> bool" where
  init: "greach ginit"
| step: "greach s \<Longrightarrow> gstep t a s s' \<Longrightarrow> greach s'"

inductive_cases gstep_cases: "gstep t a s s'"

lemma wake_index_Some: "wake_index w ws = Some i \<Longrightarrow> i < length ws \<and> ws ! i = w"
  by (induction ws arbitrary: i) (auto split: if_splits)

lemma wake_index_None: "wake_index w ws = None \<longleftrightarrow> w \<notin> set ws"
  by (induction ws) auto

text \<open>Replacing an entry by the last one and dropping the last removes exactly that entry.\<close>

lemma mset_swap_remove:
  assumes "i < length ws"
  shows "mset (butlast (ws[i := last ws])) = mset ws - {#ws ! i#}"
proof -
  have "ws \<noteq> []" using assms by auto
  then have l: "last (ws[i := last ws]) = last ws"
    using assms by (cases "i = length ws - 1") (auto simp: last_conv_nth nth_list_update)
  have ne: "ws[i := last ws] \<noteq> []" using \<open>ws \<noteq> []\<close> by simp
  have "mset (ws[i := last ws]) = mset (butlast (ws[i := last ws])) + {#last ws#}"
    using append_butlast_last_id [OF ne] l by (metis mset_append mset_single_iff_right)
  moreover have "mset (ws[i := last ws]) = mset ws - {#ws ! i#} + {#last ws#}"
    using assms by (simp add: mset_update)
  ultimately show ?thesis by simp
qed

lemma leave_wakes:
  assumes "distinct (g_wakes g)"
  shows "set (g_wakes (leave w g)) = set (g_wakes g) - {w}" "distinct (g_wakes (leave w g))"
    "g_leader (leave w g) = g_leader g" "g_full (leave w g) = (if w \<in> set (g_wakes g) then g_full g else g_full g - {w})"
    "g_pool (leave w g) = insert w (g_pool g)"
proof -
  show "g_leader (leave w g) = g_leader g" "g_pool (leave w g) = insert w (g_pool g)"
      "g_full (leave w g) = (if w \<in> set (g_wakes g) then g_full g else g_full g - {w})"
    using wake_index_None [of w "g_wakes g"]
    by (auto simp: leave_def Let_def split: option.split)
  have "set (g_wakes (leave w g)) = set (g_wakes g) - {w} \<and> distinct (g_wakes (leave w g))"
  proof (cases "wake_index w (g_wakes g)")
    case None
    then show ?thesis using assms wake_index_None [of w "g_wakes g"] by (auto simp: leave_def)
  next
    case (Some i)
    then have i: "i < length (g_wakes g)" "g_wakes g ! i = w" using wake_index_Some by auto
    then have m: "mset (g_wakes (leave w g)) = mset (g_wakes g) - {#w#}"
      using mset_swap_remove [OF i(1)] Some by (simp add: leave_def Let_def)
    then have "mset (g_wakes (leave w g)) = mset (remove1 w (g_wakes g))" by simp
    then show ?thesis using assms by (metis distinct_remove1 mset_eq_imp_distinct_iff mset_eq_setD set_remove1_eq)
  qed
  then show "set (g_wakes (leave w g)) = set (g_wakes g) - {w}" "distinct (g_wakes (leave w g))" by auto
qed

text \<open>The channel of a follower, and the invariant of the group.\<close>

fun chan_of :: "gstat \<Rightarrow> nat option" where
  "chan_of (Following ch) = Some ch"
| "chan_of (Leaving ch) = Some ch"
| "chan_of _ = None"

text \<open>The channels in use, and those of the goroutines still in the \<^verbatim>\<open>select\<close>.\<close>

definition used_chans :: "(nat \<Rightarrow> gstat) \<Rightarrow> nat set" where
  "used_chans st = {ch. \<exists>t. chan_of (st t) = Some ch}"

definition following :: "(nat \<Rightarrow> gstat) \<Rightarrow> nat set" where
  "following st = {ch. \<exists>t. st t = Following ch}"

definition chans_distinct :: "(nat \<Rightarrow> gstat) \<Rightarrow> bool" where
  "chans_distinct st \<longleftrightarrow>
     (\<forall>t t' ch. chan_of (st t) = Some ch \<and> chan_of (st t') = Some ch \<longrightarrow> t = t')"

definition one_leader :: "bool \<Rightarrow> (nat \<Rightarrow> gstat) \<Rightarrow> bool" where
  "one_leader ld st \<longleftrightarrow> (ld \<longleftrightarrow> (\<exists>t. st t = Leading))
     \<and> (\<forall>t t'. st t = Leading \<and> st t' = Leading \<longrightarrow> t = t')"

definition ginv :: "gsys \<Rightarrow> bool" where
  "ginv s \<longleftrightarrow>
     (let g = s_group s; st = s_stat s in
      one_leader (g_leader g) st \<and> chans_distinct st \<and> distinct (g_wakes g)
      \<and> g_pool g \<inter> used_chans st = {}
      \<and> set (g_wakes g) \<union> g_full g \<subseteq> used_chans st
      \<and> set (g_wakes g) \<inter> g_full g = {}
      \<and> following st \<subseteq> set (g_wakes g) \<union> g_full g
      \<and> (g_wakes g \<noteq> [] \<longrightarrow> g_leader g))"

lemma used_chans_upd:
  "chan_of (st t) = None \<Longrightarrow> chan_of c = None \<Longrightarrow> used_chans (st(t := c)) = used_chans st"
  "chan_of (st t) = None \<Longrightarrow> chan_of c = Some ch \<Longrightarrow> used_chans (st(t := c)) = insert ch (used_chans st)"
  "chan_of (st t) = Some ch \<Longrightarrow> chan_of c = Some ch \<Longrightarrow> used_chans (st(t := c)) = used_chans st"
  by (auto simp: used_chans_def) (metis option.distinct(1) option.inject)+

lemma used_chans_drop:
  "chans_distinct st \<Longrightarrow> chan_of (st t) = Some ch \<Longrightarrow> chan_of c = None \<Longrightarrow>
   used_chans (st(t := c)) = used_chans st - {ch}"
  by (auto simp: used_chans_def chans_distinct_def) (metis option.inject)

lemma following_upd:
  "st t = Outside \<or> st t = Leading \<Longrightarrow> c = Outside \<or> c = Leading \<Longrightarrow> following (st(t := c)) = following st"
  "st t = Outside \<Longrightarrow> following (st(t := Following ch)) = insert ch (following st)"
  by (auto simp: following_def) (metis gstat.distinct gstat.inject)+

lemma following_drop:
  "chans_distinct st \<Longrightarrow> chan_of (st t) = Some ch \<Longrightarrow> c = Leaving ch \<or> c = Outside \<Longrightarrow>
   following (st(t := c)) = following st - {ch}"
  unfolding following_def chans_distinct_def by (auto split: if_splits) (metis chan_of.simps(1) option.inject)+

lemma chans_distinct_upd:
  "chans_distinct st \<Longrightarrow> chan_of c = None \<or> chan_of c = chan_of (st t) \<Longrightarrow> chans_distinct (st(t := c))"
  "chans_distinct st \<Longrightarrow> chan_of c = Some ch \<Longrightarrow> ch \<notin> used_chans st \<Longrightarrow> chans_distinct (st(t := c))"
  by (auto simp: chans_distinct_def used_chans_def) metis+

lemma one_leader_upd:
  "one_leader ld st \<Longrightarrow> st t \<noteq> Leading \<Longrightarrow> c \<noteq> Leading \<Longrightarrow> one_leader ld (st(t := c))"
  "one_leader False st \<Longrightarrow> one_leader True (st(t := Leading))"
  "one_leader ld st \<Longrightarrow> st t = Leading \<Longrightarrow> c \<noteq> Leading \<Longrightarrow> one_leader False (st(t := c))"
  by (auto simp: one_leader_def)

lemmas group_upds = used_chans_upd used_chans_drop following_upd following_drop chans_distinct_upd one_leader_upd

lemma fresh_chan_unused:
  assumes "ginv s" "fresh_chan ch s"
  shows "ch \<notin> used_chans (s_stat s)"
proof -
  have "chan_of (s_stat s t) \<noteq> Some ch" if "\<forall>t. s_stat s t \<noteq> Following ch \<and> s_stat s t \<noteq> Leaving ch" for t
    using that by (cases "s_stat s t") auto
  then show ?thesis using assms by (auto simp: ginv_def Let_def fresh_chan_def used_chans_def)
qed

lemma ginv_step:
  assumes st: "gstep t a s s'" and inv: "ginv s"
  shows "ginv s'"
  using st
proof cases
  case (enter ch ld g')
  have un: "ch \<notin> used_chans (s_stat s)" using fresh_chan_unused inv enter by blast
  show ?thesis
  proof (cases ld)
    case True
    then show ?thesis using inv enter by (auto simp: ginv_def Let_def enter_def group_upds split: if_splits)
  next
    case False
    then have "g_leader (s_group s)" "g' = (s_group s)\<lparr>g_wakes := g_wakes (s_group s) @ [ch],
        g_pool := g_pool (s_group s) - {ch}\<rparr>"
      using enter by (auto simp: enter_def split: if_splits)
    then show ?thesis using inv enter un False
      by (auto simp: ginv_def Let_def group_upds)
  qed
next
  case exit
  then show ?thesis using inv by (auto simp: ginv_def Let_def exitLeader_def group_upds)
next
  case (take ch)
  then show ?thesis using inv by (auto simp: ginv_def Let_def group_upds)
next
  case (other ch)
  then show ?thesis using inv by (auto simp: ginv_def Let_def group_upds)
next
  case (leave ch)
  have d: "distinct (g_wakes (s_group s))" using inv by (simp add: ginv_def Let_def)
  show ?thesis using inv leave leave_wakes [OF d, of ch] 
    by (auto simp: ginv_def Let_def group_upds)
qed

lemma greach_ginv: "greach s \<Longrightarrow> ginv s"
proof (induction rule: greach.induct)
  case init
  show ?case by (auto simp: ginv_def ginit_def one_leader_def chans_distinct_def used_chans_def following_def)
next
  case (step s t a s')
  then show ?case using ginv_step by blast
qed

section \<open>The registry of the groups\<close>

text \<open>\<^verbatim>\<open>parkGroups\<close>: the live group of every wait word, reference counts, and recycled groups.\<close>

definition maxFreeParkGroups :: nat where [hqq_consts]: "maxFreeParkGroups = 64"

record preg =
  r_m :: "nat \<Rightarrow> nat option"
  r_refs :: "nat \<Rightarrow> nat"
  r_free :: "nat list"
  r_next :: nat

definition acquireParkGroup :: "nat \<Rightarrow> preg \<Rightarrow> nat \<times> preg" where
  "acquireParkGroup word r =
     (case r_m r word of
        Some g \<Rightarrow> (g, r\<lparr>r_refs := (r_refs r)(g := r_refs r g + 1)\<rparr>)
      | None \<Rightarrow>
          if r_free r \<noteq> [] then
            (let g = last (r_free r) in
             (g, r\<lparr>r_free := butlast (r_free r), r_m := (r_m r)(word \<mapsto> g),
                   r_refs := (r_refs r)(g := r_refs r g + 1)\<rparr>))
          else
            (let g = r_next r in
             (g, r\<lparr>r_next := Suc g, r_m := (r_m r)(word \<mapsto> g),
                   r_refs := (r_refs r)(g := r_refs r g + 1)\<rparr>)))"

definition releaseParkGroup :: "nat \<Rightarrow> nat \<Rightarrow> preg \<Rightarrow> preg" where
  "releaseParkGroup word g r =
     (let r1 = r\<lparr>r_refs := (r_refs r)(g := r_refs r g - 1)\<rparr> in
      if r_refs r1 g = 0 then
        r1\<lparr>r_m := (r_m r)(word := None),
           r_free := (if length (r_free r) < maxFreeParkGroups then r_free r @ [g] else r_free r)\<rparr>
      else r1)"

text \<open>The operations in flight hold (word, group) pairs.\<close>

inductive rreach :: "preg \<Rightarrow> (nat \<times> nat) multiset \<Rightarrow> bool" where
  init: "rreach \<lparr>r_m = (\<lambda>_. None), r_refs = (\<lambda>_. 0), r_free = [], r_next = 0\<rparr> {#}"
| acquire: "rreach r H \<Longrightarrow> acquireParkGroup w r = (g, r') \<Longrightarrow> rreach r' (add_mset (w, g) H)"
| release: "rreach r H \<Longrightarrow> (w, g) \<in># H \<Longrightarrow> rreach (releaseParkGroup w g r) (H - {#(w, g)#})"

definition rinv :: "preg \<Rightarrow> (nat \<times> nat) multiset \<Rightarrow> bool" where
  "rinv r H \<longleftrightarrow>
     (\<forall>w g. r_m r w = Some g \<longrightarrow> r_refs r g = count H (w, g) \<and> 0 < r_refs r g \<and> g < r_next r \<and> g \<notin> set (r_free r))
   \<and> (\<forall>w g. (w, g) \<in># H \<longrightarrow> r_m r w = Some g)
   \<and> (\<forall>w w' g. r_m r w = Some g \<and> r_m r w' = Some g \<longrightarrow> w = w')
   \<and> (\<forall>g. g \<notin> ran (r_m r) \<longrightarrow> r_refs r g = 0)
   \<and> distinct (r_free r) \<and> length (r_free r) \<le> maxFreeParkGroups \<and> (\<forall>g \<in> set (r_free r). g < r_next r)"

lemmas rinvD =
  rinv_def [THEN iffD1, THEN conjunct1, rule_format]
  rinv_def [THEN iffD1, THEN conjunct2, THEN conjunct1, rule_format]
  rinv_def [THEN iffD1, THEN conjunct2, THEN conjunct2, THEN conjunct1, rule_format, OF _ conjI]
  rinv_def [THEN iffD1, THEN conjunct2, THEN conjunct2, THEN conjunct2, THEN conjunct1, rule_format]

lemma rinv_reuse:
  assumes inv: "rinv r H" and w: "r_m r w = Some g"
  shows "rinv (r\<lparr>r_refs := (r_refs r)(g := r_refs r g + 1)\<rparr>) (add_mset (w, g) H)"
  using assms unfolding rinv_def by (auto simp: ran_def) (metis count_greater_zero_iff)+

lemma rinv_new:
  assumes inv: "rinv r H" and w: "r_m r w = None" and g: "g \<notin> ran (r_m r)"
    and fr: "set fr \<subseteq> set (r_free r) - {g}" "distinct fr" "length fr \<le> length (r_free r)"
    and nx: "r_next r \<le> nx" "g < nx"
  shows "rinv (r\<lparr>r_free := fr, r_next := nx, r_m := (r_m r)(w \<mapsto> g), r_refs := (r_refs r)(g := r_refs r g + 1)\<rparr>)
     (add_mset (w, g) H)"
proof -
  have nw: "(w, g') \<notin># H" for g' using inv w unfolding rinv_def by force
  have r0: "r_refs r g = 0" using inv g unfolding rinv_def by blast
  have cnt: "count H (w, g) = 0" using nw by (simp add: not_in_iff)
  have ng: "r_m r w' \<noteq> Some g" for w' using g by (auto simp: ran_def)
  have ran: "ran ((r_m r)(w \<mapsto> g)) = insert g (ran (r_m r))" using w by (simp add: ran_map_upd)
  show ?thesis
    using inv fr nx r0 cnt ng nw unfolding rinv_def by (auto simp: ran) (fastforce)+
qed

lemma rinv_acquire:
  assumes inv: "rinv r H" and ac: "acquireParkGroup w r = (g, r')"
  shows "rinv r' (add_mset (w, g) H)"
proof (cases "r_m r w")
  case (Some g')
  then show ?thesis using rinv_reuse [OF inv] ac by (auto simp: acquireParkGroup_def)
next
  case None
  have not_ran: "g' \<notin> ran (r_m r)" if "g' \<in> set (r_free r) \<or> g' = r_next r" for g'
    using inv that unfolding rinv_def ran_def by auto
  show ?thesis
  proof (cases "r_free r = []")
    case True
    then have "g = r_next r" "r' = r\<lparr>r_free := [], r_next := Suc (r_next r), r_m := (r_m r)(w \<mapsto> g),
        r_refs := (r_refs r)(g := r_refs r g + 1)\<rparr>"
      using ac None by (auto simp: acquireParkGroup_def Let_def)
    then show ?thesis using rinv_new [OF inv None, of g "[]" "Suc (r_next r)"] not_ran by simp
  next
    case False
    let ?fr = "butlast (r_free r)"
    have d: "distinct (r_free r)" using inv by (simp add: rinv_def)
    have split: "r_free r = ?fr @ [last (r_free r)]" using False by simp
    have r': "g = last (r_free r)" "r' = r\<lparr>r_free := ?fr, r_next := r_next r, r_m := (r_m r)(w \<mapsto> g),
        r_refs := (r_refs r)(g := r_refs r g + 1)\<rparr>"
      using ac None False by (auto simp: acquireParkGroup_def Let_def)
    have "distinct (?fr @ [last (r_free r)])" using d split by simp
    then have "set ?fr \<subseteq> set (r_free r) - {g}" "distinct ?fr"
      using r'(1) by (auto dest: in_set_butlastD)
    moreover have "g \<in> set (r_free r)" using False r'(1) by simp
    moreover have "g < r_next r" using inv \<open>g \<in> set (r_free r)\<close> by (simp add: rinv_def)
    ultimately show ?thesis using rinv_new [OF inv None, of g ?fr "r_next r"] not_ran r'(2) by simp
  qed
qed

lemma rinv_release:
  assumes inv: "rinv r H" and h: "(w, g) \<in># H"
  shows "rinv (releaseParkGroup w g r) (H - {#(w, g)#})"
proof -
  have w: "r_m r w = Some g" using inv h by (rule rinvD(2))
  then have c: "r_refs r g = count H (w, g)" "0 < r_refs r g" "g \<notin> set (r_free r)" "g < r_next r"
    using rinvD(1) [OF inv w] h by simp_all
  have uniq: "w' = w" if "r_m r w' = Some g" for w' using rinvD(3) [OF inv that w] .
  let ?r = "releaseParkGroup w g r" and ?H = "H - {#(w, g)#}"
  have cnt: "count ?H (w', g') = (if (w', g') = (w, g) then count H (w, g) - 1 else count H (w', g'))" for w' g'
    by simp
  have refs: "r_refs ?r = (r_refs r)(g := r_refs r g - 1)" "r_next ?r = r_next r"
    and mm: "r_m ?r = (if r_refs r g - 1 = 0 then (r_m r)(w := None) else r_m r)"
    and ff: "r_free ?r = (if r_refs r g - 1 = 0 \<and> length (r_free r) < maxFreeParkGroups
      then r_free r @ [g] else r_free r)"
    by (simp_all add: releaseParkGroup_def Let_def)
  have m: "r_m ?r w' = Some g' \<longleftrightarrow> r_m r w' = Some g' \<and> (g' = g \<longrightarrow> r_refs r g \<noteq> 1)" for w' g'
  proof (cases "w' = w")
    case True
    then show ?thesis using w c(2) by (auto simp: mm)
  next
    case False
    then show ?thesis using uniq [of w'] by (auto simp: mm)
  qed
  have d: "distinct (r_free r)" "length (r_free r) \<le> maxFreeParkGroups"
    using inv by (simp_all add: rinv_def)
  have fr: "set (r_free ?r) \<subseteq> insert g (set (r_free r))" "distinct (r_free ?r)"
      "length (r_free ?r) \<le> maxFreeParkGroups" "r_refs r g \<noteq> 1 \<Longrightarrow> r_free ?r = r_free r"
    using d c(2,3) by (auto simp: ff)
  show ?thesis
    unfolding rinv_def
  proof (intro conjI allI impI ballI)
    fix w' g' assume m': "r_m ?r w' = Some g'"
    then have old: "r_m r w' = Some g'" "g' = g \<longrightarrow> r_refs r g \<noteq> 1" using m by auto
    note ok = rinvD(1) [OF inv old(1)]
    have w': "g' = g \<Longrightarrow> w' = w" using old uniq by blast
    show "r_refs ?r g' = count ?H (w', g')"
      using conjunct1 [OF ok] w' unfolding refs cnt by (cases "g' = g") simp_all
    show "0 < r_refs ?r g'" using conjunct1 [OF conjunct2 [OF ok]] old(2) c(2) by (auto simp: refs(1))
    show "g' < r_next ?r" using ok refs by simp
    show "g' \<notin> set (r_free ?r)" using ok old fr(1,4) c(3) by (cases "g' = g") auto
  next
    fix w' g' assume wg: "(w', g') \<in># ?H"
    then have "r_m r w' = Some g'" using rinvD(2) [OF inv] by (auto dest: in_diffD)
    moreover have "r_refs r g \<noteq> 1" if "g' = g"
    proof -
      have "w' = w" using calculation that uniq by simp
      then show ?thesis using wg that c by (simp add: in_diff_count)
    qed
    ultimately show "r_m ?r w' = Some g'" using m by simp
  next
    fix w1 w2 g' assume "r_m ?r w1 = Some g' \<and> r_m ?r w2 = Some g'"
    then show "w1 = w2" using m rinvD(3) [OF inv] by metis
  next
    fix g' assume "g' \<notin> ran (r_m ?r)"
    then have n: "r_m r w' \<noteq> Some g' \<or> g' = g \<and> r_refs r g = 1" for w' using m by (auto simp: ran_def)
    show "r_refs ?r g' = 0"
    proof (cases "g' = g")
      case True
      then show ?thesis using n [of w] w by (simp add: refs)
    next
      case False
      then have "g' \<notin> ran (r_m r)" using n by (auto simp: ran_def)
      then show ?thesis using rinvD(4) [OF inv] False by (simp add: refs)
    qed
  next
    fix g' assume "g' \<in> set (r_free ?r)"
    then show "g' < r_next ?r" using fr(1) c inv by (auto simp: refs rinv_def)
  qed (use fr in auto)
qed

lemma rreach_rinv: "rreach r H \<Longrightarrow> rinv r H"
proof (induction rule: rreach.induct)
  case init
  show ?case by (simp add: rinv_def)
qed (auto intro: rinv_acquire rinv_release)

section \<open>Registering, sleeping and waking\<close>

text \<open>
  One wait word of a ring: any number of leaders (one per process) that park on it and of
  threads that publish and wake. \<open>f_cond\<close> is the condition awaited (the slot reached its
  target sequence); other threads may take it away again. A leader registers, loads the word,
  re-checks and then asks the kernel to sleep (\<^verbatim>\<open>waiter.park\<close>); a waker stores, loads the waiter
  count, and if it is not zero bumps the word and wakes (\<^verbatim>\<open>publish\<close>, \<^verbatim>\<open>wakeWord\<close>). A leader may
  be killed while it sleeps; its registration then stays. The kernel is a parameter:
  \<open>kblock cur v\<close> tells whether a wait that expects \<open>v\<close> blocks on a word that holds \<open>cur\<close>, and
  \<open>woken S\<close> which of the sleepers \<open>S\<close> a wake-up of all waiters reaches. \<open>f_bumps\<close>, \<open>f_seen\<close>
  and \<open>f_regs\<close> are counters kept for the proofs.
\<close>

datatype lstat = LOut | LReg | LLoaded u32 | LWait u32 | LAsleep u32 | LDereg
datatype kstat = KOut | KStored | KBump | KWake

record fsys =
  f_cond :: bool
  f_word :: u32
  f_waiters :: u32
  f_ls :: "nat \<Rightarrow> lstat"
  f_ks :: "nat \<Rightarrow> kstat"
  f_bumps :: nat
  f_seen :: "nat \<Rightarrow> nat"
  f_regs :: nat

definition asleep :: "(nat \<Rightarrow> lstat) \<Rightarrow> nat set" where
  "asleep ls = {t. \<exists>v. ls t = LAsleep v}"

inductive fstep :: "(u32 \<Rightarrow> u32 \<Rightarrow> bool) \<Rightarrow> (nat set \<Rightarrow> nat set) \<Rightarrow> fsys \<Rightarrow> fsys \<Rightarrow> bool" for kblock woken where
  register: "f_ls s t = LOut \<Longrightarrow> fstep kblock woken s
     (s\<lparr>f_ls := (f_ls s)(t := LReg), f_waiters := f_waiters s + 1, f_regs := f_regs s + 1\<rparr>)"
| load: "f_ls s t = LReg \<Longrightarrow> fstep kblock woken s
     (s\<lparr>f_ls := (f_ls s)(t := LLoaded (f_word s)), f_seen := (f_seen s)(t := f_bumps s)\<rparr>)"
| check: "f_ls s t = LLoaded v \<Longrightarrow> fstep kblock woken s
     (s\<lparr>f_ls := (f_ls s)(t := if f_cond s then LDereg else LWait v)\<rparr>)"
| sleep: "f_ls s t = LWait v \<Longrightarrow> fstep kblock woken s
     (s\<lparr>f_ls := (f_ls s)(t := if kblock (f_word s) v then LAsleep v else LDereg)\<rparr>)"
| timeout: "f_ls s t = LAsleep v \<Longrightarrow> fstep kblock woken s (s\<lparr>f_ls := (f_ls s)(t := LDereg)\<rparr>)"
| killed: "f_ls s t = LAsleep v \<Longrightarrow> fstep kblock woken s (s\<lparr>f_ls := (f_ls s)(t := LOut)\<rparr>)"
| deregister: "f_ls s t = LDereg \<Longrightarrow> fstep kblock woken s
     (s\<lparr>f_ls := (f_ls s)(t := LOut), f_waiters := f_waiters s - 1, f_regs := f_regs s - 1\<rparr>)"
| store: "f_ks s k = KOut \<Longrightarrow> fstep kblock woken s (s\<lparr>f_cond := True, f_ks := (f_ks s)(k := KStored)\<rparr>)"
| count: "f_ks s k = KStored \<Longrightarrow> fstep kblock woken s
     (s\<lparr>f_ks := (f_ks s)(k := if f_waiters s \<noteq> 0 then KBump else KOut)\<rparr>)"
| bump: "f_ks s k = KBump \<Longrightarrow> fstep kblock woken s
     (s\<lparr>f_word := f_word s + 1, f_bumps := f_bumps s + 1, f_ks := (f_ks s)(k := KWake)\<rparr>)"
| wake: "f_ks s k = KWake \<Longrightarrow> fstep kblock woken s
     (s\<lparr>f_ls := (\<lambda>t. if t \<in> woken (asleep (f_ls s)) then LDereg else f_ls s t), f_ks := (f_ks s)(k := KOut)\<rparr>)"
| taken: "fstep kblock woken s (s\<lparr>f_cond := False\<rparr>)"

definition finit :: fsys where
  "finit = \<lparr>f_cond = False, f_word = 0, f_waiters = 0, f_ls = (\<lambda>_. LOut), f_ks = (\<lambda>_. KOut),
     f_bumps = 0, f_seen = (\<lambda>_. 0), f_regs = 0\<rparr>"

text \<open>Runs with fewer than \<open>2 ^ 32\<close> wake-ups and simultaneous registrations, the range of the words.\<close>

inductive freach :: "(u32 \<Rightarrow> u32 \<Rightarrow> bool) \<Rightarrow> (nat set \<Rightarrow> nat set) \<Rightarrow> fsys \<Rightarrow> bool" for kblock woken where
  init: "freach kblock woken finit"
| step: "freach kblock woken s \<Longrightarrow> fstep kblock woken s s' \<Longrightarrow> f_bumps s' < 2 ^ 32 \<Longrightarrow> f_regs s' < 2 ^ 32 \<Longrightarrow>
    freach kblock woken s'"

fun loaded :: "lstat \<Rightarrow> u32 option" where
  "loaded (LLoaded v) = Some v"
| "loaded (LWait v) = Some v"
| "loaded (LAsleep v) = Some v"
| "loaded _ = None"

text \<open>
  The words count: every registration that is not withdrawn is in the waiter count, and what
  a leader loaded is an earlier value of the word.
\<close>

definition regset :: "(nat \<Rightarrow> lstat) \<Rightarrow> nat set" where
  "regset ls = {t. ls t \<noteq> LOut}"

definition fcount :: "fsys \<Rightarrow> bool" where
  "fcount s \<longleftrightarrow> f_word s = of_nat (f_bumps s) \<and> f_waiters s = of_nat (f_regs s)
     \<and> finite (regset (f_ls s)) \<and> card (regset (f_ls s)) \<le> f_regs s
     \<and> (\<forall>t v. loaded (f_ls s t) = Some v \<longrightarrow> v = of_nat (f_seen s t) \<and> f_seen s t \<le> f_bumps s)"

text \<open>A leader that is about to sleep, or sleeps, although it need not, has a waker coming.\<close>

definition coming :: "(nat \<Rightarrow> kstat) \<Rightarrow> bool" where
  "coming ks \<longleftrightarrow> (\<exists>k. ks k = KStored \<or> ks k = KBump)"

definition waking :: "(nat \<Rightarrow> kstat) \<Rightarrow> bool" where
  "waking ks \<longleftrightarrow> (\<exists>k. ks k = KWake)"

definition fwake :: "fsys \<Rightarrow> bool" where
  "fwake s \<longleftrightarrow>
     (\<forall>t v. f_cond s \<and> f_ls s t = LWait v \<longrightarrow> coming (f_ks s) \<or> f_seen s t < f_bumps s)
   \<and> (\<forall>t v. f_ls s t = LAsleep v \<and> f_seen s t < f_bumps s \<longrightarrow> waking (f_ks s))
   \<and> (\<forall>t v. f_cond s \<and> f_ls s t = LAsleep v \<longrightarrow> coming (f_ks s) \<or> waking (f_ks s))"

lemma coming_upd:
  "c = KStored \<or> c = KBump \<Longrightarrow> coming (ks(k := c))"
  "ks k = KWake \<or> ks k = KOut \<Longrightarrow> coming ks \<Longrightarrow> coming (ks(k := c))"
  by (auto simp: coming_def) (metis kstat.distinct)+

lemma waking_upd:
  "waking (ks(k := KWake))"
  "ks k \<noteq> KWake \<Longrightarrow> waking ks \<Longrightarrow> waking (ks(k := c))"
  by (auto simp: waking_def)

lemma regset_upd:
  "c \<noteq> LOut \<Longrightarrow> regset (ls(t := c)) = insert t (regset ls)"
  "regset (ls(t := LOut)) = regset ls - {t}"
  "t \<in> regset ls \<longleftrightarrow> ls t \<noteq> LOut"
  by (auto simp: regset_def)

lemma fcount_move:
  assumes "fcount s" "f_ls s t \<noteq> LOut" "c \<noteq> LOut" "loaded c = None \<or> loaded c = loaded (f_ls s t)"
  shows "fcount (s\<lparr>f_ls := (f_ls s)(t := c)\<rparr>)"
proof -
  have "regset ((f_ls s)(t := c)) = regset (f_ls s)" using assms(2,3) by (auto simp: regset_def)
  then show ?thesis using assms by (auto simp: fcount_def)
qed

lemma fcount_deregister:
  assumes "fcount s" "f_ls s t \<noteq> LOut"
  shows "fcount (s\<lparr>f_ls := (f_ls s)(t := LOut), f_waiters := f_waiters s - 1, f_regs := f_regs s - 1\<rparr>)"
proof -
  have t: "t \<in> regset (f_ls s)" using assms(2) by (simp add: regset_def)
  then have "0 < card (regset (f_ls s))" using assms(1) by (auto simp: fcount_def card_gt_0_iff)
  then have "0 < f_regs s" using assms(1) by (simp add: fcount_def)
  then show ?thesis using assms t by (auto simp: fcount_def regset_upd of_nat_diff)
qed

lemma fcount_step:
  assumes st: "fstep kblock woken s s'" and inv: "fcount s"
    and wk: "woken (asleep (f_ls s)) \<subseteq> asleep (f_ls s)"
  shows "fcount s'"
  using st
proof cases
  case (register t)
  have fin: "finite (regset (f_ls s))" using inv by (simp add: fcount_def)
  then have "card (insert t (regset (f_ls s))) \<le> Suc (card (regset (f_ls s)))"
    by (simp add: card_insert_if)
  then show ?thesis using inv register fin by (auto simp: fcount_def regset_upd)
next
  case (load t)
  have "regset ((f_ls s)(t := LLoaded (f_word s))) = regset (f_ls s)" using load by (auto simp: regset_def)
  then show ?thesis using inv load by (auto simp: fcount_def)
next
  case (check t v)
  then show ?thesis using fcount_move [OF inv, of t "if f_cond s then LDereg else LWait v"] by auto
next
  case (sleep t v)
  then show ?thesis using fcount_move [OF inv, of t "if kblock (f_word s) v then LAsleep v else LDereg"] by auto
next
  case (timeout t v)
  then show ?thesis using fcount_move [OF inv, of t LDereg] by auto
next
  case (killed t v)
  have fin: "finite (regset (f_ls s))" using inv by (simp add: fcount_def)
  then have "card (regset (f_ls s) - {t}) \<le> card (regset (f_ls s))" by (simp add: card_Diff1_le)
  then show ?thesis using inv killed fin by (auto simp: fcount_def regset_upd)
next
  case (deregister t)
  then show ?thesis using fcount_deregister [OF inv, of t] by simp
next
  case (wake k)
  have "regset (\<lambda>t. if t \<in> woken (asleep (f_ls s)) then LDereg else f_ls s t) = regset (f_ls s)"
    using wk by (auto simp: asleep_def regset_def)
  then show ?thesis using inv wake by (auto simp: fcount_def)
next
  case (bump k)
  have "f_seen s t \<le> Suc (f_bumps s)" if "loaded (f_ls s t) = Some v" for t v
    using inv that by (fastforce simp: fcount_def)
  then show ?thesis using inv bump by (auto simp: fcount_def)
qed (use inv in \<open>auto simp: fcount_def\<close>)

lemma registered_counted:
  assumes "fcount s" "f_ls s t \<noteq> LOut" "f_regs s < 2 ^ 32"
  shows "f_waiters s \<noteq> 0"
proof -
  have "t \<in> regset (f_ls s)" using assms(2) by (simp add: regset_def)
  then have "0 < card (regset (f_ls s))" using assms(1) by (auto simp: fcount_def card_gt_0_iff)
  then have "0 < f_regs s" using assms(1) by (simp add: fcount_def)
  moreover have "unat (f_waiters s) = f_regs s"
    using assms(1,3) by (simp add: fcount_def unat_of_nat_self)
  ultimately show ?thesis by auto
qed

lemma seen_current:
  assumes "fcount s" "f_bumps s < 2 ^ 32" "loaded (f_ls s t) = Some (f_word s)"
  shows "f_seen s t = f_bumps s"
proof -
  have "of_nat (f_bumps s) = (of_nat (f_seen s t) :: u32)" "f_seen s t \<le> f_bumps s"
    using assms by (auto simp: fcount_def)
  moreover have "unat (of_nat (f_bumps s) :: u32) = f_bumps s"
    using assms(2) by (intro unat_of_nat_self) simp
  moreover have "unat (of_nat (f_seen s t) :: u32) = f_seen s t"
    using assms(2) \<open>f_seen s t \<le> f_bumps s\<close> by (intro unat_of_nat_self) simp
  ultimately show ?thesis by metis
qed

lemma fwake_step:
  assumes st: "fstep kblock woken s s'" and cnt: "fcount s" and inv: "fwake s"
    and b: "f_bumps s < 2 ^ 32" "f_regs s < 2 ^ 32"
    and k1: "\<forall>cur v. kblock cur v \<longrightarrow> cur = v" and k2: "\<forall>S. woken S = S"
  shows "fwake s'"
  using st
proof cases
  case (sleep t v)
  have "f_seen s t = f_bumps s" if "kblock (f_word s) v"
    using seen_current [OF cnt b(1), of t] k1 that sleep by auto
  then show ?thesis using inv sleep by (auto simp: fwake_def)
next
  case (count k)
  show ?thesis
  proof (cases "f_waiters s = 0")
    case True
    then have "f_ls s t = LOut" for t using registered_counted [OF cnt _ b(2), of t] by blast
    then show ?thesis using count by (simp add: fwake_def)
  next
    case False
    then show ?thesis using inv count by (auto simp: fwake_def coming_upd waking_upd)
  qed
next
  case (bump k)
  have "f_seen s t < Suc (f_bumps s)" if "loaded (f_ls s t) = Some v" for t v
    using cnt that by (fastforce simp: fcount_def)
  then show ?thesis using bump by (auto simp: fwake_def waking_upd)
next
  case (wake k)
  then show ?thesis using inv k2 by (auto simp: fwake_def asleep_def coming_upd split: if_splits)
next
  case (store k)
  then show ?thesis using inv by (auto simp: fwake_def coming_upd waking_upd)
next
  case (load t)
  then show ?thesis using inv by (auto simp: fwake_def)
qed (use inv in \<open>auto simp: fwake_def\<close>)

lemma freach_inv:
  assumes "freach kblock woken s" "\<forall>cur v. kblock cur v \<longrightarrow> cur = v" "\<forall>S. woken S = S"
  shows "fcount s \<and> fwake s \<and> f_bumps s < 2 ^ 32 \<and> f_regs s < 2 ^ 32"
  using assms(1)
proof (induction rule: freach.induct)
  case init
  show ?case by (simp add: fcount_def fwake_def finit_def regset_def)
next
  case (step s s')
  then show ?case using fcount_step [OF step(2)] fwake_step [OF step(2)] assms(2,3) by blast
qed

section \<open>Properties of parking\<close>

text \<open>
  C8: No lost wake-up. If the kernel blocks a wait only while the word still holds the expected
  value, and a wake-up reaches every sleeper, then no process sleeps on a condition that
  holds unless a waker is on its way to wake it; this also with processes killed in their sleep.
\<close>

theorem no_lost_wakeup:
  assumes "freach kblock woken s" "\<forall>cur v. kblock cur v \<longrightarrow> cur = v" "\<forall>S. woken S = S"
    and "f_cond s" "f_ls s t = LAsleep v"
  shows "\<exists>k. f_ks s k \<noteq> KOut"
proof -
  have "coming (f_ks s) \<or> waking (f_ks s)"
    using freach_inv [OF assms(1-3)] assms(4,5) by (auto simp: fwake_def)
  then show ?thesis unfolding coming_def waking_def by (metis kstat.distinct)
qed

definition wit_asleep :: fsys where
  "wit_asleep = finit\<lparr>f_ls := (\<lambda>_. LOut)(0 := LAsleep 0), f_waiters := 1, f_regs := 1,
     f_seen := (\<lambda>_. 0)(0 := 0)\<rparr>"

lemma wit_asleep_reach: "freach (=) (\<lambda>S. S) wit_asleep"
proof -
  let ?s1 = "finit\<lparr>f_ls := (\<lambda>_. LOut)(0 := LReg), f_waiters := 1, f_regs := 1\<rparr>"
  let ?s2 = "finit\<lparr>f_ls := (\<lambda>_. LOut)(0 := LLoaded 0), f_waiters := 1, f_regs := 1,
    f_seen := (\<lambda>_. 0)(0 := 0)\<rparr>"
  let ?s3 = "?s2\<lparr>f_ls := (\<lambda>_. LOut)(0 := LWait 0)\<rparr>"
  have "fstep (=) (\<lambda>S. S) finit ?s1" using fstep.register [of finit 0] by (simp add: finit_def)
  then have "freach (=) (\<lambda>S. S) ?s1" by (rule freach.step [OF freach.init]) (simp_all add: finit_def)
  moreover have "fstep (=) (\<lambda>S. S) ?s1 ?s2" using fstep.load [of ?s1 0] by (simp add: finit_def)
  ultimately have "freach (=) (\<lambda>S. S) ?s2" by (rule freach.step) (simp_all add: finit_def)
  moreover have "fstep (=) (\<lambda>S. S) ?s2 ?s3" using fstep.check [of ?s2 0 0] by (simp add: finit_def)
  ultimately have "freach (=) (\<lambda>S. S) ?s3" by (rule freach.step) (simp_all add: finit_def)
  moreover have "fstep (=) (\<lambda>S. S) ?s3 wit_asleep"
    using fstep.sleep [of ?s3 0 0 "(=)"] by (simp add: finit_def wit_asleep_def)
  ultimately show ?thesis by (rule freach.step) (simp_all add: finit_def wit_asleep_def)
qed

theorem no_lost_wakeup_witness:
  "\<exists>k. f_ks (wit_asleep\<lparr>f_cond := True, f_ks := (f_ks wit_asleep)(5 := KStored)\<rparr>) k \<noteq> KOut"
proof -
  let ?s = "wit_asleep\<lparr>f_cond := True, f_ks := (f_ks wit_asleep)(5 := KStored)\<rparr>"
  have "fstep (=) (\<lambda>S. S) wit_asleep ?s"
    by (rule fstep.store) (simp add: wit_asleep_def finit_def)
  then have "freach (=) (\<lambda>S. S) ?s"
    by (rule freach.step [OF wit_asleep_reach]) (simp_all add: wit_asleep_def finit_def)
  then show ?thesis
    using no_lost_wakeup [of "(=)" "\<lambda>S. S" ?s 0 0] by (simp add: wit_asleep_def)
qed

text \<open>
  C26: Waiter aggregation. At most one goroutine of the process leads. A goroutine that follows is
  never stranded: either its release is already in its channel, or it is on the list of the
  active leader. A leader never blocks on a release (no channel on the list is full), and a
  recycled channel is empty.
\<close>

theorem followers_not_stranded:
  assumes "greach s"
  shows "(\<forall>t t'. s_stat s t = Leading \<and> s_stat s t' = Leading \<longrightarrow> t = t')
     \<and> (\<forall>t ch. s_stat s t = Following ch \<longrightarrow> ch \<in> g_full (s_group s) \<or>
          ch \<in> set (g_wakes (s_group s)) \<and> (\<exists>t'. s_stat s t' = Leading))
     \<and> set (g_wakes (s_group s)) \<inter> g_full (s_group s) = {}
     \<and> g_pool (s_group s) \<inter> g_full (s_group s) = {}"
proof -
  have inv: "ginv s" using assms by (rule greach_ginv)
  have "ch \<in> g_full (s_group s) \<or> ch \<in> set (g_wakes (s_group s)) \<and> (\<exists>t'. s_stat s t' = Leading)"
    if "s_stat s t = Following ch" for t ch
  proof -
    have "ch \<in> following (s_stat s)" using that by (auto simp: following_def)
    then show ?thesis using inv by (auto simp: ginv_def Let_def one_leader_def)
  qed
  then show ?thesis using inv by (auto simp: ginv_def Let_def one_leader_def)
qed

theorem followers_not_stranded_witness:
  "\<exists>s. greach s \<and> s_stat s 1 = Following 7 \<and> (7 \<in> g_full (s_group s) \<or> 7 \<in> set (g_wakes (s_group s)))"
proof -
  let ?s1 = "ginit\<lparr>s_group := (s_group ginit)\<lparr>g_leader := True\<rparr>, s_stat := (s_stat ginit)(0 := Leading)\<rparr>"
  let ?s2 = "?s1\<lparr>s_group := (s_group ?s1)\<lparr>g_wakes := [7], g_pool := {}\<rparr>,
    s_stat := (s_stat ?s1)(1 := Following 7)\<rparr>"
  have "gstep 0 (AEnter 3) ginit ?s1"
    using gstep.enter [of ginit 0 3 True] by (simp add: ginit_def enter_def fresh_chan_def)
  then have "greach ?s1" by (rule greach.step [OF greach.init])
  moreover have "gstep 1 (AEnter 7) ?s1 ?s2"
    using gstep.enter [of ?s1 1 7 False] by (simp add: ginit_def enter_def fresh_chan_def)
  ultimately have "greach ?s2" by (rule greach.step)
  then show ?thesis using followers_not_stranded [of ?s2] by (intro exI [of _ ?s2]) auto
qed

text \<open>
  The registry. Operations in flight share a group exactly when they wait on the same word;
  a group is live exactly while some operation holds it; recycled groups are not in use and at
  most \<open>maxFreeParkGroups\<close> of them are kept.
\<close>

theorem park_group_registry:
  assumes "rreach r H"
  shows "(\<forall>w g w' g'. (w, g) \<in># H \<and> (w', g') \<in># H \<longrightarrow> (w = w' \<longleftrightarrow> g = g'))
     \<and> (\<forall>w. r_m r w \<noteq> None \<longleftrightarrow> (\<exists>g. (w, g) \<in># H))
     \<and> (\<forall>w g. (w, g) \<in># H \<longrightarrow> g \<notin> set (r_free r)) \<and> length (r_free r) \<le> maxFreeParkGroups"
proof -
  have inv: "rinv r H" using assms by (rule rreach_rinv)
  have "w = w' \<longleftrightarrow> g = g'" if "(w, g) \<in># H" "(w', g') \<in># H" for w g w' g'
    using rinvD(2) [OF inv that(1)] rinvD(2) [OF inv that(2)] rinvD(3) [OF inv] by (metis option.inject)
  moreover have "r_m r w \<noteq> None \<longleftrightarrow> (\<exists>g. (w, g) \<in># H)" for w
    using rinvD(1) [OF inv, of w] rinvD(2) [OF inv, of w] by (metis count_greater_zero_iff not_None_eq)
  moreover have "g \<notin> set (r_free r)" if "(w, g) \<in># H" for w g
    using rinvD(1) [OF inv rinvD(2) [OF inv that]] by blast
  ultimately show ?thesis using inv by (auto simp: rinv_def)
qed

theorem park_group_registry_witness:
  "\<exists>r. rreach r {#(4, 0)#} \<and> r_m r 4 \<noteq> None"
proof -
  obtain g r where ac: "acquireParkGroup 4 \<lparr>r_m = (\<lambda>_. None), r_refs = (\<lambda>_. 0), r_free = [], r_next = 0\<rparr> = (g, r)"
    by fastforce
  have "rreach r {#(4, g)#}" by (rule rreach.acquire [OF rreach.init ac])
  moreover have "g = 0" using ac by (simp add: acquireParkGroup_def Let_def)
  ultimately show ?thesis using park_group_registry [of r "{#(4, g)#}"] by auto
qed

end
