(* ===== verification/Layout.thy ===== *)
theory Layout
  imports Mpmc_Ring
begin

text \<open>
  Sizes, offsets and names of the shared segments (\<^verbatim>\<open>src/superblock.go\<close>, \<^verbatim>\<open>src/options.go\<close>,
  \<^verbatim>\<open>src/listener_layout.go\<close>, \<^verbatim>\<open>splitBuffers\<close> of \<^verbatim>\<open>src/standard.go\<close>): the geometry that both
  endpoints compute, checked against overflow, and the names of the link segments a listener
  hands out. The page size of the machine is the parameter \<open>ps\<close>. A Go \<^verbatim>\<open>int\<close> is an \<open>int\<close>;
  sizes and addresses are 64-bit words, as in the code.
\<close>

section \<open>Segment geometry\<close>

definition MinBufferCount :: int where [hqq_consts]: "MinBufferCount = 2"
definition MinBufferSize :: int where [hqq_consts]: "MinBufferSize = 8"
definition BufferSizeAlignment :: int where [hqq_consts]: "BufferSizeAlignment = 8"
definition maxBufferCount :: int where [hqq_consts]: "maxBufferCount = 16777216"
definition maxBufferSize :: int where [hqq_consts]: "maxBufferSize = 1073741824"
definition superblockSize :: u64 where [hqq_consts]: "superblockSize = 384"
definition packetSlotSize :: u64 where [hqq_consts]: "packetSlotSize = 72"
definition maxInt :: u64 where [hqq_consts]: "maxInt = 0x7FFFFFFFFFFFFFFF"

definition isPowerOfTwo :: "int \<Rightarrow> bool" where
  "isPowerOfTwo v \<longleftrightarrow> v > 0 \<and> v AND (v - 1) = 0"

definition validConfig :: "int \<Rightarrow> int \<Rightarrow> bool" where
  "validConfig bufferCount bufferSize \<longleftrightarrow>
     isPowerOfTwo bufferCount \<and> bufferCount \<ge> MinBufferCount \<and> bufferCount \<le> maxBufferCount
     \<and> bufferSize \<ge> MinBufferSize \<and> bufferSize \<le> maxBufferSize
     \<and> bufferSize mod BufferSizeAlignment = 0"

definition alignPage :: "u64 \<Rightarrow> u64 \<Rightarrow> u64" where
  "alignPage ps n = ((n + ps - 1) div ps) * ps"

text \<open>\<^verbatim>\<open>bits.Add\<close>: the sum and the carry. \<^verbatim>\<open>bits.Mul\<close>: the high and the low word.\<close>

definition bitsAdd :: "u64 \<Rightarrow> u64 \<Rightarrow> u64 \<times> bool" where
  "bitsAdd a b = (a + b, unat a + unat b \<ge> 2 ^ 64)"

definition bitsMul :: "u64 \<Rightarrow> u64 \<Rightarrow> u64 \<times> u64" where
  "bitsMul a b = (of_nat (unat a * unat b div 2 ^ 64), a * b)"

definition alignedSum :: "u64 \<Rightarrow> u64 \<Rightarrow> u64 \<Rightarrow> u64 option" where
  "alignedSum ps a b =
     (case bitsAdd a b of
        (s, True) \<Rightarrow> None
      | (s, False) \<Rightarrow>
          (case bitsAdd s (ps - 1) of
             (s', True) \<Rightarrow> None
           | (s', False) \<Rightarrow> Some (s' div ps * ps)))"

record segmentLayout =
  ring0 :: u64
  buf0 :: u64
  ring1 :: u64
  buf1 :: u64
  total :: u64

text \<open>\<open>None\<close>: the second result of the Go function is false.\<close>

definition computeLayout :: "u64 \<Rightarrow> int \<Rightarrow> int \<Rightarrow> segmentLayout option" where
  "computeLayout ps bufferCount bufferSize =
     (if \<not> validConfig bufferCount bufferSize then None
      else
        let ringSize = SizeMPMCRing packetSlotSize (of_int bufferCount) in
        if ringSize = 0 then None
        else case bitsMul (of_int bufferCount) (of_int bufferSize) of
          (hi, buffersSize) \<Rightarrow>
            if hi \<noteq> 0 \<or> buffersSize > maxInt then None
            else
              let r0 = alignPage ps superblockSize in
              case alignedSum ps r0 ringSize of None \<Rightarrow> None | Some b0 \<Rightarrow>
              case alignedSum ps b0 buffersSize of None \<Rightarrow> None | Some r1 \<Rightarrow>
              case alignedSum ps r1 ringSize of None \<Rightarrow> None | Some b1 \<Rightarrow>
              case alignedSum ps b1 buffersSize of None \<Rightarrow> None | Some t \<Rightarrow>
                if t \<le> maxInt then Some \<lparr>ring0 = r0, buf0 = b0, ring1 = r1, buf1 = b1, total = t\<rparr>
                else None)"

definition SizeStandardLink :: "u64 \<Rightarrow> int \<Rightarrow> int \<Rightarrow> u64" where
  "SizeStandardLink ps bufferCount bufferSize =
     (case computeLayout ps bufferCount bufferSize of None \<Rightarrow> 0 | Some l \<Rightarrow> total l)"

definition splitBuffers :: "'b list \<Rightarrow> nat \<Rightarrow> nat \<Rightarrow> 'b list list" where
  "splitBuffers region cnt sz = map (\<lambda>i. take sz (drop (i * sz) region)) [0..<cnt]"

definition LargeMessageThreshold :: "int \<Rightarrow> int" where
  "LargeMessageThreshold bufferSize =
     (if bufferSize < MinBufferSize \<or> bufferSize mod BufferSizeAlignment \<noteq> 0 then 0 else bufferSize)"

definition IsLargeMessage :: "int \<Rightarrow> int \<Rightarrow> bool" where
  "IsLargeMessage bufferSize payloadSize \<longleftrightarrow>
     (let threshold = LargeMessageThreshold bufferSize in threshold > 0 \<and> payloadSize > threshold)"

section \<open>Listener segment\<close>

definition listenerRingOffset :: u64 where [hqq_consts]: "listenerRingOffset = 4096"
definition connectSlotSize :: u64 where [hqq_consts]: "connectSlotSize = 256"
definition maxAcceptorQueueSize :: int where [hqq_consts]: "maxAcceptorQueueSize = 65536"
definition listenerMaxNameLen :: nat where [hqq_consts]: "listenerMaxNameLen = 184"
definition listenerMaxPrefixLen :: nat where [hqq_consts]: "listenerMaxPrefixLen = 32"
definition listenerSuffixLen :: nat where [hqq_consts]: "listenerSuffixLen = 16"
definition listenerStemLen :: nat where [hqq_consts]: "listenerStemLen = 12"

definition listenerLayoutSize :: "u64 \<Rightarrow> int \<Rightarrow> u64" where
  "listenerLayoutSize ps capacity =
     (if \<not> isPowerOfTwo capacity \<or> capacity < 2 \<or> capacity > maxAcceptorQueueSize then 0
      else
        let ring = SizeMPMCRing connectSlotSize (of_int capacity) in
        if ring = 0 then 0
        else case alignedSum ps listenerRingOffset ring of None \<Rightarrow> 0 | Some t \<Rightarrow> t)"

text \<open>
  Names are byte strings. \<^verbatim>\<open>strings.EqualFold\<close> is only called on the two scope prefixes, whose
  letters have no case variant outside ASCII.
\<close>

definition lower :: "char \<Rightarrow> char" where
  "lower c = (let n = of_char c :: nat in if 65 \<le> n \<and> n \<le> 90 then char_of (n + 32) else c)"

definition stemChar :: "char \<Rightarrow> char" where
  "stemChar c =
     (let n = of_char c :: nat in
      if 97 \<le> n \<and> n \<le> 122 \<or> 65 \<le> n \<and> n \<le> 90 \<or> 48 \<le> n \<and> n \<le> 57 \<or> c = CHR ''_'' \<or> c = CHR ''-''
      then c else CHR ''_'')"

definition splitScope :: "string \<Rightarrow> string \<times> string" where
  "splitScope name =
     (let p1 = ''Global'' @ [CHR 0x5C]; p2 = ''Local'' @ [CHR 0x5C] in
      if length name > length p1 \<and> map lower (take (length p1) name) = map lower p1
      then (take (length p1) name, drop (length p1) name)
      else if length name > length p2 \<and> map lower (take (length p2) name) = map lower p2
      then (take (length p2) name, drop (length p2) name)
      else ([], name))"

definition listenerLinkPrefix :: "string \<Rightarrow> string" where
  "listenerLinkPrefix listenerName =
     (case splitScope listenerName of
        (scope, name) \<Rightarrow>
          let name' = (case name of [] \<Rightarrow> [] | c # cs \<Rightarrow> if c = CHR ''/'' then cs else name) in
          scope @ map stemChar (take listenerStemLen name') @ ''.'')"

definition hexDigit :: "nat \<Rightarrow> char" where
  "hexDigit d = (if d < 10 then char_of (48 + d) else char_of (87 + d))"

text \<open>The 16 digits of \<^verbatim>\<open>strconv.AppendUint(token, 16)\<close>, padded with zeros in front.\<close>

fun hexDigits :: "nat \<Rightarrow> nat \<Rightarrow> string" where
  "hexDigits 0 n = []"
| "hexDigits (Suc k) n = hexDigits k (n div 16) @ [hexDigit (n mod 16)]"

definition newLinkName :: "string \<Rightarrow> u64 \<Rightarrow> string" where
  "newLinkName prefix token = prefix @ hexDigits listenerSuffixLen (unat token)"

definition isHex :: "char \<Rightarrow> bool" where
  "isHex c \<longleftrightarrow> (let n = of_char c :: nat in 48 \<le> n \<and> n \<le> 57 \<or> 97 \<le> n \<and> n \<le> 102)"

definition validLinkName :: "string \<Rightarrow> string \<Rightarrow> bool" where
  "validLinkName prefix name \<longleftrightarrow>
     length name = length prefix + listenerSuffixLen \<and> take (length prefix) name = prefix
     \<and> (\<forall>c \<in> set (drop (length prefix) name). isHex c)"

text \<open>The connect record of a client (\<^verbatim>\<open>connectRecord\<close>).\<close>

record connectRecord =
  clientToken :: u64
  cr_bufferCount :: u64
  cr_bufferSize :: u64
  cr_features :: u64
  cr_flags :: u64
  nameLen :: u64
  clientPID :: u64
  cr_reserved :: u64
  cr_name :: string   \<comment> \<open>always \<open>listenerMaxNameLen\<close> bytes\<close>

definition recordName :: "connectRecord \<Rightarrow> string option" where
  "recordName r =
     (if nameLen r = 0 \<or> unat (nameLen r) > listenerMaxNameLen then None
      else Some (take (unat (nameLen r)) (cr_name r)))"

definition setName :: "string \<Rightarrow> connectRecord \<Rightarrow> connectRecord option" where
  "setName name r =
     (if length name = 0 \<or> length name > listenerMaxNameLen then None
      else Some (r\<lparr>nameLen := of_nat (length name),
        cr_name := name @ replicate (listenerMaxNameLen - length name) (CHR 0x00)\<rparr>))"

section \<open>The layout never overlaps and never overflows\<close>

lemma round_up_bounds:
  fixes n p :: nat
  assumes "0 < p"
  shows "n \<le> (n + p - 1) div p * p" "(n + p - 1) div p * p \<le> n + p - 1" "p dvd (n + p - 1) div p * p"
proof -
  have "(n + p - 1) div p * p + (n + p - 1) mod p = n + p - 1" by simp
  moreover have "(n + p - 1) mod p < p" using assms by simp
  ultimately show "n \<le> (n + p - 1) div p * p" using assms by linarith
qed (auto simp: div_times_less_eq_dividend)

lemma unat_div_mult_self: "unat (a div b * b) = unat a div unat b * unat (b :: u64)"
proof -
  have "unat a div unat b * unat b \<le> unat a" by (rule div_times_less_eq_dividend)
  then have "unat a div unat b * unat b < 2 ^ 64"
    by (rule le_less_trans) (use unsigned_less [of a, where ?'a = nat] in simp)
  then show ?thesis by (simp only: unat_word_ariths(2) unat_div) simp
qed

lemma bitsAdd_exact: "bitsAdd a b = (s, False) \<Longrightarrow> unat s = unat a + unat b"
  by (auto simp: bitsAdd_def unat_word_ariths)

lemma unat_pred: "0 < (p :: u64) \<Longrightarrow> unat (p - 1) = unat p - 1"
  by (metis unat_minus_one word_gt_0)

lemma alignedSum_Some:
  assumes "alignedSum ps a b = Some s" "0 < ps"
  shows "unat s = (unat a + unat b + unat ps - 1) div unat ps * unat ps"
proof -
  obtain t u where t: "bitsAdd a b = (t, False)" and u: "bitsAdd t (ps - 1) = (u, False)"
    and s: "s = u div ps * ps"
    using assms(1) by (auto simp: alignedSum_def split: prod.splits bool.splits)
  have "0 < unat ps" using assms(2) by (simp add: word_less_nat_alt)
  then have "unat u = unat a + unat b + unat ps - 1"
    using bitsAdd_exact [OF t] bitsAdd_exact [OF u] unat_pred [OF assms(2)] by simp
  then show ?thesis by (simp add: s unat_div_mult_self)
qed

lemma alignedSum_bounds:
  assumes "alignedSum ps a b = Some s" "0 < ps"
  shows "unat a + unat b \<le> unat s" "unat s < unat a + unat b + unat ps" "unat ps dvd unat s"
proof -
  have p: "0 < unat ps" using assms(2) by (simp add: word_less_nat_alt)
  show "unat a + unat b \<le> unat s" "unat ps dvd unat s"
    using round_up_bounds [OF p] by (simp_all add: alignedSum_Some [OF assms])
  show "unat s < unat a + unat b + unat ps"
    using round_up_bounds(2) [OF p, of "unat a + unat b"] p
    unfolding alignedSum_Some [OF assms] by linarith
qed

lemma alignedSum_fits:
  assumes "0 < ps" "unat a + unat b + unat ps \<le> 2 ^ 64"
  obtains s where "alignedSum ps a b = Some s"
proof -
  have p: "0 < unat ps" using assms(1) by (simp add: word_less_nat_alt)
  then have lt: "unat a + unat b < 2 ^ 64" using assms(2) by linarith
  then have "unat (a + b) = unat a + unat b" by (simp add: unat_word_ariths)
  moreover have "unat a + unat b + (unat ps - 1) < 2 ^ 64" using assms(2) p by linarith
  ultimately have "alignedSum ps a b = Some ((a + b + (ps - 1)) div ps * ps)"
    using lt by (simp add: alignedSum_def bitsAdd_def unat_pred [OF assms(1)])
  then show thesis by (rule that)
qed

lemma isPowerOfTwo_iff: "isPowerOfTwo v \<longleftrightarrow> (\<exists>k. v = 2 ^ k)"
proof (cases "v > 0")
  case True
  then obtain n where v: "v = int n" and n: "0 < n" by (metis zero_less_imp_eq_int)
  have pred: "v - 1 = int (n - 1)" using n by (simp add: v)
  have "v AND (v - 1) = int (n AND (n - 1))" unfolding pred unfolding v of_nat_and_eq ..
  then have "isPowerOfTwo v \<longleftrightarrow> 0 < n \<and> n AND (n - 1) = 0"
    using n True by (simp only: isPowerOfTwo_def of_nat_eq_0_iff simp_thms)
  also have "\<dots> \<longleftrightarrow> (\<exists>k. v = 2 ^ k)"
    unfolding nat_pow2_iff v by (metis of_nat_eq_iff of_nat_numeral of_nat_power)
  finally show ?thesis .
next
  case False
  then show ?thesis by (auto simp: isPowerOfTwo_def)
qed

lemma power_le_exp: "(2::int) ^ k \<le> 2 ^ m \<Longrightarrow> k \<le> m"
  by (simp add: power_le_imp_le_exp)

lemma unat_of_int_self: "0 \<le> v \<Longrightarrow> v < 2 ^ 64 \<Longrightarrow> unat (of_int v :: u64) = nat v"
proof -
  assume v: "0 \<le> v" "v < 2 ^ 64"
  then have "(of_int v :: u64) = of_nat (nat v)" by simp
  moreover have "nat v < 2 ^ 64" using v by simp
  ultimately show "unat (of_int v :: u64) = nat v" by (simp add: unat_of_nat)
qed

lemma stride_packet: "stride packetSlotSize = 128"
  by (simp add: stride_def hqq_consts)

lemma stride_connect: "stride connectSlotSize = 256"
  by (simp add: stride_def hqq_consts)

lemma SizeMPMCRing_eq:
  assumes c: "c = 2 ^ k" "1 \<le> k" "k \<le> 24" and st: "stride es = 2 ^ j" "j \<le> 8"
  shows "unat (SizeMPMCRing es (of_int c)) = 512 + 2 ^ j * nat c"
proof -
  have k: "(of_int c :: u64) = 2 ^ k" by (simp add: c)
  have ck: "unat (2 ^ k :: u64) = 2 ^ k" using c by (simp add: unat_pow2)
  have cj: "unat (2 ^ j :: u64) = 2 ^ j" using st by (simp add: unat_pow2)
  have b: "(2::nat) ^ k \<le> 2 ^ 24" "(2::nat) ^ j \<le> 2 ^ 8"
    using c st by (simp_all add: power_increasing del: power_numeral)
  have ge: "(2::nat) \<le> 2 ^ k" using c power_increasing [of 1 k "2::nat"] by simp
  have prod: "(2::nat) ^ j * 2 ^ k \<le> 2 ^ 32" using mult_le_mono [OF b(2,1)] by simp
  have valid: "validRingSize (2 ^ k)"
  proof -
    have "(2 ^ k :: u64) \<noteq> 0 \<and> 2 ^ k AND (2 ^ k - 1) = (0 :: u64)"
      by (subst word_pow2_iff) (intro exI [of _ k], use c in simp)
    then show ?thesis using ge by (simp add: validRingSize_def word_le_nat_alt ck)
  qed
  have "2 ^ k \<le> (NOT 0 - HeaderSize) div (2 ^ j :: u64)"
  proof -
    have "(2::nat) ^ k \<le> unat (NOT 0 - HeaderSize :: u64) div 2 ^ j"
      using prod by (subst less_eq_div_iff_mult_less_eq) (simp_all add: hqq_consts mult.commute)
    then show ?thesis by (simp add: word_le_nat_alt unat_div ck cj)
  qed
  then have "SizeMPMCRing es (of_int c) = HeaderSize + 2 ^ j * 2 ^ k"
    using valid by (simp add: SizeMPMCRing_def k st Let_def flip: linorder_not_less)
  moreover have "unat (HeaderSize + 2 ^ j * 2 ^ k :: u64) = 512 + 2 ^ j * 2 ^ k"
    using prod by (simp add: unat_word_ariths ck cj hqq_consts)
  ultimately show ?thesis by (simp add: c nat_power_eq)
qed

lemma unat_alignPage:
  assumes "0 < ps" "unat n + unat ps \<le> 2 ^ 64"
  shows "unat (alignPage ps n) = (unat n + unat ps - 1) div unat ps * unat ps"
proof -
  have p: "0 < unat ps" using assms(1) by (simp add: word_less_nat_alt)
  have "n + ps - 1 = n + (ps - 1)" by simp
  moreover have "unat (n + (ps - 1)) = unat n + unat ps - 1"
    using assms(2) p by (simp add: unat_word_ariths(1) unat_pred [OF assms(1)])
  ultimately show ?thesis by (simp only: alignPage_def unat_div_mult_self)
qed

lemma validConfigD:
  assumes "validConfig bc bs"
  obtains k where "bc = 2 ^ k" "1 \<le> k" "k \<le> 24" "8 \<le> bs" "bs \<le> 2 ^ 30"
proof -
  obtain k where k: "bc = 2 ^ k" using assms by (auto simp: validConfig_def isPowerOfTwo_iff)
  have "(2::int) ^ 1 \<le> 2 ^ k" "(2::int) ^ k \<le> 2 ^ 24"
    using assms by (simp_all add: validConfig_def hqq_consts k)
  then have "1 \<le> k" "k \<le> 24" by (simp_all only: power_le_exp)
  then show thesis using that k assms by (simp add: validConfig_def hqq_consts)
qed

lemma buffers_size:
  assumes "validConfig bc bs"
  shows "bitsMul (of_int bc) (of_int bs) = (0, of_int (bc * bs))"
    and "unat (of_int (bc * bs) :: u64) = nat bc * nat bs" and "nat bc * nat bs \<le> 2 ^ 54"
proof -
  obtain k where k: "bc = 2 ^ k" "1 \<le> k" "k \<le> 24" and bs: "8 \<le> bs" "bs \<le> 2 ^ 30"
    using validConfigD [OF assms] .
  have bc: "0 \<le> bc" "bc \<le> 2 ^ 24" using power_increasing [OF k(3), of "2::int"] by (simp_all add: k)
  have le: "bc * bs \<le> 2 ^ 24 * 2 ^ 30" using bc bs by (intro mult_mono) auto
  then show prod: "nat bc * nat bs \<le> 2 ^ 54" using bc bs by (simp flip: nat_mult_distrib)
  show "unat (of_int (bc * bs) :: u64) = nat bc * nat bs"
    using le bc bs by (subst unat_of_int_self) (simp_all add: nat_mult_distrib)
  have "unat (of_int bc :: u64) = nat bc" "unat (of_int bs :: u64) = nat bs"
    using bc bs by (simp_all add: unat_of_int_self)
  then show "bitsMul (of_int bc) (of_int bs) = (0, of_int (bc * bs))"
    using prod by (simp add: bitsMul_def)
qed

lemma ring_size:
  assumes "validConfig bc bs"
  shows "unat (SizeMPMCRing packetSlotSize (of_int bc)) = 512 + 128 * nat bc" "nat bc \<le> 2 ^ 24"
proof -
  obtain k where k: "bc = 2 ^ k" "1 \<le> k" "k \<le> 24" using validConfigD [OF assms] .
  show "unat (SizeMPMCRing packetSlotSize (of_int bc)) = 512 + 128 * nat bc"
    using SizeMPMCRing_eq [OF k, of packetSlotSize 7] by (simp add: stride_packet)
  have "bc \<le> 2 ^ 24" using assms by (simp add: validConfig_def hqq_consts)
  then show "nat bc \<le> 2 ^ 24" by (simp add: nat_le_iff)
qed

lemma computeLayout_Some:
  assumes ps: "0 < ps" "ps \<le> 2 ^ 30" and v: "validConfig bc bs"
  obtains l where "computeLayout ps bc bs = Some l"
    and "384 \<le> unat (ring0 l)" and "unat (ring0 l) + (512 + 128 * nat bc) \<le> unat (buf0 l)"
    and "unat (buf0 l) + nat bc * nat bs \<le> unat (ring1 l)"
    and "unat (ring1 l) + (512 + 128 * nat bc) \<le> unat (buf1 l)"
    and "unat (buf1 l) + nat bc * nat bs \<le> unat (total l)" and "unat (total l) < 2 ^ 63"
    and "unat ps dvd unat (ring0 l)" "unat ps dvd unat (buf0 l)" "unat ps dvd unat (ring1 l)"
    and "unat ps dvd unat (buf1 l)" "unat ps dvd unat (total l)"
proof -
  define p where "p = unat ps"
  have p: "0 < p" "p \<le> 2 ^ 30" using ps by (simp_all add: p_def word_less_nat_alt word_le_nat_alt)
  define R where "R = SizeMPMCRing packetSlotSize (of_int bc)"
  define B where "B = (of_int (bc * bs) :: u64)"
  have R: "unat R = 512 + 128 * nat bc" "unat R \<le> 2 ^ 32" using ring_size [OF v] by (simp_all add: R_def)
  have B: "unat B = nat bc * nat bs" "unat B \<le> 2 ^ 54" using buffers_size [OF v] by (simp_all add: B_def)
  have nz: "R \<noteq> 0" using R(1) by auto
  have Bok: "\<not> B > maxInt" using B(2) by (simp add: word_less_nat_alt hqq_consts)
  define r0 where "r0 = alignPage ps superblockSize"
  have r0u: "unat r0 = (384 + p - 1) div p * p"
    using unat_alignPage [OF ps(1), of superblockSize] p(2) by (simp add: r0_def hqq_consts p_def)
  have r0: "384 \<le> unat r0" "unat r0 \<le> 383 + p" "p dvd unat r0"
    using round_up_bounds [OF p(1), of 384] by (simp_all add: r0u)
  obtain b0 where b0: "alignedSum ps r0 R = Some b0"
    using alignedSum_fits [of ps r0 R] ps r0 R p by (auto simp: p_def)
  note b0' = alignedSum_bounds [OF b0 ps(1), folded p_def]
  obtain r1 where r1: "alignedSum ps b0 B = Some r1"
    using alignedSum_fits [of ps b0 B] ps r0 R B p b0' by (auto simp: p_def)
  note r1' = alignedSum_bounds [OF r1 ps(1), folded p_def]
  obtain b1 where b1: "alignedSum ps r1 R = Some b1"
    using alignedSum_fits [of ps r1 R] ps r0 R B p b0' r1' by (auto simp: p_def)
  note b1' = alignedSum_bounds [OF b1 ps(1), folded p_def]
  obtain t where t: "alignedSum ps b1 B = Some t"
    using alignedSum_fits [of ps b1 B] ps r0 R B p b0' r1' b1' by (auto simp: p_def)
  note t' = alignedSum_bounds [OF t ps(1), folded p_def]
  have tlt: "unat t < 2 ^ 63" using t' b1' r1' b0' r0 R B p by simp
  then have "t \<le> maxInt" by (simp add: word_le_nat_alt hqq_consts)
  then have "computeLayout ps bc bs = Some \<lparr>ring0 = r0, buf0 = b0, ring1 = r1, buf1 = b1, total = t\<rparr>"
    using v nz Bok b0 r1 b1 t
    unfolding computeLayout_def Let_def buffers_size(1) [OF v, folded B_def] by (simp flip: R_def r0_def)
  then show thesis
    by (rule that) (simp_all only: segmentLayout.simps r0 b0' [unfolded R(1)] r1' [unfolded B(1)]
      b1' [unfolded R(1)] t' [unfolded B(1)] tlt flip: p_def)
qed

text \<open>
  C32: For every page size up to 1 GiB, a configuration has a layout exactly when it is valid (no
  overflow check ever rejects a valid one on a 64-bit machine), and then the superblock, the two
  rings and the two buffer regions are disjoint, follow each other in this order, start at page
  boundaries and end within a total size below \<open>2 ^ 63\<close>.
\<close>

theorem link_layout:
  assumes "0 < ps" "ps \<le> 2 ^ 30"
  shows "(computeLayout ps bc bs = None \<longleftrightarrow> \<not> validConfig bc bs)
    \<and> (SizeStandardLink ps bc bs = 0 \<longleftrightarrow> \<not> validConfig bc bs)
    \<and> (case computeLayout ps bc bs of None \<Rightarrow> True | Some l \<Rightarrow>
         unat superblockSize \<le> unat (ring0 l)
         \<and> unat (ring0 l) + unat (SizeMPMCRing packetSlotSize (of_int bc)) \<le> unat (buf0 l)
         \<and> unat (buf0 l) + nat bc * nat bs \<le> unat (ring1 l)
         \<and> unat (ring1 l) + unat (SizeMPMCRing packetSlotSize (of_int bc)) \<le> unat (buf1 l)
         \<and> unat (buf1 l) + nat bc * nat bs \<le> unat (total l) \<and> unat (total l) < 2 ^ 63
         \<and> list_all (\<lambda>x. unat ps dvd unat x) [ring0 l, buf0 l, ring1 l, buf1 l, total l])"
proof (cases "validConfig bc bs")
  case False
  then show ?thesis by (simp add: computeLayout_def SizeStandardLink_def)
next
  case True
  from computeLayout_Some [OF assms True] obtain l where l: "computeLayout ps bc bs = Some l"
    and lb: "384 \<le> unat (ring0 l)" "unat (ring0 l) + (512 + 128 * nat bc) \<le> unat (buf0 l)"
      "unat (buf0 l) + nat bc * nat bs \<le> unat (ring1 l)"
      "unat (ring1 l) + (512 + 128 * nat bc) \<le> unat (buf1 l)"
      "unat (buf1 l) + nat bc * nat bs \<le> unat (total l)" "unat (total l) < 2 ^ 63"
      "unat ps dvd unat (ring0 l)" "unat ps dvd unat (buf0 l)" "unat ps dvd unat (ring1 l)"
      "unat ps dvd unat (buf1 l)" "unat ps dvd unat (total l)" .
  have "total l \<noteq> 0" using lb by auto
  then show ?thesis
    using True lb ring_size(1) [OF True] by (simp add: l SizeStandardLink_def superblockSize_def)
qed

theorem link_layout_witness:
  "validConfig 64 4096 \<and> computeLayout 4096 64 4096 \<noteq> None \<and> SizeStandardLink 4096 48 4096 = 0"
proof -
  have v: "validConfig 64 4096" "\<not> validConfig 48 4096" by code_simp+
  show ?thesis using link_layout [of 4096 64 4096] link_layout [of 4096 48 4096] v by simp
qed

section \<open>Buffers of a region\<close>

lemma concat_chunks: "concat (map (\<lambda>i. take n (drop (i * n) xs)) [0..<k]) = take (k * n) xs"
proof (induction k)
  case 0
  show ?case by simp
next
  case (Suc k)
  then show ?case by (simp add: take_add add.commute [of n])
qed

lemma splitBuffers_concat: "length region = cnt * sz \<Longrightarrow> concat (splitBuffers region cnt sz) = region"
  by (simp add: splitBuffers_def concat_chunks)

lemma splitBuffers_nth:
  "length region = cnt * sz \<Longrightarrow> i < cnt \<Longrightarrow>
   splitBuffers region cnt sz ! i = slice_of (i * sz) sz region \<and> length (splitBuffers region cnt sz ! i) = sz"
proof -
  assume a: "length region = cnt * sz" "i < cnt"
  then have "Suc i * sz \<le> cnt * sz" by (intro mult_le_mono1) simp
  then have "sz \<le> length region - i * sz" by (simp add: a le_diff_conv2)
  then show ?thesis using a by (simp add: splitBuffers_def slice_of_def)
qed

section \<open>Listener segment and names\<close>

lemma length_hexDigits [simp]: "length (hexDigits k n) = k"
  by (induction k n rule: hexDigits.induct) simp_all

lemma isHex_hexDigit: "d < 16 \<Longrightarrow> isHex (hexDigit d)"
  by (auto simp: hexDigit_def isHex_def of_char_of take_bit_nat_eq_self Let_def)

lemma hexDigits_hex: "c \<in> set (hexDigits k n) \<Longrightarrow> isHex c"
  by (induction k n rule: hexDigits.induct) (auto simp: isHex_hexDigit)

lemma hexDigit_inj: "d < 16 \<Longrightarrow> e < 16 \<Longrightarrow> hexDigit d = hexDigit e \<Longrightarrow> d = e"
proof -
  have v: "d < 16 \<Longrightarrow> of_char (hexDigit d) = (if d < 10 then 48 + d else 87 + d)" for d
    by (simp add: hexDigit_def of_char_of take_bit_nat_eq_self)
  assume d: "d < 16" and e: "e < 16" and "hexDigit d = hexDigit e"
  then have "(of_char (hexDigit d) :: nat) = of_char (hexDigit e)" by simp
  then have "(if d < 10 then 48 + d else 87 + d) = (if e < 10 then 48 + e else 87 + e)"
    unfolding v [OF d] v [OF e] .
  then show "d = e" by (simp split: if_splits)
qed

lemma hexDigits_inj: "n < 16 ^ k \<Longrightarrow> m < 16 ^ k \<Longrightarrow> hexDigits k n = hexDigits k m \<Longrightarrow> n = m"
proof (induction k arbitrary: n m)
  case 0
  then show ?case by simp
next
  case (Suc k)
  then have "n div 16 = m div 16" by (intro Suc.IH) (simp_all add: less_mult_imp_div_less mult.commute)
  moreover have "n mod 16 = m mod 16" using Suc.prems(3) hexDigit_inj [of "n mod 16" "m mod 16"] by simp
  ultimately show ?case by (metis div_mult_mod_eq)
qed

lemma newLinkName_valid: "validLinkName prefix (newLinkName prefix token)"
  by (auto simp: validLinkName_def newLinkName_def hqq_consts dest: hexDigits_hex)

lemma newLinkName_inj: "newLinkName prefix t = newLinkName prefix u \<Longrightarrow> t = u"
proof -
  assume "newLinkName prefix t = newLinkName prefix u"
  then have "hexDigits 16 (unat t) = hexDigits 16 (unat u)" by (simp add: newLinkName_def hqq_consts)
  moreover have "unat t < 16 ^ 16" "unat u < 16 ^ 16"
    using unsigned_less [of t, where ?'a = nat] unsigned_less [of u, where ?'a = nat] by simp_all
  ultimately have "unat t = unat u" by (metis hexDigits_inj)
  then show "t = u" by (simp only: word_unat_eq_iff)
qed

lemma listenerLinkPrefix_length: "length (listenerLinkPrefix name) \<le> 20"
proof -
  obtain sc nm where sp: "splitScope name = (sc, nm)" by fastforce
  then have "length sc \<le> 7" by (auto simp: splitScope_def Let_def split: if_splits)
  then show ?thesis by (simp add: listenerLinkPrefix_def sp Let_def hqq_consts)
qed

lemma setName_recordName:
  assumes "setName name r = Some r'" shows "recordName r' = Some name"
proof -
  have l: "name \<noteq> []" "length name \<le> 184"
    using assms by (auto simp: setName_def hqq_consts split: if_splits)
  then have u: "unat (of_nat (length name) :: u64) = length name" by (intro unat_of_nat_self) simp
  then have "of_nat (length name) \<noteq> (0 :: u64)" using l(1) by (metis length_0_conv unat_0)
  moreover have "r' = r\<lparr>nameLen := of_nat (length name),
        cr_name := name @ replicate (listenerMaxNameLen - length name) (CHR 0x00)\<rparr>"
    using assms by (simp add: setName_def split: if_splits)
  ultimately show ?thesis using l u by (simp add: recordName_def hqq_consts)
qed

text \<open>
  C37: A link name that a client builds from the prefix of any listener always fits a connect
  record, is read back from the record unchanged, is accepted as a valid name of that listener
  and differs for different tokens; the prefix always fits the listener header.
\<close>

theorem link_name_roundtrip:
  "length (listenerLinkPrefix ln) \<le> listenerMaxPrefixLen
   \<and> (\<exists>r'. setName (newLinkName (listenerLinkPrefix ln) t) r = Some r'
        \<and> recordName r' = Some (newLinkName (listenerLinkPrefix ln) t)
        \<and> length (cr_name r') = listenerMaxNameLen)
   \<and> validLinkName (listenerLinkPrefix ln) (newLinkName (listenerLinkPrefix ln) t)
   \<and> (newLinkName (listenerLinkPrefix ln) t = newLinkName (listenerLinkPrefix ln) u) = (t = u)"
proof -
  let ?nm = "newLinkName (listenerLinkPrefix ln) t"
  have len: "length ?nm \<le> 36" "length ?nm \<noteq> 0"
    using listenerLinkPrefix_length [of ln] by (simp_all add: newLinkName_def hqq_consts)
  define r' where "r' = r\<lparr>nameLen := of_nat (length ?nm),
        cr_name := ?nm @ replicate (listenerMaxNameLen - length ?nm) (CHR 0x00)\<rparr>"
  have s: "setName ?nm r = Some r'" using len by (simp add: setName_def hqq_consts r'_def)
  have l: "length (cr_name r') = listenerMaxNameLen" using len(1) by (simp add: r'_def hqq_consts)
  show ?thesis
    using s setName_recordName [OF s] l newLinkName_valid newLinkName_inj listenerLinkPrefix_length [of ln]
    by (auto simp: hqq_consts)
qed

end
