(* ===== verification/Errors.thy ===== *)
theory Errors
  imports Hqq_Prelude
begin

text \<open>
  The error values of the package (\<^verbatim>\<open>src/errors.go\<close>, \<^verbatim>\<open>src/errors_listener.go\<close>) with the
  wrapping that \<^verbatim>\<open>errors.Is\<close> follows, and the error codes of the wire protocol. Errors of other
  packages that these wrap (\<^verbatim>\<open>net.ErrClosed\<close>, \<^verbatim>\<open>io.EOF\<close>, \<^verbatim>\<open>os.ErrDeadlineExceeded\<close>, \<^verbatim>\<open>os.ErrNotExist\<close>) are
  constructors of their own, as is the ring error \<^verbatim>\<open>mpmc.ErrCanceled\<close>;
  \<open>ExtErr\<close> is an error of the caller (a context, a callback), \<open>Wrapped\<close> one that \<^verbatim>\<open>fmt.Errorf\<close>
  wraps with a message of its own.
\<close>

record Geometry =
  g_BufferCount :: int
  g_BufferSize :: int
  g_LayoutSize :: u64
  g_PageSize :: u64

datatype err =
    NetErrClosed | IoEOF | OsErrDeadlineExceeded | OsErrNotExist | MpmcErrCanceled | ExtErr nat
  | ErrMemoryAlign | ErrInvalidSize | ErrMemorySmall | ErrFailedInit | ErrConnNotFound
  | ErrInvalidOp | ErrBufferOverflow | ErrTimeout
  | ErrClosed | ErrPeerClosed | ErrPeerGone | ErrLinkBusy | ErrIncompatibleLayout
  | ErrNotNegotiated | ErrAlreadyNegotiated | ErrNegotiationFailed | ErrNegotiationRejected
  | ErrUnexpectedPacket | ErrProtocol | ErrNotListening | ErrAlreadyListening
  | ErrIncomingOverflow | ErrMessageAborted | ErrShuttingDown | ErrReassemblyLimit | ErrInvalidName
  | errSegmentNotReady | errInitContended | errNoLiveEndpoint
  | ErrListenerBusy | ErrListenerClosed | ErrListenerGone | ErrAcceptorClosed
  | errListenerNotReady | errListenerDead | errInstanceMismatch | errBadRecord
  | UnknownCodeError u64 | GeometryError Geometry Geometry | ResponseError u64 bytes
  | Wrapped err

fun Unwrap :: "err \<Rightarrow> err option" where
  "Unwrap ErrTimeout = Some OsErrDeadlineExceeded"
| "Unwrap ErrClosed = Some NetErrClosed"
| "Unwrap ErrPeerClosed = Some IoEOF"
| "Unwrap ErrPeerGone = Some ErrConnNotFound"
| "Unwrap ErrLinkBusy = Some ErrFailedInit"
| "Unwrap ErrIncompatibleLayout = Some ErrFailedInit"
| "Unwrap ErrNotNegotiated = Some ErrInvalidOp"
| "Unwrap ErrAlreadyNegotiated = Some ErrInvalidOp"
| "Unwrap ErrNegotiationFailed = Some ErrInvalidOp"
| "Unwrap ErrNegotiationRejected = Some ErrInvalidOp"
| "Unwrap ErrUnexpectedPacket = Some ErrInvalidOp"
| "Unwrap ErrProtocol = Some ErrInvalidOp"
| "Unwrap ErrNotListening = Some ErrInvalidOp"
| "Unwrap ErrAlreadyListening = Some ErrInvalidOp"
| "Unwrap ErrIncomingOverflow = Some ErrBufferOverflow"
| "Unwrap ErrMessageAborted = Some ErrProtocol"
| "Unwrap ErrShuttingDown = Some ErrInvalidOp"
| "Unwrap ErrReassemblyLimit = Some ErrBufferOverflow"
| "Unwrap errSegmentNotReady = Some ErrFailedInit"
| "Unwrap errInitContended = Some ErrFailedInit"
| "Unwrap errNoLiveEndpoint = Some ErrFailedInit"
| "Unwrap ErrListenerBusy = Some ErrLinkBusy"
| "Unwrap ErrListenerClosed = Some ErrPeerClosed"
| "Unwrap ErrListenerGone = Some ErrPeerGone"
| "Unwrap ErrAcceptorClosed = Some ErrClosed"
| "Unwrap errListenerNotReady = Some ErrFailedInit"
| "Unwrap errListenerDead = Some ErrFailedInit"
| "Unwrap errInstanceMismatch = Some ErrConnNotFound"
| "Unwrap errBadRecord = Some ErrProtocol"
| "Unwrap (UnknownCodeError c) = Some ErrProtocol"
| "Unwrap (GeometryError w g) = Some ErrInvalidSize"
| "Unwrap (Wrapped e) = Some e"
| "Unwrap e = None"

definition ErrCodeMemoryAlign :: u64 where [hqq_consts]: "ErrCodeMemoryAlign = 0x01"
definition ErrCodeInvalidSize :: u64 where [hqq_consts]: "ErrCodeInvalidSize = 0x02"
definition ErrCodeMemorySmall :: u64 where [hqq_consts]: "ErrCodeMemorySmall = 0x03"
definition ErrCodeFailedInit :: u64 where [hqq_consts]: "ErrCodeFailedInit = 0x04"
definition ErrCodeConnNotFound :: u64 where [hqq_consts]: "ErrCodeConnNotFound = 0x05"
definition ErrCodeInvalidOp :: u64 where [hqq_consts]: "ErrCodeInvalidOp = 0x06"
definition ErrCodeBufferOverflow :: u64 where [hqq_consts]: "ErrCodeBufferOverflow = 0x07"
definition ErrCodeShuttingDown :: u64 where [hqq_consts]: "ErrCodeShuttingDown = 0x08"

definition ResponseError_Is :: "u64 \<Rightarrow> err \<Rightarrow> bool" where
  "ResponseError_Is status target \<longleftrightarrow> target = ErrShuttingDown \<and> status = ErrCodeShuttingDown"

text \<open>\<^verbatim>\<open>errors.Is\<close>: the value itself, its \<^verbatim>\<open>Is\<close> method, then what it wraps.\<close>

fun wrapDepth :: "err \<Rightarrow> nat" where
  "wrapDepth ErrListenerBusy = 3"
| "wrapDepth ErrListenerClosed = 3"
| "wrapDepth ErrListenerGone = 3"
| "wrapDepth ErrAcceptorClosed = 3"
| "wrapDepth ErrMessageAborted = 3"
| "wrapDepth errBadRecord = 3"
| "wrapDepth (UnknownCodeError c) = 3"
| "wrapDepth (Wrapped e) = Suc (wrapDepth e)"
| "wrapDepth e = (if Unwrap e = None then 0 else 2)"

lemma wrapDepth_Unwrap: "Unwrap e = Some b \<Longrightarrow> wrapDepth b < wrapDepth e"
  by (cases e) auto

function Is :: "err \<Rightarrow> err \<Rightarrow> bool" where
  "Is e target \<longleftrightarrow>
     e = target
     \<or> (case e of ResponseError status p \<Rightarrow> ResponseError_Is status target | _ \<Rightarrow> False)
     \<or> (case Unwrap e of None \<Rightarrow> False | Some b \<Rightarrow> Is b target)"
  by pat_completeness auto
termination
  by (relation "measure (wrapDepth \<circ> fst)") (auto dest: wrapDepth_Unwrap)

definition errorFromCode :: "u64 \<Rightarrow> err" where
  "errorFromCode code =
     (if code = ErrCodeMemoryAlign then ErrMemoryAlign
      else if code = ErrCodeInvalidSize then ErrInvalidSize
      else if code = ErrCodeMemorySmall then ErrMemorySmall
      else if code = ErrCodeFailedInit then ErrFailedInit
      else if code = ErrCodeConnNotFound then ErrConnNotFound
      else if code = ErrCodeInvalidOp then ErrInvalidOp
      else if code = ErrCodeShuttingDown then ErrShuttingDown
      else if code = ErrCodeBufferOverflow then ErrBufferOverflow
      else UnknownCodeError code)"

lemma Is_refl: "Is e e" by simp

lemma Is_unwrap: "Unwrap e = Some b \<Longrightarrow> Is b t \<Longrightarrow> Is e t"
  by (subst Is.simps) simp

lemma errorFromCode_inj: "errorFromCode a = errorFromCode b \<Longrightarrow> a = b"
  by (auto simp: errorFromCode_def split: if_splits)

end
