(* ===== verification/Superblock.thy ===== *)
theory Superblock
  imports Layout Errors
begin

text \<open>
  The superblock of a link segment (\<^verbatim>\<open>src/superblock.go\<close>) and the options that steer it
  (\<^verbatim>\<open>src/options.go\<close>): liveness of endpoints, the claim loop that decides the role of a new
  endpoint, the guarded initialization and its commit, and the peer monitor.

  The superblock is shared with other processes. An operation that reads it more than once
  takes an environment: \<open>e k\<close> is what the other endpoints do to the memory before the \<open>k\<close>-th
  group of accesses. Clock readings, the wall clock and the error of the context at each look are
  inputs. Durations and local times are nanoseconds; a Go \<^verbatim>\<open>time.Duration\<close> product wraps at
  64 bits. A zero \<^verbatim>\<open>time.Time\<close> is \<open>None\<close>.
\<close>

section \<open>Options\<close>

datatype LinkMode = LinkModePrimary | LinkModeSecondary

datatype attachRole = roleAny | roleCreator | roleOpener

record LinkOptions =
  o_WaitPolicy :: WaitPolicy
  HeartbeatInterval :: int
  PeerTimeout :: int
  AttachTimeout :: int
  o_parkers :: "bool \<times> bool"
  o_role :: attachRole
  o_creatorToken :: u64
  o_initStale :: int

definition ms :: int where [hqq_consts]: "ms = 1000000"
definition second :: int where [hqq_consts]: "second = 1000000000"
definition DefaultHeartbeatInterval :: int where [hqq_consts]: "DefaultHeartbeatInterval = 250 * ms"
definition DefaultPeerTimeout :: int where [hqq_consts]: "DefaultPeerTimeout = 5 * second"
definition DefaultAttachTimeout :: int where [hqq_consts]: "DefaultAttachTimeout = 5 * second"

definition normalized :: "LinkOptions \<Rightarrow> LinkOptions" where
  "normalized o1 =
     (let o2 = (if HeartbeatInterval o1 = 0 then o1\<lparr>HeartbeatInterval := DefaultHeartbeatInterval\<rparr> else o1);
          o3 = (if HeartbeatInterval o2 < 0 then o2\<lparr>HeartbeatInterval := 0\<rparr> else o2);
          o4 = (if PeerTimeout o3 \<le> 0 then o3\<lparr>PeerTimeout := DefaultPeerTimeout\<rparr> else o3) in
      if AttachTimeout o4 \<le> 0 then o4\<lparr>AttachTimeout := DefaultAttachTimeout\<rparr> else o4)"

text \<open>\<^verbatim>\<open>WaitPolicy.ring\<close>: the link and the ring use the same two policies.\<close>

definition ringPolicy :: "WaitPolicy \<Rightarrow> WaitPolicy" where
  "ringPolicy p = (if p = WaitSpin then WaitSpin else WaitAdaptive)"

definition initStaleWindow :: "LinkOptions \<Rightarrow> int" where
  "initStaleWindow opts =
     (if o_initStale opts > 0 then o_initStale opts else max (PeerTimeout opts) (2 * second))"

section \<open>The superblock\<close>

definition superblockMagic :: u64 where [hqq_consts]: "superblockMagic = 0x4851515f53544c33"
definition superblockMajor :: u64 where [hqq_consts]: "superblockMajor = 3"
definition superblockMinor :: u64 where [hqq_consts]: "superblockMinor = 0"
definition knownRequiredFeatures :: u64 where [hqq_consts]: "knownRequiredFeatures = 0"
definition superblockStateEmpty :: u64 where [hqq_consts]: "superblockStateEmpty = 0"
definition superblockStateInitializing :: u64 where [hqq_consts]: "superblockStateInitializing = 1"
definition superblockStateReady :: u64 where [hqq_consts]: "superblockStateReady = 2"
definition zeroSlice :: nat where [hqq_consts]: "zeroSlice = 262144"
definition detachedToken :: u64 where [hqq_consts]: "detachedToken = 1"
definition heartbeatFutureSlack :: int where [hqq_consts]: "heartbeatFutureSlack = second"

record endpointRecord =
  ep_token :: u64
  ep_pid :: u64
  ep_heartbeat :: u64
  ep_interval :: u64

record standardSuperblock =
  sb_magic :: u64
  sb_state :: u64
  sb_major :: u64
  sb_minor :: u64
  sb_pageSize :: u64
  sb_bufferCount :: u64
  sb_bufferSize :: u64
  sb_layoutSize :: u64
  sb_epoch :: u64
  sb_initToken :: u64
  sb_initHeartbeat :: u64
  sb_requiredFeatures :: u64
  sb_creatorToken :: u64
  sb_primary :: endpointRecord     \<comment> \<open>\<^verbatim>\<open>endpoints[0]\<close>\<close>
  sb_secondary :: endpointRecord   \<comment> \<open>\<^verbatim>\<open>endpoints[1]\<close>\<close>
  sb_rest :: "u64 list"            \<comment> \<open>the words of the page outside the fields above\<close>

definition endpoints :: "standardSuperblock \<Rightarrow> LinkMode \<Rightarrow> endpointRecord" where
  "endpoints sb i = (case i of LinkModePrimary \<Rightarrow> sb_primary sb | LinkModeSecondary \<Rightarrow> sb_secondary sb)"

definition set_endpoint :: "LinkMode \<Rightarrow> endpointRecord \<Rightarrow> standardSuperblock \<Rightarrow> standardSuperblock" where
  "set_endpoint i r sb =
     (case i of LinkModePrimary \<Rightarrow> sb\<lparr>sb_primary := r\<rparr> | LinkModeSecondary \<Rightarrow> sb\<lparr>sb_secondary := r\<rparr>)"

definition other :: "LinkMode \<Rightarrow> LinkMode" where
  "other i = (case i of LinkModePrimary \<Rightarrow> LinkModeSecondary | LinkModeSecondary \<Rightarrow> LinkModePrimary)"

definition zeroEndpoint :: endpointRecord where
  "zeroEndpoint = \<lparr>ep_token = 0, ep_pid = 0, ep_heartbeat = 0, ep_interval = 0\<rparr>"

definition isOwnerToken :: "u64 \<Rightarrow> bool" where
  "isOwnerToken t \<longleftrightarrow> t \<noteq> 0 \<and> t \<noteq> detachedToken"

text \<open>\<^verbatim>\<open>newToken\<close>: the first owner token of the stream of random words.\<close>

fun newToken :: "u64 list \<Rightarrow> u64 option" where
  "newToken [] = None"
| "newToken (t # ts) = (if t \<noteq> 0 \<and> t \<noteq> detachedToken then Some t else newToken ts)"

section \<open>Liveness\<close>

definition wrap64 :: "int \<Rightarrow> int" where
  "wrap64 v = sint (of_int v :: u64)"

definition wallAge :: "int \<Rightarrow> u64 \<Rightarrow> int" where
  "wallAge wall ts = wall - sint ts"

definition heartbeatFresh :: "int \<Rightarrow> u64 \<Rightarrow> int \<Rightarrow> bool" where
  "heartbeatFresh wall ts timeout \<longleftrightarrow>
     wallAge wall ts > - heartbeatFutureSlack \<and> wallAge wall ts < timeout"

definition effectivePeerTimeout :: "LinkOptions \<Rightarrow> int \<Rightarrow> int" where
  "effectivePeerTimeout opts interval =
     (let t = wrap64 (4 * interval) in if t > PeerTimeout opts then t else PeerTimeout opts)"

text \<open>
  One round of the progress watch: the clock before the round, the error of the interrupted
  sleep, and the record after the sleep. \<open>None\<close>: the observations ran out, the watch goes on.
\<close>

type_synonym alive_obs = "int \<times> err option \<times> endpointRecord"

fun aliveWatch :: "int \<Rightarrow> u64 \<Rightarrow> u64 \<Rightarrow> alive_obs list \<Rightarrow> (err + bool) option" where
  "aliveWatch till tok hb [] = None"
| "aliveWatch till tok hb ((now, slept, r) # obs) =
     (if \<not> now < till then Some (Inr False)
      else case slept of
        Some er \<Rightarrow> Some (Inl er)
      | None \<Rightarrow>
          if ep_heartbeat r \<noteq> hb \<or> ep_token r \<noteq> tok then Some (Inr (isOwnerToken (ep_token r)))
          else aliveWatch till tok hb obs)"

definition endpointAliveAtOpen ::
    "LinkOptions \<Rightarrow> int \<Rightarrow> int \<Rightarrow> alive_obs list \<Rightarrow> endpointRecord \<Rightarrow> (err + bool) option" where
  "endpointAliveAtOpen opts wall now obs r =
     (if \<not> isOwnerToken (ep_token r) then Some (Inr False)
      else
        let interval = sint (ep_interval r); hb = ep_heartbeat r in
        if interval \<le> 0 then Some (Inr True)
        else if hb = 0 then Some (Inr True)
        else if heartbeatFresh wall hb (effectivePeerTimeout opts interval) then Some (Inr True)
        else aliveWatch (now + min (wrap64 (3 * interval)) (2 * second)) (ep_token r) hb obs)"

definition sleepCtx :: "bool \<Rightarrow> err option \<Rightarrow> err option" where
  "sleepCtx canDone doneErr = (if \<not> canDone then None else doneErr)"

definition clearEndpoint :: "endpointRecord \<Rightarrow> endpointRecord" where
  "clearEndpoint r = r\<lparr>ep_token := 0, ep_pid := 0, ep_heartbeat := 0, ep_interval := 0\<rparr>"

definition fillEndpoint :: "u64 \<Rightarrow> u64 \<Rightarrow> LinkOptions \<Rightarrow> endpointRecord \<Rightarrow> endpointRecord" where
  "fillEndpoint pid nanos opts r =
     r\<lparr>ep_pid := pid, ep_interval := of_int (HeartbeatInterval opts), ep_heartbeat := nanos\<rparr>"

section \<open>Claiming a segment\<close>

record initWatch =
  iw_active :: bool
  iw_tok :: u64
  iw_hb :: u64
  iw_since :: int

definition zeroWatch :: initWatch where
  "zeroWatch = \<lparr>iw_active = False, iw_tok = 0, iw_hb = 0, iw_since = 0\<rparr>"

definition firstPageZero :: "standardSuperblock \<Rightarrow> bool" where
  "firstPageZero sb \<longleftrightarrow>
     list_all (\<lambda>v. v = 0)
       ([sb_magic sb, sb_state sb, sb_major sb, sb_minor sb, sb_pageSize sb, sb_bufferCount sb,
         sb_bufferSize sb, sb_layoutSize sb, sb_epoch sb, sb_initToken sb, sb_initHeartbeat sb,
         sb_requiredFeatures sb, sb_creatorToken sb] @ sb_rest sb)
     \<and> sb_primary sb = zeroEndpoint \<and> sb_secondary sb = zeroEndpoint"

definition checkLayoutCompat :: "standardSuperblock \<Rightarrow> bool \<Rightarrow> err option" where
  "checkLayoutCompat sb initializing =
     (if sb_requiredFeatures sb AND NOT knownRequiredFeatures \<noteq> 0 then Some ErrIncompatibleLayout
      else if \<not> initializing then
        (if sb_magic sb \<noteq> superblockMagic \<or> sb_major sb \<noteq> superblockMajor
         then Some ErrIncompatibleLayout else None)
      else if sb_magic sb \<noteq> 0 \<and> sb_magic sb \<noteq> superblockMagic then Some ErrIncompatibleLayout
      else if sb_major sb \<noteq> superblockMajor \<and> (sb_major sb \<noteq> 0 \<or> sb_initToken sb \<noteq> 0)
      then Some ErrIncompatibleLayout
      else None)"

definition stampLayout :: "standardSuperblock \<Rightarrow> standardSuperblock" where
  "stampLayout sb = sb\<lparr>sb_major := superblockMajor, sb_minor := superblockMinor, sb_requiredFeatures := 0\<rparr>"

text \<open>\<open>e\<close> is what others do between the stamp and the compare-and-swap.\<close>

definition beginInit ::
    "(standardSuperblock \<Rightarrow> standardSuperblock) \<Rightarrow> u64 \<Rightarrow> u64 \<Rightarrow> u64 \<Rightarrow> LinkOptions
     \<Rightarrow> standardSuperblock \<Rightarrow> bool \<times> standardSuperblock" where
  "beginInit e nanos token expected opts sb =
     (let sb1 = e (stampLayout sb) in
      if sb_initToken sb1 = expected
      then (True, sb1\<lparr>sb_initToken := token, sb_creatorToken := o_creatorToken opts, sb_initHeartbeat := nanos\<rparr>)
      else (False, sb1))"

datatype claim_out = ClaimErr err | Claimed LinkMode bool

text \<open>What one iteration of the claim loop sees.\<close>

record claimTurn =
  ct_ctxErr :: "err option"
  ct_env :: "nat \<Rightarrow> standardSuperblock \<Rightarrow> standardSuperblock"
  ct_now :: int
  ct_now2 :: int            \<comment> \<open>\<^verbatim>\<open>time.Since(emptySince)\<close> is taken here\<close>
  ct_wall :: int
  ct_prim :: "alive_obs list"
  ct_sec :: "alive_obs list"
  ct_limitNow :: int        \<comment> \<open>the clock of the deadline check\<close>
  ct_sinceNow :: int        \<comment> \<open>the clock of the second stall check\<close>
  ct_sleepErr :: "err option"

record claimParams =
  cp_pageSize :: u64
  cp_bufferCount :: int
  cp_bufferSize :: int
  cp_layoutSize :: u64
  cp_token :: u64
  cp_pid :: u64
  cp_opts :: LinkOptions

type_synonym claimState = "initWatch \<times> int option \<times> standardSuperblock"

definition geometryOf :: "standardSuperblock \<Rightarrow> Geometry" where
  "geometryOf sb = \<lparr>g_BufferCount = sint (sb_bufferCount sb), g_BufferSize = sint (sb_bufferSize sb),
     g_LayoutSize = sb_layoutSize sb, g_PageSize = sb_pageSize sb\<rparr>"

definition wantGeometry :: "claimParams \<Rightarrow> Geometry" where
  "wantGeometry p = \<lparr>g_BufferCount = cp_bufferCount p, g_BufferSize = cp_bufferSize p,
     g_LayoutSize = cp_layoutSize p, g_PageSize = cp_pageSize p\<rparr>"

text \<open>
  Winning an initialization after the state was swapped: the initializer token is read, the
  layout stamped, and the token swapped. Shared by the Empty and the Ready case.
\<close>

definition winInit :: "claimParams \<Rightarrow> claimTurn \<Rightarrow> standardSuperblock \<Rightarrow> claim_out \<times> standardSuperblock" where
  "winInit p t sb =
     (let sb1 = ct_env t 3 sb;
          (ok, sb2) = beginInit (ct_env t 4) (of_int (ct_wall t)) (cp_token p) (sb_initToken sb1) (cp_opts p) sb1 in
      (if ok then Claimed LinkModePrimary True else ClaimErr errInitContended, sb2))"

text \<open>
  The switch of one iteration. The first component is \<open>Inl\<close> of the result when the loop
  returns, \<open>Inr None\<close> for \<^verbatim>\<open>continue\<close>, and \<open>Inr (Some (stalling, emptyWait))\<close> when control
  reaches the end of the switch; \<open>None\<close> when a liveness watch is still running.
\<close>

type_synonym switch_out = "(claim_out + (bool \<times> bool) option) option"

definition claimEmpty :: "claimParams \<Rightarrow> claimTurn \<Rightarrow> int option \<Rightarrow> standardSuperblock
     \<Rightarrow> switch_out \<times> int option \<times> standardSuperblock" where
  "claimEmpty p t emptySince sb =
     (if \<not> firstPageZero sb then
        (let sb1 = ct_env t 1 sb in
         if sb_state sb1 \<noteq> superblockStateEmpty then (Some (Inr None), emptySince, sb1)
         else (Some (Inl (ClaimErr ErrIncompatibleLayout)), emptySince, sb1))
      else if o_role (cp_opts p) = roleOpener then
        (let since = (case emptySince of None \<Rightarrow> ct_now t | Some s \<Rightarrow> s) in
         if ct_now2 t - since \<ge> AttachTimeout (cp_opts p)
         then (Some (Inl (ClaimErr errSegmentNotReady)), Some since, sb)
         else (Some (Inr (Some (False, True))), Some since, sb))
      else
        (let sb1 = ct_env t 2 sb in
         if sb_state sb1 = superblockStateEmpty then
           (case winInit p t (sb1\<lparr>sb_state := superblockStateInitializing\<rparr>) of
              (out, sb2) \<Rightarrow> (Some (Inl out), emptySince, sb2))
         else (Some (Inr (Some (False, False))), emptySince, sb1)))"

definition claimInitializing :: "claimParams \<Rightarrow> claimTurn \<Rightarrow> initWatch \<Rightarrow> standardSuperblock
     \<Rightarrow> switch_out \<times> initWatch \<times> standardSuperblock" where
  "claimInitializing p t watch sb =
     (let tok = sb_initToken sb; hb = sb_initHeartbeat sb in
      case checkLayoutCompat sb True of
        Some er \<Rightarrow> (Some (Inl (ClaimErr er)), watch, sb)
      | None \<Rightarrow>
          if o_role (cp_opts p) = roleOpener then (Some (Inr (Some (False, False))), watch, sb)
          else if \<not> iw_active watch \<or> iw_tok watch \<noteq> tok \<or> iw_hb watch \<noteq> hb then
            (Some (Inr (Some (True, False))),
             \<lparr>iw_active = True, iw_tok = tok, iw_hb = hb, iw_since = ct_now t\<rparr>, sb)
          else if ct_now t - iw_since watch \<ge> initStaleWindow (cp_opts p) then
            (case beginInit (ct_env t 4) (of_int (ct_wall t)) (cp_token p) tok (cp_opts p) (ct_env t 3 sb) of
               (True, sb2) \<Rightarrow> (Some (Inl (Claimed LinkModePrimary True)), watch, sb2)
             | (False, sb2) \<Rightarrow> (Some (Inr (Some (True, False))), watch\<lparr>iw_active := False\<rparr>, sb2))
          else (Some (Inr (Some (True, False))), watch, sb))"

definition claimReady :: "claimParams \<Rightarrow> claimTurn \<Rightarrow> standardSuperblock
     \<Rightarrow> switch_out \<times> standardSuperblock" where
  "claimReady p t sb =
     (let opts = cp_opts p; role = o_role opts in
      case checkLayoutCompat sb False of
        Some er \<Rightarrow> (Some (Inl (ClaimErr er)), sb)
      | None \<Rightarrow>
      (case endpointAliveAtOpen opts (ct_wall t) (ct_now t) (ct_prim t) (sb_primary sb) of
        None \<Rightarrow> (None, sb)
      | Some (Inl er) \<Rightarrow> (Some (Inl (ClaimErr er)), sb)
      | Some (Inr primaryAlive) \<Rightarrow>
      (let sb1 = ct_env t 1 sb in
      case endpointAliveAtOpen opts (ct_wall t) (ct_now t) (ct_sec t) (sb_secondary sb1) of
        None \<Rightarrow> (None, sb1)
      | Some (Inl er) \<Rightarrow> (Some (Inl (ClaimErr er)), sb1)
      | Some (Inr secondaryAlive) \<Rightarrow>
        if \<not> primaryAlive \<and> \<not> secondaryAlive then
          if role = roleOpener then (Some (Inl (ClaimErr errNoLiveEndpoint)), sb1)
          else
            let sb2 = ct_env t 2 sb1 in
            if sb_state sb2 = superblockStateReady then
              (case winInit p t (sb2\<lparr>sb_state := superblockStateInitializing\<rparr>) of
                 (out, sb3) \<Rightarrow> (Some (Inl out), sb3))
            else (Some (Inr None), sb2)
        else if role = roleCreator then (Some (Inl (ClaimErr ErrLinkBusy)), sb1)
        else if geometryOf sb1 \<noteq> wantGeometry p
        then (Some (Inl (ClaimErr (GeometryError (wantGeometry p) (geometryOf sb1)))), sb1)
        else if primaryAlive \<and> ep_token (sb_secondary sb1) = 0 then
          let sb2 = ct_env t 2 sb1 in
          if ep_token (sb_secondary sb2) = 0 then
            (Some (Inl (Claimed LinkModeSecondary False)),
             sb2\<lparr>sb_secondary := fillEndpoint (cp_pid p) (of_int (ct_wall t)) opts
                                  ((sb_secondary sb2)\<lparr>ep_token := cp_token p\<rparr>)\<rparr>)
          else (Some (Inr None), sb2)
        else (Some (Inl (ClaimErr ErrLinkBusy)), sb1))))"

definition later :: "int \<Rightarrow> int \<Rightarrow> int" where
  "later a b = (if b > a then b else a)"

text \<open>The end of an iteration: the deadline checks and the sleep.\<close>

definition claimTail :: "claimParams \<Rightarrow> int \<Rightarrow> claimTurn \<Rightarrow> bool \<Rightarrow> bool \<Rightarrow> initWatch \<Rightarrow> claim_out option" where
  "claimTail p deadline t stalling emptyWait watch =
     (let staleInit = initStaleWindow (cp_opts p);
          limit = (if stalling \<and> iw_active watch \<and> iw_since watch < deadline
                   then later deadline (iw_since watch + staleInit) else deadline) in
      if \<not> emptyWait \<and> ct_limitNow t > limit then
        (if stalling \<and> iw_active watch \<and> ct_sinceNow t - iw_since watch \<ge> staleInit then None
         else Some (ClaimErr errInitContended))
      else map_option ClaimErr (ct_sleepErr t))"

definition claimSwitch :: "claimParams \<Rightarrow> claimTurn \<Rightarrow> claimState \<Rightarrow> switch_out \<times> claimState" where
  "claimSwitch p t = (\<lambda>(watch, emptySince, sb).
     (let st = sb_state sb;
          watch1 = (if st \<noteq> superblockStateInitializing then watch\<lparr>iw_active := False\<rparr> else watch);
          empty1 = (if st \<noteq> superblockStateEmpty then None else emptySince) in
      if st = superblockStateEmpty then
        (case claimEmpty p t empty1 sb of (out, es, sb') \<Rightarrow> (out, (watch1, es, sb')))
      else if st = superblockStateInitializing then
        (case claimInitializing p t watch1 sb of (out, w, sb') \<Rightarrow> (out, (w, empty1, sb')))
      else if st = superblockStateReady then
        (case claimReady p t sb of (out, sb') \<Rightarrow> (out, (watch1, empty1, sb')))
      else (Some (Inl (ClaimErr ErrIncompatibleLayout)), (watch1, empty1, sb))))"

text \<open>One iteration: \<open>Some (Inl r)\<close> returns, \<open>Some (Inr s)\<close> goes on with \<open>s\<close>.\<close>

definition claimIter :: "claimParams \<Rightarrow> int \<Rightarrow> claimTurn \<Rightarrow> claimState
     \<Rightarrow> (claim_out \<times> standardSuperblock + claimState) option" where
  "claimIter p deadline t = (\<lambda>(watch, emptySince, sb0).
     (let sb = ct_env t 0 sb0 in
      case ct_ctxErr t of
        Some er \<Rightarrow> Some (Inl (ClaimErr er, sb))
      | None \<Rightarrow>
          (case claimSwitch p t (watch, emptySince, sb) of
             (None, s) \<Rightarrow> None
           | (Some (Inl out), (w, es, sb')) \<Rightarrow> Some (Inl (out, sb'))
           | (Some (Inr None), s) \<Rightarrow> Some (Inr s)
           | (Some (Inr (Some (stalling, emptyWait))), (w, es, sb')) \<Rightarrow>
               (case claimTail p deadline t stalling emptyWait w of
                  Some out \<Rightarrow> Some (Inl (out, sb'))
                | None \<Rightarrow> Some (Inr (w, es, sb'))))))"

fun claimLoop :: "claimParams \<Rightarrow> int \<Rightarrow> claimTurn list \<Rightarrow> claimState
     \<Rightarrow> (claim_out \<times> standardSuperblock) option" where
  "claimLoop p deadline [] s = None"
| "claimLoop p deadline (t # ts) s =
     (case claimIter p deadline t s of
        None \<Rightarrow> None
      | Some (Inl r) \<Rightarrow> Some r
      | Some (Inr s') \<Rightarrow> claimLoop p deadline ts s')"

definition claimSuperblock :: "claimParams \<Rightarrow> int \<Rightarrow> claimTurn list \<Rightarrow> standardSuperblock
     \<Rightarrow> (claim_out \<times> standardSuperblock) option" where
  "claimSuperblock p now ts sb =
     claimLoop p (now + AttachTimeout (cp_opts p)) ts (zeroWatch, None, sb)"

section \<open>Initialization\<close>

text \<open>\<^verbatim>\<open>initSession.check\<close>, \<^verbatim>\<open>initSession.progress\<close>.\<close>

definition session_check :: "err option \<Rightarrow> u64 \<Rightarrow> standardSuperblock \<Rightarrow> err option" where
  "session_check ctxErr token sb =
     (case ctxErr of Some er \<Rightarrow> Some er
      | None \<Rightarrow> if sb_initToken sb \<noteq> token then Some errInitContended else None)"

definition session_progress :: "u64 \<Rightarrow> u64 \<Rightarrow> standardSuperblock \<Rightarrow> standardSuperblock" where
  "session_progress nanos token sb =
     (if sb_initToken sb = token then sb\<lparr>sb_initHeartbeat := nanos\<rparr> else sb)"

text \<open>
  \<^verbatim>\<open>zeroInChunks\<close> on a buffer that has \<open>done\<close> cleared bytes and \<open>b\<close> to go; \<open>check\<close> and \<open>progress\<close>
  act on the shared state.
\<close>

function zeroInChunks :: "nat \<Rightarrow> ('s \<Rightarrow> 'e option \<times> 's) \<Rightarrow> ('s \<Rightarrow> 's) \<Rightarrow> 's \<Rightarrow> bytes
     \<Rightarrow> 'e option \<times> 's \<times> bytes" where
  "zeroInChunks chunk check progress s b =
     (if b = [] \<or> chunk = 0 then (None, s, b)
      else case check s of
        (Some er, s1) \<Rightarrow> (Some er, s1, b)
      | (None, s1) \<Rightarrow>
          let n = min (length b) chunk in
          (case zeroInChunks chunk check progress (progress s1) (drop n b) of
             (r, s2, b2) \<Rightarrow> (r, s2, replicate n 0 @ b2)))"
  by pat_completeness auto
termination
  by (relation "measure (\<lambda>(chunk, check, progress, s, b). length b)") (auto simp: min_def)

definition session_zero :: "('s \<Rightarrow> 'e option \<times> 's) \<Rightarrow> ('s \<Rightarrow> 's) \<Rightarrow> 's \<Rightarrow> bytes \<Rightarrow> 'e option \<times> 's \<times> bytes" where
  "session_zero check progress s b = zeroInChunks zeroSlice check progress s b"

text \<open>The five write steps of \<^verbatim>\<open>publishSuperblock\<close>.\<close>

definition publishWrites :: "claimParams \<Rightarrow> u64 \<Rightarrow> (standardSuperblock \<Rightarrow> standardSuperblock) list" where
  "publishWrites p nanos =
     [stampLayout,
      \<lambda>sb. sb\<lparr>sb_pageSize := cp_pageSize p, sb_bufferCount := of_int (cp_bufferCount p),
              sb_bufferSize := of_int (cp_bufferSize p), sb_layoutSize := cp_layoutSize p\<rparr>,
      \<lambda>sb. sb\<lparr>sb_secondary := clearEndpoint (sb_secondary sb)\<rparr>,
      \<lambda>sb. sb\<lparr>sb_primary := fillEndpoint (cp_pid p) nanos (cp_opts p) ((sb_primary sb)\<lparr>ep_token := cp_token p\<rparr>)\<rparr>,
      \<lambda>sb. sb\<lparr>sb_magic := superblockMagic\<rparr>]"

definition commitInit :: "u64 \<Rightarrow> standardSuperblock \<Rightarrow> (err + u64) \<times> standardSuperblock" where
  "commitInit token sb =
     (if sb_initToken sb \<noteq> token then (Inl errInitContended, sb)
      else
        let sb1 = sb\<lparr>sb_initToken := 0\<rparr>;
            sb2 = sb1\<lparr>sb_epoch := sb_epoch sb1 + 1\<rparr> in
        (Inr (sb_epoch sb2), sb2\<lparr>sb_state := superblockStateReady\<rparr>))"

text \<open>\<open>e k\<close> acts before the check of step \<open>k\<close>, \<open>f k\<close> between that check and its write.\<close>

fun publishSteps ::
    "(nat \<Rightarrow> standardSuperblock \<Rightarrow> standardSuperblock) \<Rightarrow> (nat \<Rightarrow> standardSuperblock \<Rightarrow> standardSuperblock)
     \<Rightarrow> (nat \<Rightarrow> err option) \<Rightarrow> u64 \<Rightarrow> nat \<Rightarrow> (standardSuperblock \<Rightarrow> standardSuperblock) list
     \<Rightarrow> standardSuperblock \<Rightarrow> err option \<times> standardSuperblock" where
  "publishSteps e f ctxErr token k [] sb = (None, e k sb)"
| "publishSteps e f ctxErr token k (w # ws) sb =
     (let sb1 = e k sb in
      case session_check (ctxErr k) token sb1 of
        Some er \<Rightarrow> (Some er, sb1)
      | None \<Rightarrow> publishSteps e f ctxErr token (Suc k) ws (w (f k sb1)))"

definition publishSuperblock ::
    "(nat \<Rightarrow> standardSuperblock \<Rightarrow> standardSuperblock) \<Rightarrow> (nat \<Rightarrow> standardSuperblock \<Rightarrow> standardSuperblock)
     \<Rightarrow> (nat \<Rightarrow> err option) \<Rightarrow> claimParams \<Rightarrow> u64 \<Rightarrow> standardSuperblock
     \<Rightarrow> (err + u64) \<times> standardSuperblock" where
  "publishSuperblock e f ctxErr p nanos sb =
     (case publishSteps e f ctxErr (cp_token p) 0 (publishWrites p nanos) sb of
        (Some er, sb') \<Rightarrow> (Inl er, sb')
      | (None, sb') \<Rightarrow> commitInit (cp_token p) sb')"

section \<open>Peer monitor\<close>

datatype PeerState = PeerNotConnected | PeerConnected | PeerClosed | PeerGone

definition PeerState_err :: "PeerState \<Rightarrow> err option" where
  "PeerState_err s = (case s of PeerClosed \<Rightarrow> Some ErrPeerClosed | PeerGone \<Rightarrow> Some ErrPeerGone | _ \<Rightarrow> None)"

record peerMonitor =
  pm_status :: PeerState
  pm_token :: u64
  pm_lastHB :: u64
  pm_lastChange :: int

definition zeroMonitor :: peerMonitor where
  "zeroMonitor = \<lparr>pm_status = PeerNotConnected, pm_token = 0, pm_lastHB = 0, pm_lastChange = 0\<rparr>"

text \<open>The fields of a link that the monitor reads.\<close>

record linkIdent =
  li_self :: LinkMode
  li_token :: u64
  li_epoch :: u64
  li_opts :: LinkOptions

definition checkPeer :: "linkIdent \<Rightarrow> int \<Rightarrow> standardSuperblock \<Rightarrow> peerMonitor \<Rightarrow> err option \<times> peerMonitor" where
  "checkPeer l now sb m =
     (case PeerState_err (pm_status m) of
        Some er \<Rightarrow> (Some er, m)
      | None \<Rightarrow>
        if sb_epoch sb \<noteq> li_epoch l \<or> ep_token (endpoints sb (li_self l)) \<noteq> li_token l
        then (Some ErrPeerGone, m\<lparr>pm_status := PeerGone\<rparr>)
        else
          let r = endpoints sb (other (li_self l)); tok = ep_token r in
          if tok = detachedToken then (Some ErrPeerClosed, m\<lparr>pm_status := PeerClosed\<rparr>)
          else if pm_token m = 0 then
            (None, if tok \<noteq> 0
                   then m\<lparr>pm_token := tok, pm_lastHB := ep_heartbeat r, pm_lastChange := now,
                          pm_status := PeerConnected\<rparr>
                   else m)
          else if tok \<noteq> pm_token m then (Some ErrPeerGone, m\<lparr>pm_status := PeerGone\<rparr>)
          else
            let interval = sint (ep_interval r) in
            if interval \<le> 0 then (None, m)
            else if ep_heartbeat r \<noteq> pm_lastHB m
            then (None, m\<lparr>pm_lastHB := ep_heartbeat r, pm_lastChange := now\<rparr>)
            else if now - pm_lastChange m > effectivePeerTimeout (li_opts l) interval
            then (Some ErrPeerGone, m\<lparr>pm_status := PeerGone\<rparr>)
            else (None, m))"

text \<open>
  One tick of \<^verbatim>\<open>heartbeatLoop\<close>: the heartbeat, the look at the peer, and whether the blocked
  calls of both rings are woken (the third component).
\<close>

definition heartbeatTick :: "linkIdent \<Rightarrow> int \<Rightarrow> u64 \<Rightarrow> bool \<Rightarrow> standardSuperblock \<Rightarrow> peerMonitor
     \<Rightarrow> standardSuperblock \<times> peerMonitor \<times> bool \<times> bool" where
  "heartbeatTick l now nanos woken sb m =
     (let self = endpoints sb (li_self l);
          sb1 = (if ep_token self = li_token l
                 then set_endpoint (li_self l) (self\<lparr>ep_heartbeat := nanos\<rparr>) sb else sb) in
      case checkPeer l now sb1 m of
        (r, m') \<Rightarrow>
          if r \<noteq> None \<and> \<not> woken then (sb1, m', True, True) else (sb1, m', False, woken))"

fun heartbeatLoop :: "linkIdent \<Rightarrow> (int \<times> u64 \<times> (standardSuperblock \<Rightarrow> standardSuperblock)) list \<Rightarrow> bool
     \<Rightarrow> standardSuperblock \<Rightarrow> peerMonitor \<Rightarrow> standardSuperblock \<times> peerMonitor \<times> nat" where
  "heartbeatLoop l [] woken sb m = (sb, m, 0)"
| "heartbeatLoop l ((now, nanos, e) # ticks) woken sb m =
     (case heartbeatTick l now nanos woken (e sb) m of
        (sb', m', wake, woken') \<Rightarrow>
          (case heartbeatLoop l ticks woken' sb' m' of
             (sb'', m'', n) \<Rightarrow> (sb'', m'', if wake then Suc n else n)))"

section \<open>What a claim may do\<close>

text \<open>The part of a superblock that describes the layout, and what only initializers write.\<close>

definition layoutPart :: "standardSuperblock \<Rightarrow> Geometry \<times> u64 \<times> u64 \<times> u64" where
  "layoutPart sb = (geometryOf sb, sb_magic sb, sb_major sb, sb_requiredFeatures sb)"

definition corePart :: "standardSuperblock \<Rightarrow> u64 \<times> u64 \<times> u64 \<times> u64 \<times> (Geometry \<times> u64 \<times> u64 \<times> u64) \<times> endpointRecord" where
  "corePart sb = (sb_state sb, sb_initToken sb, sb_creatorToken sb, sb_epoch sb, layoutPart sb, sb_primary sb)"

definition keeps :: "(standardSuperblock \<Rightarrow> 'a) \<Rightarrow> claimTurn list \<Rightarrow> bool" where
  "keeps f ts \<longleftrightarrow> (\<forall>t \<in> set ts. \<forall>k s. f (ct_env t k s) = f s)"

lemma keeps_Cons [simp]: "keeps f (t # ts) \<longleftrightarrow> (\<forall>k s. f (ct_env t k s) = f s) \<and> keeps f ts"
  by (auto simp: keeps_def)

lemma checkLayoutCompat_layoutPart:
  "layoutPart a = layoutPart b \<Longrightarrow> checkLayoutCompat a False = checkLayoutCompat b False"
  by (simp add: layoutPart_def checkLayoutCompat_def)

text \<open>
  Joining in a turn \<open>t\<close> that read the segment \<open>s\<close>: it was ready and compatible with a live Primary, it
  had the wanted geometry a moment later, the second record was still free after that and got the
  token, and nothing else was written.
\<close>

definition joined :: "claimParams \<Rightarrow> claimTurn \<Rightarrow> standardSuperblock \<Rightarrow> standardSuperblock \<Rightarrow> bool" where
  "joined p t s sb' \<longleftrightarrow>
     (let s1 = ct_env t 1 s; s2 = ct_env t 2 s1 in
      sb_state s = superblockStateReady \<and> checkLayoutCompat s False = None
      \<and> endpointAliveAtOpen (cp_opts p) (ct_wall t) (ct_now t) (ct_prim t) (sb_primary s) = Some (Inr True)
      \<and> geometryOf s1 = wantGeometry p \<and> ep_token (sb_secondary s1) = 0 \<and> ep_token (sb_secondary s2) = 0
      \<and> sb' = s2\<lparr>sb_secondary := fillEndpoint (cp_pid p) (of_int (ct_wall t)) (cp_opts p)
                                  ((sb_secondary s2)\<lparr>ep_token := cp_token p\<rparr>)\<rparr>)"

definition granted :: "claimParams \<Rightarrow> claimTurn \<Rightarrow> claim_out \<Rightarrow> standardSuperblock \<Rightarrow> bool" where
  "granted p t out sb \<longleftrightarrow>
     (case out of
        ClaimErr er \<Rightarrow> True
      | Claimed LinkModePrimary i \<Rightarrow>
          i \<and> o_role (cp_opts p) \<noteq> roleOpener \<and> sb_initToken sb = cp_token p
          \<and> sb_creatorToken sb = o_creatorToken (cp_opts p)
      | Claimed LinkModeSecondary i \<Rightarrow>
          \<not> i \<and> o_role (cp_opts p) \<noteq> roleCreator \<and> (\<exists>s. joined p t s sb))"

lemma granted_err [simp]: "granted p t (ClaimErr er) sb"
  by (simp add: granted_def)

lemma winInit_granted: "winInit p t sb = (out, sb') \<Longrightarrow> o_role (cp_opts p) \<noteq> roleOpener \<Longrightarrow> granted p t out sb'"
  by (auto simp: winInit_def beginInit_def granted_def Let_def split: if_splits)

lemma claimEmpty_granted:
  "claimEmpty p t es sb = (Some (Inl out), es', sb') \<Longrightarrow> granted p t out sb'"
  by (auto simp: claimEmpty_def Let_def winInit_granted split: if_splits prod.splits option.splits)

lemma claimInitializing_granted:
  "claimInitializing p t w sb = (Some (Inl out), w', sb') \<Longrightarrow> granted p t out sb'"
  by (auto simp: claimInitializing_def Let_def granted_def beginInit_def
      split: if_splits prod.splits option.splits bool.splits)

lemma claimReady_granted:
  assumes "claimReady p t sb = (Some (Inl out), sb')" "sb_state sb = superblockStateReady"
  shows "granted p t out sb'"
proof -
  have join: "granted p t (Claimed LinkModeSecondary False) sb2"
    if "joined p t sb sb2" "o_role (cp_opts p) \<noteq> roleCreator" for sb2
    using that by (auto simp: granted_def)
  show ?thesis
    using assms
    by (auto simp: claimReady_def Let_def winInit_granted intro!: join
        split: if_splits prod.splits option.splits sum.splits) (simp_all add: joined_def Let_def)
qed

lemma claimSwitch_granted:
  assumes "claimSwitch p t (w, es, sb) = (Some (Inl out), w', es', sb')"
  shows "granted p t out sb'"
proof -
  let ?w = "if sb_state sb \<noteq> superblockStateInitializing then w\<lparr>iw_active := False\<rparr> else w"
  let ?es = "if sb_state sb \<noteq> superblockStateEmpty then None else es"
  consider (a) "claimEmpty p t ?es sb = (Some (Inl out), es', sb')"
    | (b) "claimInitializing p t ?w sb = (Some (Inl out), w', sb')"
    | (c) "claimReady p t sb = (Some (Inl out), sb')" "sb_state sb = superblockStateReady"
    | (d) "out = ClaimErr ErrIncompatibleLayout"
    using assms(1) unfolding claimSwitch_def by (auto simp: Let_def split: if_splits prod.splits)
  then show ?thesis
  proof cases
    case a
    then show ?thesis by (rule claimEmpty_granted)
  next
    case b
    then show ?thesis by (rule claimInitializing_granted)
  next
    case c
    then show ?thesis by (rule claimReady_granted)
  next
    case d
    then show ?thesis by simp
  qed
qed

lemma claimTail_err: "claimTail p d t st ew w = Some out \<Longrightarrow> \<exists>er. out = ClaimErr er"
  by (auto simp: claimTail_def Let_def split: if_splits)

lemma claimIter_granted:
  assumes "claimIter p d t s = Some (Inl (out, sb'))"
  shows "granted p t out sb'"
proof -
  obtain w es sb where s: "s = (w, es, sb)" by (cases s)
  consider er where "out = ClaimErr er"
    | w' es' where "claimSwitch p t (w, es, ct_env t 0 sb) = (Some (Inl out), w', es', sb')"
    using assms claimTail_err unfolding claimIter_def s
    by (fastforce simp: Let_def split: option.splits prod.splits sum.splits)
  then show ?thesis
  proof cases
    case 1
    then show ?thesis by simp
  next
    case 2
    then show ?thesis by (rule claimSwitch_granted)
  qed
qed

lemma claimLoop_granted:
  assumes "claimLoop p d ts s = Some (out, sb')"
  shows "\<exists>k < length ts. claimLoop p d (take k ts) s = None \<and> claimLoop p d (take (Suc k) ts) s = Some (out, sb')
    \<and> granted p (ts ! k) out sb'"
  using assms
proof (induction ts arbitrary: s)
  case Nil
  then show ?case by simp
next
  case (Cons t ts)
  from Cons.prems consider "claimIter p d t s = Some (Inl (out, sb'))"
    | s' where "claimIter p d t s = Some (Inr s')" "claimLoop p d ts s' = Some (out, sb')"
    by (auto split: option.splits sum.splits)
  then show ?case
  proof cases
    case 1
    then show ?thesis using claimIter_granted [OF 1] by (intro exI [of _ 0]) simp
  next
    case 2
    then obtain k where "k < length ts" "claimLoop p d (take k ts) s' = None"
      "claimLoop p d (take (Suc k) ts) s' = Some (out, sb')" "granted p (ts ! k) out sb'" using Cons.IH by blast
    then show ?thesis using 2(1) by (intro exI [of _ "Suc k"]) simp
  qed
qed

lemma joined_layout:
  assumes "joined p t s sb'" "layoutPart (ct_env t 1 s) = layoutPart s"
    "layoutPart (ct_env t 2 (ct_env t 1 s)) = layoutPart (ct_env t 1 s)"
  shows "geometryOf sb' = wantGeometry p \<and> checkLayoutCompat sb' False = None"
proof -
  have "layoutPart sb' = layoutPart s"
    using assms by (auto simp: joined_def Let_def layoutPart_def geometryOf_def)
  then show ?thesis using assms(1,2) checkLayoutCompat_layoutPart [of sb' s] by (auto simp: joined_def Let_def layoutPart_def)
qed

text \<open>An opener writes nothing but the record of the secondary endpoint.\<close>

lemma claimIter_opener:
  assumes "o_role (cp_opts p) = roleOpener" "\<forall>k s. corePart (ct_env t k s) = corePart s"
  shows "(claimIter p d t (w, es, sb) = Some (Inl (out, sb')) \<longrightarrow> corePart sb' = corePart sb)
    \<and> (claimIter p d t (w, es, sb) = Some (Inr (w', es', sb'')) \<longrightarrow> corePart sb'' = corePart sb)"
proof -
  have sw: "corePart sb2 = corePart sb1" if "claimSwitch p t (w1, es1, sb1) = (r, w2, es2, sb2)" for w1 es1 sb1 r w2 es2 sb2
    using that assms
    by (auto simp: claimSwitch_def claimEmpty_def claimInitializing_def claimReady_def Let_def
        corePart_def [of "_\<lparr>sb_secondary := _\<rparr>"] layoutPart_def geometryOf_def corePart_def
        split: if_splits prod.splits option.splits sum.splits)
  show ?thesis
    using sw assms(2) unfolding claimIter_def
    by (fastforce simp: Let_def split: option.splits prod.splits sum.splits)
qed

lemma claimLoop_opener:
  assumes "o_role (cp_opts p) = roleOpener" "keeps corePart ts" "claimLoop p d ts (w, es, sb) = Some (out, sb')"
  shows "corePart sb' = corePart sb"
  using assms(2,3)
proof (induction ts arbitrary: w es sb)
  case Nil
  then show ?case by simp
next
  case (Cons t ts)
  have env: "\<forall>k s. corePart (ct_env t k s) = corePart s" using Cons.prems(1) by simp
  note it = claimIter_opener [OF assms(1) env]
  from Cons.prems consider "claimIter p d t (w, es, sb) = Some (Inl (out, sb'))"
    | w1 es1 sb1 where "claimIter p d t (w, es, sb) = Some (Inr (w1, es1, sb1))"
        "claimLoop p d ts (w1, es1, sb1) = Some (out, sb')"
    by (auto split: option.splits sum.splits)
  then show ?case
  proof cases
    case 1
    then show ?thesis using it by blast
  next
    case 2
    then have "corePart sb1 = corePart sb" using it by blast
    moreover have "keeps corePart ts" using Cons.prems(1) by simp
    ultimately show ?thesis using Cons.IH [OF _ 2(2)] by simp
  qed
qed

lemma claimSwitch_quiet:
  assumes "\<forall>k s. ct_env t k s = s" "claimSwitch p t (w, es, sb) = (r, w', es', sb')"
    "\<And>m i. r \<noteq> Some (Inl (Claimed m i))"
  shows "sb' = sb"
  using assms
  by (auto simp: claimSwitch_def claimEmpty_def claimInitializing_def claimReady_def Let_def
      winInit_def beginInit_def stampLayout_def
      split: if_splits prod.splits option.splits sum.splits bool.splits)

lemma claimIter_quiet:
  assumes "\<forall>k s. ct_env t k s = s"
  shows "(claimIter p d t (w, es, sb) = Some (Inl (ClaimErr er, sb')) \<longrightarrow> sb' = sb)
    \<and> (claimIter p d t (w, es, sb) = Some (Inr (w', es', sb'')) \<longrightarrow> sb'' = sb)"
  using assms claimSwitch_quiet [OF assms, of p w es sb] unfolding claimIter_def
  by (fastforce simp: Let_def split: option.splits prod.splits sum.splits)

lemma claimLoop_quiet:
  assumes "keeps id ts" "claimLoop p d ts (w, es, sb) = Some (ClaimErr er, sb')"
  shows "sb' = sb"
  using assms
proof (induction ts arbitrary: w es)
  case Nil
  then show ?case by simp
next
  case (Cons t ts)
  have id: "\<forall>k s. ct_env t k s = s" using Cons.prems(1) by simp
  from Cons.prems consider "claimIter p d t (w, es, sb) = Some (Inl (ClaimErr er, sb'))"
    | w1 es1 sb1 where "claimIter p d t (w, es, sb) = Some (Inr (w1, es1, sb1))"
        "claimLoop p d ts (w1, es1, sb1) = Some (ClaimErr er, sb')"
    by (auto split: option.splits sum.splits)
  then show ?case
  proof cases
    case 1
    then show ?thesis using claimIter_quiet [OF id] by blast
  next
    case 2
    then have "sb1 = sb" using claimIter_quiet [OF id] by blast
    then show ?thesis using Cons.IH 2(2) Cons.prems(1) by simp
  qed
qed

text \<open>
  C14: A claim that succeeds, whatever the other endpoints did meanwhile, is one of two things.
  Either the endpoint is the Primary, owns the initialization (its token is in place, with its
  creator token) and was not an opener; or it is the Secondary and was not a creator. Then the last
  turn of its loop, however long it waited before, found a ready segment with a compatible layout
  and a live Primary, then the geometry it asked for, then the second record free, and put its token
  there and wrote nothing else. If nobody changed the layout fields between these reads and that
  write, the segment has the layout version and the geometry it asked for.
\<close>

theorem claim_roles:
  assumes "claimSuperblock p now ts sb = Some (Claimed mode mustInit, sb')"
  shows "(mode = LinkModePrimary \<and> mustInit \<and> o_role (cp_opts p) \<noteq> roleOpener
            \<and> sb_initToken sb' = cp_token p \<and> sb_creatorToken sb' = o_creatorToken (cp_opts p))
    \<or> (mode = LinkModeSecondary \<and> \<not> mustInit \<and> o_role (cp_opts p) \<noteq> roleCreator
            \<and> ep_token (sb_secondary sb') = cp_token p
            \<and> (\<exists>k < length ts. \<exists>s. claimSuperblock p now (take k ts) sb = None
                 \<and> claimSuperblock p now (take (Suc k) ts) sb = Some (Claimed mode mustInit, sb')
                 \<and> joined p (ts ! k) s sb'
                 \<and> (layoutPart (ct_env (ts ! k) 1 s) = layoutPart s
                    \<and> layoutPart (ct_env (ts ! k) 2 (ct_env (ts ! k) 1 s)) = layoutPart (ct_env (ts ! k) 1 s)
                    \<longrightarrow> geometryOf sb' = wantGeometry p \<and> checkLayoutCompat sb' False = None)))"
proof -
  obtain k where k: "k < length ts" "claimSuperblock p now (take k ts) sb = None"
    "claimSuperblock p now (take (Suc k) ts) sb = Some (Claimed mode mustInit, sb')" "granted p (ts ! k) (Claimed mode mustInit) sb'"
    using claimLoop_granted assms unfolding claimSuperblock_def by blast
  show ?thesis
  proof (cases mode)
    case LinkModePrimary
    then show ?thesis using k(4) by (simp add: granted_def)
  next
    case LinkModeSecondary
    then obtain s where s: "\<not> mustInit" "o_role (cp_opts p) \<noteq> roleCreator" "joined p (ts ! k) s sb'"
      using k(4) by (auto simp: granted_def)
    have "ep_token (sb_secondary sb') = cp_token p" using s(3) by (simp add: joined_def Let_def fillEndpoint_def)
    then show ?thesis using LinkModeSecondary s k(1-3) joined_layout [OF s(3)] by blast
  qed
qed

text \<open>
  An opener never touches the state, the initializer and creator tokens, the epoch, the layout
  fields or the record of the Primary; and a claim that fails while nobody else writes leaves the
  whole segment as it was, foreign data included.
\<close>

theorem claim_frame:
  assumes "claimSuperblock p now ts sb = Some (out, sb')"
  shows "(o_role (cp_opts p) = roleOpener \<and> keeps corePart ts \<longrightarrow> corePart sb' = corePart sb)
    \<and> (keeps id ts \<and> (\<exists>er. out = ClaimErr er) \<longrightarrow> sb' = sb)"
  using assms claimLoop_opener [of p ts] claimLoop_quiet [of ts p] unfolding claimSuperblock_def by blast

section \<open>A session from an empty segment\<close>

definition quietTurn :: "claimTurn \<Rightarrow> bool" where
  "quietTurn t \<longleftrightarrow> (\<forall>k s. ct_env t k s = s) \<and> ct_ctxErr t = None"

lemma alive_fresh:
  assumes "isOwnerToken tok" "0 \<le> w" "w < 2 ^ 63" "- second < wall - w" "wall - w < PeerTimeout opts"
  shows "endpointAliveAtOpen opts wall now obs (fillEndpoint pid (of_int w) o1 (r\<lparr>ep_token := tok\<rparr>)) = Some (Inr True)"
proof -
  have "sint (of_int w :: u64) = w" using assms(2,3) by (intro sint_of_int_self) simp_all
  moreover have "PeerTimeout opts \<le> effectivePeerTimeout opts i" for i
    by (simp add: effectivePeerTimeout_def Let_def)
  then have "wall - w < effectivePeerTimeout opts i" for i using assms(5) by (meson less_le_trans)
  ultimately show ?thesis
    using assms(1,4) by (simp add: endpointAliveAtOpen_def fillEndpoint_def heartbeatFresh_def wallAge_def
        heartbeatFutureSlack_def Let_def)
qed

lemma claimSuperblock_iter:
  "claimIter p (now + AttachTimeout (cp_opts p)) t (zeroWatch, None, sb) = Some (Inl r) \<Longrightarrow>
   claimSuperblock p now [t] sb = Some r"
  by (simp add: claimSuperblock_def)

lemma claim_empty:
  assumes "quietTurn t" "firstPageZero sb" "o_role (cp_opts p) \<noteq> roleOpener"
  shows "claimSuperblock p now [t] sb = Some (Claimed LinkModePrimary True,
    (stampLayout sb)\<lparr>sb_state := superblockStateInitializing, sb_initToken := cp_token p,
       sb_creatorToken := o_creatorToken (cp_opts p), sb_initHeartbeat := of_int (ct_wall t)\<rparr>)"
proof (rule claimSuperblock_iter)
  have "sb_state sb = superblockStateEmpty" using assms(2) by (simp add: firstPageZero_def superblockStateEmpty_def)
  then show "claimIter p (now + AttachTimeout (cp_opts p)) t (zeroWatch, None, sb) = Some (Inl (Claimed LinkModePrimary True,
    (stampLayout sb)\<lparr>sb_state := superblockStateInitializing, sb_initToken := cp_token p,
       sb_creatorToken := o_creatorToken (cp_opts p), sb_initHeartbeat := of_int (ct_wall t)\<rparr>))"
    using assms by (simp add: quietTurn_def claimIter_def claimSwitch_def claimEmpty_def winInit_def
        beginInit_def stampLayout_def Let_def)
qed

text \<open>The superblock after an undisturbed publication.\<close>

definition published :: "claimParams \<Rightarrow> u64 \<Rightarrow> standardSuperblock \<Rightarrow> standardSuperblock" where
  "published p nanos sb =
     (stampLayout sb)\<lparr>sb_magic := superblockMagic, sb_state := superblockStateReady,
        sb_pageSize := cp_pageSize p, sb_bufferCount := of_int (cp_bufferCount p),
        sb_bufferSize := of_int (cp_bufferSize p), sb_layoutSize := cp_layoutSize p,
        sb_epoch := sb_epoch sb + 1, sb_initToken := 0,
        sb_primary := fillEndpoint (cp_pid p) nanos (cp_opts p) ((sb_primary sb)\<lparr>ep_token := cp_token p\<rparr>),
        sb_secondary := clearEndpoint (sb_secondary sb)\<rparr>"

lemma publish_quiet:
  assumes "sb_initToken sb = cp_token p"
  shows "publishSuperblock (\<lambda>k s. s) (\<lambda>k s. s) (\<lambda>k. None) p nanos sb = (Inr (sb_epoch sb + 1), published p nanos sb)"
  using assms by (simp add: publishSuperblock_def publishWrites_def session_check_def commitInit_def published_def
      stampLayout_def Let_def)

lemma geometry_published:
  assumes "0 \<le> cp_bufferCount p" "cp_bufferCount p < 2 ^ 63" "0 \<le> cp_bufferSize p" "cp_bufferSize p < 2 ^ 63"
  shows "geometryOf (published p nanos sb) = wantGeometry p"
proof -
  have "sint (of_int (cp_bufferCount p) :: u64) = cp_bufferCount p" "sint (of_int (cp_bufferSize p) :: u64) = cp_bufferSize p"
    using assms by (auto intro!: sint_of_int_self)
  then show ?thesis by (simp add: geometryOf_def wantGeometry_def published_def)
qed

lemma compat_published: "checkLayoutCompat (published p nanos sb) False = None"
  by (simp add: checkLayoutCompat_def published_def stampLayout_def)

text \<open>A Ready segment with a live Primary: the next endpoint joins, or finds it busy.\<close>

lemma claim_ready_iter:
  assumes q: "quietTurn t" and st: "sb_state sb = superblockStateReady" and c: "checkLayoutCompat sb False = None"
    and pa: "endpointAliveAtOpen (cp_opts p) (ct_wall t) (ct_now t) (ct_prim t) (sb_primary sb) = Some (Inr True)"
    and sa: "endpointAliveAtOpen (cp_opts p) (ct_wall t) (ct_now t) (ct_sec t) (sb_secondary sb) = Some (Inr s)"
  shows "claimSuperblock p now [t] sb =
    Some (if o_role (cp_opts p) = roleCreator then (ClaimErr ErrLinkBusy, sb)
          else if geometryOf sb \<noteq> wantGeometry p then (ClaimErr (GeometryError (wantGeometry p) (geometryOf sb)), sb)
          else if ep_token (sb_secondary sb) = 0
          then (Claimed LinkModeSecondary False,
                sb\<lparr>sb_secondary := fillEndpoint (cp_pid p) (of_int (ct_wall t)) (cp_opts p)
                    ((sb_secondary sb)\<lparr>ep_token := cp_token p\<rparr>)\<rparr>)
          else (ClaimErr ErrLinkBusy, sb))"
proof (rule claimSuperblock_iter)
  have ne: "superblockStateReady \<noteq> superblockStateEmpty" "superblockStateReady \<noteq> superblockStateInitializing"
    by (simp_all add: hqq_consts)
  show "claimIter p (now + AttachTimeout (cp_opts p)) t (zeroWatch, None, sb) =
    Some (Inl (if o_role (cp_opts p) = roleCreator then (ClaimErr ErrLinkBusy, sb)
          else if geometryOf sb \<noteq> wantGeometry p then (ClaimErr (GeometryError (wantGeometry p) (geometryOf sb)), sb)
          else if ep_token (sb_secondary sb) = 0
          then (Claimed LinkModeSecondary False,
                sb\<lparr>sb_secondary := fillEndpoint (cp_pid p) (of_int (ct_wall t)) (cp_opts p)
                    ((sb_secondary sb)\<lparr>ep_token := cp_token p\<rparr>)\<rparr>)
          else (ClaimErr ErrLinkBusy, sb)))"
    using q c pa sa ne by (simp add: quietTurn_def claimIter_def claimSwitch_def claimReady_def Let_def st)
qed

text \<open>
  C15: The life of a session. On an all-zero segment the first endpoint wins the initialization;
  its undisturbed publication makes the segment Ready with the next epoch; a second endpoint with
  the same geometry joins as the Secondary, one with another geometry gets a geometry error
  that names both; and while both heartbeats are fresh a third endpoint is refused with
  \<^verbatim>\<open>ErrLinkBusy\<close> and changes nothing.
\<close>

theorem session_lifecycle:
  assumes z: "firstPageZero sb0" and q: "quietTurn t1" "quietTurn t2" "quietTurn t3"
    and r1: "o_role (cp_opts p1) \<noteq> roleOpener" and r2: "o_role (cp_opts p2) \<noteq> roleCreator"
    and tok: "isOwnerToken (cp_token p1)" "isOwnerToken (cp_token p2)"
    and cfg: "validConfig (cp_bufferCount p1) (cp_bufferSize p1)"
    and clock: "0 \<le> w1" "w1 < 2 ^ 63" "0 \<le> ct_wall t2" "ct_wall t2 < 2 ^ 63"
      "- second < ct_wall t2 - w1" "ct_wall t2 - w1 < PeerTimeout (cp_opts p2)"
      "- second < ct_wall t3 - w1" "ct_wall t3 - w1 < PeerTimeout (cp_opts p3)"
      "- second < ct_wall t3 - ct_wall t2" "ct_wall t3 - ct_wall t2 < PeerTimeout (cp_opts p3)"
  shows "\<exists>sb1 sb2.
    claimSuperblock p1 n1 [t1] sb0 = Some (Claimed LinkModePrimary True, sb1)
    \<and> publishSuperblock (\<lambda>k s. s) (\<lambda>k s. s) (\<lambda>k. None) p1 (of_int w1) sb1 = (Inr (sb_epoch sb0 + 1), sb2)
    \<and> sb_state sb2 = superblockStateReady \<and> sb_epoch sb2 = sb_epoch sb0 + 1
    \<and> (if wantGeometry p2 \<noteq> wantGeometry p1
       then claimSuperblock p2 n2 [t2] sb2 = Some (ClaimErr (GeometryError (wantGeometry p2) (wantGeometry p1)), sb2)
       else \<exists>sb3. claimSuperblock p2 n2 [t2] sb2 = Some (Claimed LinkModeSecondary False, sb3)
              \<and> ep_token (sb_primary sb3) = cp_token p1 \<and> ep_token (sb_secondary sb3) = cp_token p2
              \<and> (wantGeometry p3 = wantGeometry p1
                 \<longrightarrow> claimSuperblock p3 n3 [t3] sb3 = Some (ClaimErr ErrLinkBusy, sb3)))"
proof -
  define sb1 where "sb1 = (stampLayout sb0)\<lparr>sb_state := superblockStateInitializing, sb_initToken := cp_token p1,
       sb_creatorToken := o_creatorToken (cp_opts p1), sb_initHeartbeat := of_int (ct_wall t1)\<rparr>"
  define sb2 where "sb2 = published p1 (of_int w1) sb1"
  define sb3 where "sb3 = sb2\<lparr>sb_secondary := fillEndpoint (cp_pid p2) (of_int (ct_wall t2)) (cp_opts p2)
                    ((sb_secondary sb2)\<lparr>ep_token := cp_token p2\<rparr>)\<rparr>"
  have c1: "claimSuperblock p1 n1 [t1] sb0 = Some (Claimed LinkModePrimary True, sb1)"
    using claim_empty [OF q(1) z r1] by (simp add: sb1_def)
  have "sb_epoch sb1 = sb_epoch sb0" by (simp add: sb1_def stampLayout_def)
  then have pub: "publishSuperblock (\<lambda>k s. s) (\<lambda>k s. s) (\<lambda>k. None) p1 (of_int w1) sb1 = (Inr (sb_epoch sb0 + 1), sb2)"
    and ep: "sb_epoch sb2 = sb_epoch sb0 + 1"
    using publish_quiet [of sb1 p1] by (simp_all add: sb2_def sb1_def published_def)
  have st: "sb_state sb2 = superblockStateReady" "sb_state sb3 = superblockStateReady"
    by (simp_all add: sb3_def sb2_def published_def)
  have g: "geometryOf sb2 = wantGeometry p1"
    unfolding sb2_def using cfg by (intro geometry_published) (simp_all add: validConfig_def hqq_consts)
  have cc: "checkLayoutCompat sb2 False = None" by (simp add: sb2_def compat_published)
  have lp: "layoutPart sb3 = layoutPart sb2" by (simp add: sb3_def layoutPart_def geometryOf_def)
  then have g3: "geometryOf sb3 = wantGeometry p1" and cc3: "checkLayoutCompat sb3 False = None"
    using g cc checkLayoutCompat_layoutPart [OF lp] by (simp_all add: layoutPart_def)
  have prim: "sb_primary sb2 = fillEndpoint (cp_pid p1) (of_int w1) (cp_opts p1) ((sb_primary sb1)\<lparr>ep_token := cp_token p1\<rparr>)"
    "sb_primary sb3 = sb_primary sb2" by (simp_all add: sb3_def sb2_def published_def)
  have sec: "ep_token (sb_secondary sb2) = 0" by (simp add: sb2_def published_def clearEndpoint_def)
  have tk: "ep_token (sb_primary sb3) = cp_token p1" "ep_token (sb_secondary sb3) = cp_token p2"
    by (simp_all add: prim sb3_def fillEndpoint_def)
  have nz: "cp_token p2 \<noteq> 0" using tok(2) by (simp add: isOwnerToken_def)
  have a2: "endpointAliveAtOpen (cp_opts p2) (ct_wall t2) (ct_now t2) (ct_prim t2) (sb_primary sb2) = Some (Inr True)"
    unfolding prim using tok clock by (intro alive_fresh)
  have s2: "endpointAliveAtOpen (cp_opts p2) (ct_wall t2) (ct_now t2) (ct_sec t2) (sb_secondary sb2) = Some (Inr False)"
    by (simp add: endpointAliveAtOpen_def sec isOwnerToken_def)
  have a3: "endpointAliveAtOpen (cp_opts p3) (ct_wall t3) (ct_now t3) (ct_prim t3) (sb_primary sb3) = Some (Inr True)"
    unfolding prim using tok clock by (intro alive_fresh)
  have s3: "endpointAliveAtOpen (cp_opts p3) (ct_wall t3) (ct_now t3) (ct_sec t3) (sb_secondary sb3) = Some (Inr True)"
    unfolding sb3_def using tok clock by (simp add: alive_fresh)
  note claim2 = claim_ready_iter [OF q(2) st(1) cc a2 s2, of n2]
  note claim3 = claim_ready_iter [OF q(3) st(2) cc3 a3 s3, of n3]
  have c2: "claimSuperblock p2 n2 [t2] sb2 = Some (if wantGeometry p2 \<noteq> wantGeometry p1
      then (ClaimErr (GeometryError (wantGeometry p2) (wantGeometry p1)), sb2) else (Claimed LinkModeSecondary False, sb3))"
    using claim2 r2 by (simp add: g sec sb3_def)
  have c3: "wantGeometry p3 = wantGeometry p1 \<Longrightarrow> claimSuperblock p3 n3 [t3] sb3 = Some (ClaimErr ErrLinkBusy, sb3)"
    using claim3 by (simp add: g3 tk nz)
  show ?thesis using c1 pub st(1) ep c2 c3 tk by (intro exI [of _ sb1] exI [of _ sb2]) simp
qed

section \<open>Witnesses\<close>

definition wit_opts :: "attachRole \<Rightarrow> LinkOptions" where
  "wit_opts r = \<lparr>o_WaitPolicy = WaitAdaptive, HeartbeatInterval = 250 * ms, PeerTimeout = 5 * second,
     AttachTimeout = 5 * second, o_parkers = (False, False), o_role = r, o_creatorToken = 77, o_initStale = 0\<rparr>"

definition wit_params :: "attachRole \<Rightarrow> u64 \<Rightarrow> claimParams" where
  "wit_params r tok = \<lparr>cp_pageSize = 4096, cp_bufferCount = 4, cp_bufferSize = 64, cp_layoutSize = 20480,
     cp_token = tok, cp_pid = 1, cp_opts = wit_opts r\<rparr>"

definition wit_turn :: "int \<Rightarrow> claimTurn" where
  "wit_turn w = \<lparr>ct_ctxErr = None, ct_env = (\<lambda>k s. s), ct_now = 0, ct_now2 = 0, ct_wall = w, ct_prim = [],
     ct_sec = [], ct_limitNow = 0, ct_sinceNow = 0, ct_sleepErr = None\<rparr>"

definition wit_zero :: standardSuperblock where
  "wit_zero = \<lparr>sb_magic = 0, sb_state = 0, sb_major = 0, sb_minor = 0, sb_pageSize = 0, sb_bufferCount = 0,
     sb_bufferSize = 0, sb_layoutSize = 0, sb_epoch = 0, sb_initToken = 0, sb_initHeartbeat = 0,
     sb_requiredFeatures = 0, sb_creatorToken = 0, sb_primary = zeroEndpoint, sb_secondary = zeroEndpoint,
     sb_rest = [0, 0]\<rparr>"

lemma wit_zero_empty: "firstPageZero wit_zero"
  by (simp add: firstPageZero_def wit_zero_def)

lemma wit_turn_quiet: "quietTurn (wit_turn w)" "keeps f [wit_turn w]"
  by (simp_all add: quietTurn_def wit_turn_def keeps_def)

theorem session_lifecycle_witness:
  "\<exists>sb1 sb2 sb3.
    claimSuperblock (wit_params roleCreator 5) 0 [wit_turn 1000] wit_zero = Some (Claimed LinkModePrimary True, sb1)
    \<and> publishSuperblock (\<lambda>k s. s) (\<lambda>k s. s) (\<lambda>k. None) (wit_params roleCreator 5) (of_int 2000) sb1 = (Inr 1, sb2)
    \<and> claimSuperblock (wit_params roleOpener 6) 0 [wit_turn 3000] sb2 = Some (Claimed LinkModeSecondary False, sb3)
    \<and> claimSuperblock (wit_params roleAny 7) 0 [wit_turn 4000] sb3 = Some (ClaimErr ErrLinkBusy, sb3)"
proof -
  have g: "wantGeometry (wit_params r a) = wantGeometry (wit_params r' b)" for r r' a b
    by (simp add: wantGeometry_def wit_params_def)
  have e: "sb_epoch wit_zero + 1 = 1" by (simp add: wit_zero_def)
  have cfg: "validConfig 4 64" by code_simp
  let ?p = "wit_params roleCreator 5" and ?q = "wit_params roleOpener 6" and ?r = "wit_params roleAny 7"
  have h: "o_role (cp_opts ?p) \<noteq> roleOpener" "o_role (cp_opts ?q) \<noteq> roleCreator"
    "isOwnerToken (cp_token ?p)" "isOwnerToken (cp_token ?q)" "validConfig (cp_bufferCount ?p) (cp_bufferSize ?p)"
    "0 \<le> (2000 :: int)" "(2000 :: int) < 2 ^ 63" "0 \<le> ct_wall (wit_turn 3000)" "ct_wall (wit_turn 3000) < 2 ^ 63"
    "- second < ct_wall (wit_turn 3000) - 2000" "ct_wall (wit_turn 3000) - 2000 < PeerTimeout (cp_opts ?q)"
    "- second < ct_wall (wit_turn 4000) - 2000" "ct_wall (wit_turn 4000) - 2000 < PeerTimeout (cp_opts ?r)"
    "- second < ct_wall (wit_turn 4000) - ct_wall (wit_turn 3000)"
    "ct_wall (wit_turn 4000) - ct_wall (wit_turn 3000) < PeerTimeout (cp_opts ?r)"
    by (simp_all add: wit_params_def wit_opts_def wit_turn_def isOwnerToken_def hqq_consts cfg)
  show ?thesis
    using session_lifecycle [OF wit_zero_empty wit_turn_quiet(1) wit_turn_quiet(1) wit_turn_quiet(1) h, of 0 1000 0 0]
      g [of roleOpener 6 roleCreator 5] g [of roleAny 7 roleCreator 5] e by auto
qed

theorem claim_roles_witness:
  "\<exists>sb'. claimSuperblock (wit_params roleCreator 5) 0 [wit_turn 1000] wit_zero = Some (Claimed LinkModePrimary True, sb')
     \<and> sb_initToken sb' = 5 \<and> sb_creatorToken sb' = 77"
proof -
  obtain sb' where c: "claimSuperblock (wit_params roleCreator 5) 0 [wit_turn 1000] wit_zero
      = Some (Claimed LinkModePrimary True, sb')"
    using claim_empty [OF wit_turn_quiet(1) wit_zero_empty, of "wit_params roleCreator 5"]
    by (simp add: wit_params_def wit_opts_def)
  show ?thesis using claim_roles [OF c] c by (simp add: wit_params_def wit_opts_def)
qed

theorem claim_frame_witness:
  "let foreign = wit_zero\<lparr>sb_magic := 0xDEADBEEF\<rparr> in
   claimSuperblock (wit_params roleCreator 5) 0 [wit_turn 1000] foreign = Some (ClaimErr ErrIncompatibleLayout, foreign)"
proof -
  define s where "s = wit_zero\<lparr>sb_magic := 0xDEADBEEF\<rparr>"
  obtain sb' where c: "claimSuperblock (wit_params roleCreator 5) 0 [wit_turn 1000] s
      = Some (ClaimErr ErrIncompatibleLayout, sb')"
    by (simp add: s_def wit_zero_def wit_turn_def claimSuperblock_def claimIter_def claimSwitch_def claimEmpty_def
        firstPageZero_def hqq_consts Let_def)
  then have "sb' = s" using claim_frame [OF c] wit_turn_quiet(2) by blast
  then show ?thesis using c by (simp add: s_def)
qed

end
