(* ===== verification/Peer_Monitor.thy ===== *)
theory Peer_Monitor
  imports Superblock
begin

text \<open>
  Runs of the peer monitor (\<^verbatim>\<open>checkPeer\<close>, \<^verbatim>\<open>heartbeatLoop\<close> of \<^verbatim>\<open>src/superblock.go\<close>): a verdict
  is final, a peer that keeps beating is never lost, a peer that stops is reported, and the
  blocked calls are woken exactly once.
\<close>

fun runPeer :: "linkIdent \<Rightarrow> (int \<times> standardSuperblock) list \<Rightarrow> peerMonitor \<Rightarrow> err option list \<times> peerMonitor" where
  "runPeer l [] m = ([], m)"
| "runPeer l ((now, sb) # obs) m =
     (case checkPeer l now sb m of
        (r, m1) \<Rightarrow> (case runPeer l obs m1 of (rs, m2) \<Rightarrow> (r # rs, m2)))"

lemma checkPeer_status: "checkPeer l now sb m = (r, m') \<Longrightarrow> r = PeerState_err (pm_status m')"
  by (auto simp: checkPeer_def PeerState_err_def Let_def split: if_splits PeerState.splits option.splits)

lemma checkPeer_sticky: "PeerState_err (pm_status m) = Some e \<Longrightarrow> checkPeer l now sb m = (Some e, m)"
  by (simp add: checkPeer_def)

lemma runPeer_sticky:
  "PeerState_err (pm_status m) = Some e \<Longrightarrow> runPeer l obs m = (replicate (length obs) (Some e), m)"
  by (induction obs) (auto simp: checkPeer_sticky)

lemma heartbeatTick_cases:
  "heartbeatTick l now nanos woken sb m = (sb', m', wake, woken') \<Longrightarrow>
   wake = (PeerState_err (pm_status m') \<noteq> None \<and> \<not> woken)
   \<and> woken' = (woken \<or> PeerState_err (pm_status m') \<noteq> None)
   \<and> (PeerState_err (pm_status m) \<noteq> None \<longrightarrow> m' = m)"
  by (auto simp: heartbeatTick_def Let_def checkPeer_sticky split: prod.splits if_splits
      dest: checkPeer_status [symmetric])

lemma heartbeatLoop_wakes:
  "heartbeatLoop l ticks woken sb m = (sb', m', n) \<Longrightarrow> woken = (PeerState_err (pm_status m) \<noteq> None) \<Longrightarrow>
   n = (if PeerState_err (pm_status m') \<noteq> None \<and> \<not> woken then 1 else 0)
   \<and> (PeerState_err (pm_status m) \<noteq> None \<longrightarrow> m' = m)"
proof (induction ticks arbitrary: woken sb m sb' m' n)
  case Nil
  then show ?case by auto
next
  case (Cons tk ticks)
  obtain now nanos e where tk: "tk = (now, nanos, e)" by (cases tk)
  obtain sb1 m1 wake wk where h: "heartbeatTick l now nanos woken (e sb) m = (sb1, m1, wake, wk)"
    by (metis prod_cases4)
  obtain n1 where r: "heartbeatLoop l ticks wk sb1 m1 = (sb', m', n1)" and n: "n = (if wake then Suc n1 else n1)"
    using Cons.prems(1) by (auto simp: tk h split: prod.splits)
  note c = heartbeatTick_cases [OF h]
  have wk: "wk = (PeerState_err (pm_status m1) \<noteq> None)" using c Cons.prems(2) by auto
  show ?case using Cons.IH [OF r wk] c n Cons.prems(2) wk by auto
qed

text \<open>
  A peer failure is final: once a look at the peer reports an error, every later look, at any
  time and whatever the segment holds, reports the same error; and over a whole run the
  heartbeat goroutine wakes the blocked calls exactly once if the peer was lost, else never.
\<close>

theorem peer_verdict_final:
  "(case checkPeer l now sb m of
      (None, m') \<Rightarrow> True
    | (Some e, m') \<Rightarrow> runPeer l obs m' = (replicate (length obs) (Some e), m'))
   \<and> (case heartbeatLoop l ticks False sb zeroMonitor of
        (sb', m', n) \<Rightarrow> n = (if PeerState_err (pm_status m') = None then 0 else 1))"
proof -
  have "runPeer l obs m' = (replicate (length obs) (Some e), m')"
    if "checkPeer l now sb m = (Some e, m')" for e m'
    using checkPeer_status [OF that] by (intro runPeer_sticky) simp
  moreover have "n = (if PeerState_err (pm_status m') = None then 0 else 1)"
    if "heartbeatLoop l ticks False sb zeroMonitor = (sb', m', n)" for sb' m' n
    using heartbeatLoop_wakes [OF that] by (auto simp: zeroMonitor_def PeerState_err_def)
  ultimately show ?thesis by (auto split: prod.splits option.splits)
qed

section \<open>No false alarm\<close>

text \<open>What a link sees of an undisturbed session with a peer of token \<open>tok\<close> and interval \<open>i\<close>.\<close>

definition sessionView :: "linkIdent \<Rightarrow> u64 \<Rightarrow> int \<Rightarrow> u64 \<Rightarrow> standardSuperblock \<Rightarrow> bool" where
  "sessionView l tok i h sb \<longleftrightarrow>
     sb_epoch sb = li_epoch l \<and> ep_token (endpoints sb (li_self l)) = li_token l
     \<and> ep_token (endpoints sb (other (li_self l))) = tok
     \<and> sint (ep_interval (endpoints sb (other (li_self l)))) = i
     \<and> ep_heartbeat (endpoints sb (other (li_self l))) = h"

lemma effectivePeerTimeout_ge:
  assumes "0 < i" "4 * i < 2 ^ 63"
  shows "4 * i \<le> effectivePeerTimeout opts i"
proof -
  have "wrap64 (4 * i) = 4 * i" unfolding wrap64_def using assms by (intro sint_of_int_self) simp_all
  then show ?thesis by (simp add: effectivePeerTimeout_def Let_def)
qed

definition monitorOk :: "u64 \<Rightarrow> (int \<Rightarrow> u64) \<Rightarrow> int \<Rightarrow> int \<Rightarrow> peerMonitor \<Rightarrow> bool" where
  "monitorOk tok hb a now m \<longleftrightarrow>
     PeerState_err (pm_status m) = None
     \<and> (pm_token m = 0
        \<or> pm_token m = tok \<and> pm_lastHB m = hb (pm_lastChange m) \<and> a \<le> pm_lastChange m \<and> pm_lastChange m \<le> now)"

lemma checkPeer_live:
  assumes m: "monitorOk tok hb a t m" "t \<le> now" "a \<le> now" "now \<le> b"
    and v: "sessionView l tok i (hb now) sb" and tok: "isOwnerToken tok"
    and i: "0 < i" "4 * i < 2 ^ 63"
    and beat: "\<And>t1 t2. a \<le> t1 \<Longrightarrow> t2 \<le> b \<Longrightarrow> t1 + 4 * i < t2 \<Longrightarrow> hb t1 \<noteq> hb t2"
  shows "\<exists>m'. checkPeer l now sb m = (None, m') \<and> monitorOk tok hb a now m'"
proof -
  have tok': "tok \<noteq> 0" "tok \<noteq> detachedToken" using tok by (simp_all add: isOwnerToken_def)
  have late: "\<not> now - pm_lastChange m > effectivePeerTimeout (li_opts l) i"
    if "pm_token m = tok" "hb now = pm_lastHB m"
  proof
    assume "now - pm_lastChange m > effectivePeerTimeout (li_opts l) i"
    then have "pm_lastChange m + 4 * i < now" using effectivePeerTimeout_ge [OF i, of "li_opts l"] by linarith
    moreover have "a \<le> pm_lastChange m" "hb (pm_lastChange m) = hb now"
      using m(1) that tok' by (auto simp: monitorOk_def)
    ultimately show False using beat [of "pm_lastChange m" now] m(4) by simp
  qed
  have st: "PeerState_err (pm_status m) = None" using m(1) by (simp add: monitorOk_def)
  show ?thesis
  proof (cases "pm_token m = 0")
    case True
    then show ?thesis
      using st v tok' m by (auto simp: checkPeer_def sessionView_def Let_def monitorOk_def PeerState_err_def)
  next
    case False
    then have mt: "pm_token m = tok" using m(1) by (simp add: monitorOk_def)
    show ?thesis
    proof (cases "hb now = pm_lastHB m")
      case True
      then have "checkPeer l now sb m = (None, m)"
        using st v tok' mt i late [OF mt True] by (simp add: checkPeer_def sessionView_def Let_def)
      then show ?thesis using m False by (auto simp: monitorOk_def)
    next
      case ch: False
      then have "checkPeer l now sb m = (None, m\<lparr>pm_lastHB := hb now, pm_lastChange := now\<rparr>)"
        using st v tok' mt i by (simp add: checkPeer_def sessionView_def Let_def)
      then show ?thesis using m mt st by (auto simp: monitorOk_def)
    qed
  qed
qed

lemma runPeer_live:
  assumes tok: "isOwnerToken tok" and i: "0 < i" "4 * i < 2 ^ 63"
    and beat: "\<And>t1 t2. a \<le> t1 \<Longrightarrow> t2 \<le> b \<Longrightarrow> t1 + 4 * i < t2 \<Longrightarrow> hb t1 \<noteq> hb t2"
  shows "sorted_wrt (\<le>) (t # map fst obs) \<Longrightarrow> a \<le> t \<Longrightarrow> list_all (\<lambda>(now, sb). now \<le> b \<and> sessionView l tok i (hb now) sb) obs \<Longrightarrow>
    monitorOk tok hb a t m \<Longrightarrow> fst (runPeer l obs m) = replicate (length obs) None"
proof (induction obs arbitrary: t m)
  case Nil
  then show ?case by simp
next
  case (Cons ob obs)
  obtain now sb where ob: "ob = (now, sb)" by (cases ob)
  have le: "t \<le> now" "a \<le> now" "now \<le> b" and v: "sessionView l tok i (hb now) sb"
    using Cons.prems by (auto simp: ob)
  obtain m' where c: "checkPeer l now sb m = (None, m')" and ok: "monitorOk tok hb a now m'"
    using checkPeer_live [OF Cons.prems(4) le(1,2,3) v tok i] beat by blast
  have "fst (runPeer l obs m') = replicate (length obs) None"
    by (rule Cons.IH [of now]) (use Cons.prems le ok in \<open>auto simp: ob\<close>)
  then show ?case by (cases "runPeer l obs m'") (simp add: ob c)
qed

text \<open>
  C30: No false alarm. If the heartbeat word of the peer never shows the same value at two times
  more than four of its intervals apart, then a link that looks at an undisturbed session any
  number of times, at any increasing times, never reports the peer as lost.
\<close>

theorem live_peer_never_lost:
  assumes "isOwnerToken tok" "0 < i" "4 * i < 2 ^ 63"
    and "\<And>t1 t2. a \<le> t1 \<Longrightarrow> t2 \<le> b \<Longrightarrow> t1 + 4 * i < t2 \<Longrightarrow> hb t1 \<noteq> hb t2"
    and "sorted (map fst obs)"
    and "list_all (\<lambda>(now, sb). a \<le> now \<and> now \<le> b \<and> sessionView l tok i (hb now) sb) obs"
  shows "fst (runPeer l obs zeroMonitor) = replicate (length obs) None"
proof (rule runPeer_live [OF assms(1-3), of a b hb a])
  show "sorted_wrt (\<le>) (a # map fst obs)" using assms(5,6) by (auto simp: list_all_iff)
  show "list_all (\<lambda>(now, sb). now \<le> b \<and> sessionView l tok i (hb now) sb) obs"
    using assms(6) by (auto simp: list_all_iff)
  show "monitorOk tok hb a a zeroMonitor" by (simp add: monitorOk_def zeroMonitor_def PeerState_err_def)
qed (use assms(4) in auto)

section \<open>Detection\<close>

lemma runPeer_frozen:
  assumes tok: "isOwnerToken tok" and i: "0 < i"
    and m: "pm_token m = tok" "pm_lastHB m = h" "pm_lastChange m \<le> t0"
    and obs: "list_all (\<lambda>(now, sb). sessionView l tok i h sb) obs" "obs \<noteq> []"
    and late: "t0 + effectivePeerTimeout (li_opts l) i < fst (last obs)" and st: "pm_status m \<noteq> PeerClosed"
  shows "last (fst (runPeer l obs m)) = Some ErrPeerGone"
  using m obs late st
proof (induction obs arbitrary: m)
  case Nil
  then show ?case by simp
next
  case (Cons ob obs)
  obtain now sb where ob: "ob = (now, sb)" by (cases ob)
  have tok': "tok \<noteq> 0" "tok \<noteq> detachedToken" using tok by (simp_all add: isOwnerToken_def)
  have v: "sessionView l tok i h sb" using Cons.prems by (simp add: ob)
  obtain r m1 where c: "checkPeer l now sb m = (r, m1)" by fastforce
  have c': "r = Some ErrPeerGone \<and> pm_status m1 = PeerGone \<or> r = None \<and> m1 = m \<and> \<not> now - pm_lastChange m > effectivePeerTimeout (li_opts l) i"
    using c v tok' i Cons.prems(1,2,7)
    by (auto simp: checkPeer_def sessionView_def Let_def PeerState_err_def split: if_splits PeerState.splits)
  show ?case
  proof (cases "obs = []")
    case True
    then have "now - pm_lastChange m > effectivePeerTimeout (li_opts l) i" using Cons.prems(3,6) by (simp add: ob)
    then show ?thesis using c' c by (simp add: True ob)
  next
    case False
    obtain rs m2 where rr: "runPeer l obs m1 = (rs, m2)" by fastforce
    have "last rs = Some ErrPeerGone"
    proof (cases "r = None")
      case True
      then have "m1 = m" using c' by simp
      then show ?thesis using Cons.IH [of m] Cons.prems False rr by (simp add: ob)
    next
      case rn: False
      then have "runPeer l obs m1 = (replicate (length obs) (Some ErrPeerGone), m1)"
        using c' by (intro runPeer_sticky) (auto simp: PeerState_err_def)
      then show ?thesis using rr False by auto
    qed
    moreover have "rs \<noteq> []" using rr False by (cases obs) (auto split: prod.splits)
    ultimately show ?thesis by (simp add: ob c rr)
  qed
qed

text \<open>
  C31: A dead peer is detected. If the heartbeat of a connected peer does not move any more, then
  the first look that comes later than the peer timeout after the first look at the frozen
  heartbeat reports \<^verbatim>\<open>ErrPeerGone\<close>.
\<close>

theorem dead_peer_detected:
  assumes "isOwnerToken tok" "0 < i" "pm_token m = tok" "pm_status m = PeerConnected"
    and "pm_lastChange m \<le> t0" "sessionView l tok i h sb0"
    and "list_all (\<lambda>(now, sb). sessionView l tok i h sb) obs" "obs \<noteq> []"
    and "t0 + effectivePeerTimeout (li_opts l) i < fst (last obs)"
  shows "last (fst (runPeer l ((t0, sb0) # obs) m)) = Some ErrPeerGone"
proof -
  have tok': "tok \<noteq> 0" "tok \<noteq> detachedToken" using assms(1) by (simp_all add: isOwnerToken_def)
  obtain r m1 where c: "checkPeer l t0 sb0 m = (r, m1)" by fastforce
  then have c': "pm_status m1 = PeerGone \<or>
      pm_token m1 = tok \<and> pm_lastHB m1 = h \<and> pm_lastChange m1 \<le> t0 \<and> pm_status m1 \<noteq> PeerClosed"
    using assms tok' by (auto simp: checkPeer_def sessionView_def Let_def PeerState_err_def split: if_splits)
  obtain rs m2 where rr: "runPeer l obs m1 = (rs, m2)" by fastforce
  have ne: "rs \<noteq> []" using rr assms(8) by (cases obs) (auto split: prod.splits)
  have "last rs = Some ErrPeerGone"
  proof (cases "pm_status m1 = PeerGone")
    case True
    then have "runPeer l obs m1 = (replicate (length obs) (Some ErrPeerGone), m1)"
      by (intro runPeer_sticky) (simp add: PeerState_err_def)
    then show ?thesis using rr assms(8) by auto
  next
    case False
    then show ?thesis
      using runPeer_frozen [OF assms(1,2), of m1 h t0 l obs] c' assms(7-9) rr by simp
  qed
  then show ?thesis using ne by (simp add: c rr)
qed

section \<open>Witnesses\<close>

definition wit_ident :: linkIdent where
  "wit_ident = \<lparr>li_self = LinkModePrimary, li_token = 5, li_epoch = 1, li_opts = wit_opts roleCreator\<rparr>"

definition wit_session :: "u64 \<Rightarrow> standardSuperblock" where
  "wit_session h = wit_zero\<lparr>sb_epoch := 1, sb_primary := zeroEndpoint\<lparr>ep_token := 5\<rparr>,
     sb_secondary := \<lparr>ep_token = 6, ep_pid = 1, ep_heartbeat = h, ep_interval = 100\<rparr>\<rparr>"

lemma wit_session_view: "sessionView wit_ident 6 100 h (wit_session h)"
  by (simp add: sessionView_def wit_ident_def wit_session_def endpoints_def other_def zeroEndpoint_def)

theorem live_peer_never_lost_witness:
  "fst (runPeer wit_ident (map (\<lambda>t. (t, wit_session (of_int t))) [0, 1000, 5000]) zeroMonitor) = [None, None, None]"
proof -
  have d: "(of_int t1 :: u64) \<noteq> of_int t2" if "0 \<le> t1" "t2 \<le> 5000" "t1 + 4 * 100 < t2" for t1 t2 :: int
  proof
    assume "(of_int t1 :: u64) = of_int t2"
    then have "unat (of_int t1 :: u64) = unat (of_int t2 :: u64)" by simp
    then show False using that by (simp add: unat_of_int_self)
  qed
  show ?thesis
    using live_peer_never_lost [of 6 100 0 5000 of_int "map (\<lambda>t. (t, wit_session (of_int t))) [0, 1000, 5000]" wit_ident]
      d wit_session_view by (simp add: isOwnerToken_def hqq_consts numeral_3_eq_3)
qed

theorem dead_peer_detected_witness:
  "last (fst (runPeer wit_ident [(0, wit_session 9), (6000000000, wit_session 9)]
     \<lparr>pm_status = PeerConnected, pm_token = 6, pm_lastHB = 8, pm_lastChange = 0\<rparr>)) = Some ErrPeerGone"
proof -
  have "effectivePeerTimeout (li_opts wit_ident) 100 = 5000000000"
    by (simp add: effectivePeerTimeout_def wit_ident_def wit_opts_def wrap64_def hqq_consts)
  then show ?thesis
    using dead_peer_detected [of 6 100 "\<lparr>pm_status = PeerConnected, pm_token = 6, pm_lastHB = 8, pm_lastChange = 0\<rparr>"
        0 wit_ident 9 "wit_session 9" "[(6000000000, wit_session 9)]"] wit_session_view
    by (simp add: isOwnerToken_def hqq_consts)
qed

end
