(* ===== verification/Init_Concurrent.thy ===== *)
theory Init_Concurrent
  imports Superblock
begin

text \<open>
  Endpoints that race for the initialization of one segment: the protocol around
  \<^verbatim>\<open>initToken\<close> (\<^verbatim>\<open>claimSuperblock\<close>, \<^verbatim>\<open>beginInit\<close>, \<^verbatim>\<open>initSession\<close>, \<^verbatim>\<open>publishSuperblock\<close>,
  \<^verbatim>\<open>commitInit\<close> of \<^verbatim>\<open>src/superblock.go\<close>) as a step relation in which any endpoint may be
  suspended between any two accesses. A takeover is possible at every moment at which the
  state is Initializing, so the relation covers every clock and every stale window.
\<close>

text \<open>
  The work of an initializer is a list of guarded actions. A guard reads \<^verbatim>\<open>initToken\<close>; when the
  token was lost, the endpoint stops (\<open>True\<close>: \<^verbatim>\<open>initSession.check\<close>) or skips the write
  (\<open>False\<close>: \<^verbatim>\<open>initSession.progress\<close>).
\<close>

type_synonym iact = "bool \<times> (standardSuperblock \<Rightarrow> standardSuperblock)"

record initParams =
  ip_claim :: claimParams
  ip_slices :: nat     \<comment> \<open>slices of ring formatting and of zeroing; they lie outside the superblock\<close>
  ip_nanos :: u64

definition initProg :: "initParams \<Rightarrow> iact list" where
  "initProg p =
     concat (replicate (ip_slices p) [(True, id), (False, \<lambda>sb. sb\<lparr>sb_initHeartbeat := ip_nanos p\<rparr>)])
     @ map (Pair True) (publishWrites (ip_claim p) (ip_nanos p))"

abbreviation tok :: "initParams \<Rightarrow> u64" where "tok p \<equiv> cp_token (ip_claim p)"

datatype ipc = IOut | IWon | IExpect u64 | ICas u64 | IBegun | IAct nat | IWrite nat
  | IBump | IReady u64 | IDone u64 | IFailed

text \<open>
  The state; the components \<open>g_\<close> are history. \<open>g_begins\<close> counts the successful token swaps of
  \<^verbatim>\<open>beginInit\<close>, \<open>g_mine i\<close> is the number of the swap of endpoint \<open>i\<close> and \<open>g_at i\<close> the count when
  it committed; \<open>g_stale i\<close> counts its write steps after the token was lost; \<open>g_bumps\<close> counts the
  epoch increments and \<open>g_num i\<close> numbers that of \<open>i\<close>.
\<close>

record istate =
  is_sb :: standardSuperblock
  is_pc :: "nat \<Rightarrow> ipc"
  g_begins :: nat
  g_mine :: "nat \<Rightarrow> nat"
  g_at :: "nat \<Rightarrow> nat"
  g_stale :: "nat \<Rightarrow> nat"
  g_bumps :: nat
  g_num :: "nat \<Rightarrow> nat"

definition goto :: "nat \<Rightarrow> ipc \<Rightarrow> istate \<Rightarrow> istate" where
  "goto i c s = s\<lparr>is_pc := (is_pc s)(i := c)\<rparr>"

definition wr :: "(standardSuperblock \<Rightarrow> standardSuperblock) \<Rightarrow> istate \<Rightarrow> istate" where
  "wr f s = s\<lparr>is_sb := f (is_sb s)\<rparr>"

definition countStale :: "u64 \<Rightarrow> nat \<Rightarrow> istate \<Rightarrow> istate" where
  "countStale t i s =
     (if sb_initToken (is_sb s) = t then s else s\<lparr>g_stale := (g_stale s)(i := Suc (g_stale s i))\<rparr>)"

inductive istep :: "(nat \<Rightarrow> initParams) \<Rightarrow> nat \<Rightarrow> istate \<Rightarrow> istate \<Rightarrow> bool" for P N where
  claim_empty_or_dead: "i < N \<Longrightarrow> is_pc s i = IOut \<Longrightarrow>
     sb_state (is_sb s) = superblockStateEmpty \<or> sb_state (is_sb s) = superblockStateReady \<Longrightarrow>
     istep P N s (goto i IWon (wr (\<lambda>sb. sb\<lparr>sb_state := superblockStateInitializing\<rparr>) s))"
| take_over: "i < N \<Longrightarrow> is_pc s i = IOut \<Longrightarrow> sb_state (is_sb s) = superblockStateInitializing \<Longrightarrow>
     istep P N s (goto i (IExpect (sb_initToken (is_sb s))) s)"
| load_token: "i < N \<Longrightarrow> is_pc s i = IWon \<Longrightarrow> istep P N s (goto i (IExpect (sb_initToken (is_sb s))) s)"
| stamp: "i < N \<Longrightarrow> is_pc s i = IExpect x \<Longrightarrow> istep P N s (goto i (ICas x) (wr stampLayout s))"
| swap_ok: "i < N \<Longrightarrow> is_pc s i = ICas x \<Longrightarrow> sb_initToken (is_sb s) = x \<Longrightarrow>
     istep P N s (goto i IBegun (wr (\<lambda>sb. sb\<lparr>sb_initToken := tok (P i)\<rparr>)
       (s\<lparr>g_begins := Suc (g_begins s), g_mine := (g_mine s)(i := Suc (g_begins s))\<rparr>)))"
| swap_fail: "i < N \<Longrightarrow> is_pc s i = ICas x \<Longrightarrow> sb_initToken (is_sb s) \<noteq> x \<Longrightarrow> istep P N s (goto i IOut s)"
| record_owner: "i < N \<Longrightarrow> is_pc s i = IBegun \<Longrightarrow>
     istep P N s (goto i (IAct 0) (wr (\<lambda>sb. sb\<lparr>sb_creatorToken := o_creatorToken (cp_opts (ip_claim (P i))),
        sb_initHeartbeat := ip_nanos (P i)\<rparr>) (countStale (tok (P i)) i s)))"
| guard_ok: "i < N \<Longrightarrow> is_pc s i = IAct k \<Longrightarrow> k < length (initProg (P i)) \<Longrightarrow> sb_initToken (is_sb s) = tok (P i) \<Longrightarrow>
     istep P N s (goto i (IWrite k) s)"
| guard_lost: "i < N \<Longrightarrow> is_pc s i = IAct k \<Longrightarrow> k < length (initProg (P i)) \<Longrightarrow> sb_initToken (is_sb s) \<noteq> tok (P i) \<Longrightarrow>
     istep P N s (goto i (if fst (initProg (P i) ! k) then IFailed else IAct (Suc k)) s)"
| guarded_write: "i < N \<Longrightarrow> is_pc s i = IWrite k \<Longrightarrow>
     istep P N s (goto i (IAct (Suc k)) (wr (snd (initProg (P i) ! k)) (countStale (tok (P i)) i s)))"
| commit_ok: "i < N \<Longrightarrow> is_pc s i = IAct (length (initProg (P i))) \<Longrightarrow> sb_initToken (is_sb s) = tok (P i) \<Longrightarrow>
     istep P N s (goto i IBump (wr (\<lambda>sb. sb\<lparr>sb_initToken := 0\<rparr>) (s\<lparr>g_at := (g_at s)(i := g_begins s)\<rparr>)))"
| commit_lost: "i < N \<Longrightarrow> is_pc s i = IAct (length (initProg (P i))) \<Longrightarrow> sb_initToken (is_sb s) \<noteq> tok (P i) \<Longrightarrow>
     istep P N s (goto i IFailed s)"
| bump: "i < N \<Longrightarrow> is_pc s i = IBump \<Longrightarrow>
     istep P N s (goto i (IReady (sb_epoch (is_sb s) + 1)) (wr (\<lambda>sb. sb\<lparr>sb_epoch := sb_epoch sb + 1\<rparr>)
       (s\<lparr>g_bumps := Suc (g_bumps s), g_num := (g_num s)(i := Suc (g_bumps s))\<rparr>)))"
| ready: "i < N \<Longrightarrow> is_pc s i = IReady e \<Longrightarrow>
     istep P N s (goto i (IDone e) (wr (\<lambda>sb. sb\<lparr>sb_state := superblockStateReady\<rparr>) s))"

definition iinit :: "standardSuperblock \<Rightarrow> istate" where
  "iinit sb = \<lparr>is_sb = sb, is_pc = (\<lambda>_. IOut), g_begins = 0, g_mine = (\<lambda>_. 0), g_at = (\<lambda>_. 0),
     g_stale = (\<lambda>_. 0), g_bumps = 0, g_num = (\<lambda>_. 0)\<rparr>"

inductive ireach :: "(nat \<Rightarrow> initParams) \<Rightarrow> nat \<Rightarrow> standardSuperblock \<Rightarrow> istate \<Rightarrow> bool" for P N sb0 where
  start: "ireach P N sb0 (iinit sb0)"
| step: "ireach P N sb0 s \<Longrightarrow> istep P N s s' \<Longrightarrow> ireach P N sb0 s'"

definition began :: "ipc \<Rightarrow> bool" where
  "began c = (case c of IBegun \<Rightarrow> True | IAct _ \<Rightarrow> True | IWrite _ \<Rightarrow> True | _ \<Rightarrow> False)"

definition committed :: "ipc \<Rightarrow> bool" where
  "committed c = (case c of IBump \<Rightarrow> True | IReady _ \<Rightarrow> True | IDone _ \<Rightarrow> True | _ \<Rightarrow> False)"

definition epochOf :: "ipc \<Rightarrow> u64 option" where
  "epochOf c = (case c of IReady e \<Rightarrow> Some e | IDone e \<Rightarrow> Some e | _ \<Rightarrow> None)"

lemma pc_class_simps [simp]:
  "began IOut = False" "began IWon = False" "began (IExpect x) = False" "began (ICas x) = False" "began IBegun = True"
  "began (IAct k) = True" "began (IWrite k) = True" "began IBump = False" "began (IReady e) = False"
  "began (IDone e) = False" "began IFailed = False"
  "committed IOut = False" "committed IWon = False" "committed (IExpect x) = False" "committed (ICas x) = False"
  "committed IBegun = False" "committed (IAct k) = False" "committed (IWrite k) = False" "committed IBump = True"
  "committed (IReady e) = True" "committed (IDone e) = True" "committed IFailed = False"
  "epochOf IOut = None" "epochOf IWon = None" "epochOf (IExpect x) = None" "epochOf (ICas x) = None"
  "epochOf IBegun = None" "epochOf (IAct k) = None" "epochOf (IWrite k) = None" "epochOf IBump = None"
  "epochOf (IReady e) = Some e" "epochOf (IDone e) = Some e" "epochOf IFailed = None"
  by (simp_all add: began_def committed_def epochOf_def)

lemma istate_simps [simp]:
  "is_sb (goto i c s) = is_sb s" "is_pc (goto i c s) = (is_pc s)(i := c)" "g_begins (goto i c s) = g_begins s"
  "g_mine (goto i c s) = g_mine s" "g_at (goto i c s) = g_at s" "g_stale (goto i c s) = g_stale s"
  "g_bumps (goto i c s) = g_bumps s" "g_num (goto i c s) = g_num s"
  "is_sb (wr f s) = f (is_sb s)" "is_pc (wr f s) = is_pc s" "g_begins (wr f s) = g_begins s"
  "g_mine (wr f s) = g_mine s" "g_at (wr f s) = g_at s" "g_stale (wr f s) = g_stale s"
  "g_bumps (wr f s) = g_bumps s" "g_num (wr f s) = g_num s"
  "is_sb (countStale t i s) = is_sb s" "is_pc (countStale t i s) = is_pc s" "g_begins (countStale t i s) = g_begins s"
  "g_mine (countStale t i s) = g_mine s" "g_at (countStale t i s) = g_at s"
  "g_bumps (countStale t i s) = g_bumps s" "g_num (countStale t i s) = g_num s"
  "g_stale (countStale t i s) = (g_stale s)(i := g_stale s i + (if sb_initToken (is_sb s) = t then 0 else 1))"
  by (simp_all add: goto_def wr_def countStale_def)

text \<open>No guarded write touches the initializer token or the epoch.\<close>

lemma initProg_act_keeps:
  "a \<in> set (initProg p) \<Longrightarrow> sb_initToken (snd a sb) = sb_initToken sb \<and> sb_epoch (snd a sb) = sb_epoch sb
    \<and> sb_state (snd a sb) = sb_state sb"
  by (auto simp: initProg_def publishWrites_def stampLayout_def split: if_splits)

lemma initProg_keeps [simp]:
  assumes "k < length (initProg p)"
  shows "sb_initToken (snd (initProg p ! k) sb) = sb_initToken sb" "sb_epoch (snd (initProg p ! k) sb) = sb_epoch sb"
    "sb_state (snd (initProg p ! k) sb) = sb_state sb"
  using initProg_act_keeps [OF nth_mem [OF assms]] by simp_all

text \<open>
  What holds of one endpoint, given the token \<open>t\<close> in place, the numbers of begins \<open>b\<close> and of
  epoch increments \<open>n\<close>, and what holds between endpoints.
\<close>

definition locp :: "initParams \<Rightarrow> u64 \<Rightarrow> nat \<Rightarrow> nat \<Rightarrow> u64 \<Rightarrow> ipc \<Rightarrow> nat \<Rightarrow> nat \<Rightarrow> nat \<Rightarrow> nat \<Rightarrow> bool" where
  "locp p t b n e0 c mine at stale num \<longleftrightarrow>
     (t = tok p \<longrightarrow> began c \<and> mine = b \<and> stale = 0)
     \<and> mine \<le> b \<and> num \<le> n \<and> stale \<le> 1
     \<and> (committed c \<longrightarrow> at = mine \<and> stale = 0 \<and> 0 < mine)
     \<and> (c = IBegun \<longrightarrow> stale = 0)
     \<and> (\<forall>k. c = IWrite k \<longrightarrow> stale = 0 \<and> k < length (initProg p))
     \<and> (began c \<longrightarrow> 0 < mine)
     \<and> (\<forall>e. epochOf c = Some e \<longrightarrow> e = e0 + of_nat num \<and> 0 < num)
     \<and> (\<not> began c \<and> \<not> committed c \<and> c \<noteq> IFailed \<longrightarrow> stale = 0)"

definition loc :: "(nat \<Rightarrow> initParams) \<Rightarrow> u64 \<Rightarrow> istate \<Rightarrow> nat \<Rightarrow> bool" where
  "loc P e0 s i \<longleftrightarrow> locp (P i) (sb_initToken (is_sb s)) (g_begins s) (g_bumps s) e0 (is_pc s i)
     (g_mine s i) (g_at s i) (g_stale s i) (g_num s i)"

definition posInj :: "(nat \<Rightarrow> nat) \<Rightarrow> bool" where
  "posInj f \<longleftrightarrow> (\<forall>i j. f i = f j \<and> 0 < f i \<longrightarrow> i = j)"

definition iinv :: "(nat \<Rightarrow> initParams) \<Rightarrow> nat \<Rightarrow> u64 \<Rightarrow> istate \<Rightarrow> bool" where
  "iinv P N e0 s \<longleftrightarrow>
     (\<forall>i < N. loc P e0 s i) \<and> (\<forall>i. g_mine s i \<le> g_begins s \<and> g_num s i \<le> g_bumps s) \<and> posInj (g_mine s) \<and> posInj (g_num s)
     \<and> sb_epoch (is_sb s) = e0 + of_nat (g_bumps s)"

lemma locp_other:
  "locp p t b n e0 c m a st nu \<Longrightarrow> t' = t \<and> b' = b \<or> t' \<noteq> tok p \<Longrightarrow> b \<le> b' \<Longrightarrow> n \<le> n' \<Longrightarrow>
   locp p t' b' n' e0 c m a st nu"
  by (auto simp: locp_def)

lemma iinv_update:
  assumes inv: "iinv P N e0 s"
    and pc: "\<And>j. j \<noteq> i \<Longrightarrow> is_pc s' j = is_pc s j" and mine: "\<And>j. j \<noteq> i \<Longrightarrow> g_mine s' j = g_mine s j"
    and at: "\<And>j. j \<noteq> i \<Longrightarrow> g_at s' j = g_at s j" and stale: "\<And>j. j \<noteq> i \<Longrightarrow> g_stale s' j = g_stale s j"
    and num: "\<And>j. j \<noteq> i \<Longrightarrow> g_num s' j = g_num s j"
    and tk: "\<And>j. j < N \<Longrightarrow> j \<noteq> i \<Longrightarrow> sb_initToken (is_sb s') = sb_initToken (is_sb s) \<and> g_begins s' = g_begins s
        \<or> sb_initToken (is_sb s') \<noteq> tok (P j)"
    and b: "g_begins s \<le> g_begins s'" "g_bumps s \<le> g_bumps s'"
    and me: "loc P e0 s' i" "g_mine s' i \<le> g_begins s'" "g_num s' i \<le> g_bumps s'" "posInj (g_mine s')" "posInj (g_num s')"
    and ep: "sb_epoch (is_sb s') = e0 + of_nat (g_bumps s')"
  shows "iinv P N e0 s'"
proof -
  have "g_mine s' j \<le> g_begins s' \<and> g_num s' j \<le> g_bumps s'" for j
  proof (cases "j = i")
    case True
    then show ?thesis using me by simp
  next
    case False
    have "g_mine s j \<le> g_begins s" "g_num s j \<le> g_bumps s" using inv by (simp_all add: iinv_def)
    then show ?thesis using b mine [OF False] num [OF False] by simp
  qed
  moreover have "loc P e0 s' j" if jN: "j < N" for j
  proof (cases "j = i")
    case True
    then show ?thesis using me by simp
  next
    case False
    have "loc P e0 s j" using inv jN by (simp add: iinv_def)
    then show ?thesis
      unfolding loc_def pc [OF False] mine [OF False] at [OF False] stale [OF False] num [OF False]
      by (rule locp_other) (use tk [OF jN False] b in auto)
  qed
  ultimately show ?thesis using me ep by (simp add: iinv_def)
qed

lemma iinvD:
  assumes "iinv P N e0 s"
  shows "i < N \<Longrightarrow> locp (P i) (sb_initToken (is_sb s)) (g_begins s) (g_bumps s) e0 (is_pc s i)
     (g_mine s i) (g_at s i) (g_stale s i) (g_num s i)" "posInj (g_mine s)" "posInj (g_num s)"
    "sb_epoch (is_sb s) = e0 + of_nat (g_bumps s)" "g_mine s i \<le> g_begins s" "g_num s i \<le> g_bumps s"
  using assms by (simp_all add: iinv_def loc_def locp_def)

lemma posInj_new: "posInj f \<Longrightarrow> (\<And>j. f j \<le> n) \<Longrightarrow> posInj (f(i := Suc n))"
  unfolding posInj_def by (metis fun_upd_apply le_imp_less_Suc less_irrefl)

lemma iinv_init: "\<forall>i < N. sb_initToken sb \<noteq> tok (P i) \<Longrightarrow> iinv P N (sb_epoch sb) (iinit sb)"
  by (simp add: iinv_def iinit_def loc_def locp_def posInj_def)

lemma iinv_step:
  assumes st: "istep P N s s'" and inv: "iinv P N e0 s"
    and own: "\<forall>i < N. isOwnerToken (tok (P i))" and inj: "inj_on (\<lambda>i. tok (P i)) {..<N}"
  shows "iinv P N e0 s'"
  using st
proof cases
  case (claim_empty_or_dead i)
  then show ?thesis
    by (intro iinv_update [OF inv, where i = i]) (use iinvD(1) [OF inv, of i] iinvD(2-4) [OF inv] iinvD(5-6) [OF inv, of i] in \<open>auto simp: loc_def locp_def\<close>)
next
  case (take_over i)
  then show ?thesis
    by (intro iinv_update [OF inv, where i = i]) (use iinvD(1) [OF inv, of i] iinvD(2-4) [OF inv] iinvD(5-6) [OF inv, of i] in \<open>auto simp: loc_def locp_def\<close>)
next
  case (load_token i)
  then show ?thesis
    by (intro iinv_update [OF inv, where i = i]) (use iinvD(1) [OF inv, of i] iinvD(2-4) [OF inv] iinvD(5-6) [OF inv, of i] in \<open>auto simp: loc_def locp_def\<close>)
next
  case (stamp i x)
  then show ?thesis
    by (intro iinv_update [OF inv, where i = i]) (use iinvD(1) [OF inv, of i] iinvD(2-4) [OF inv] iinvD(5-6) [OF inv, of i] in \<open>auto simp: loc_def locp_def stampLayout_def\<close>)
next
  case (swap_ok i x)
  show ?thesis unfolding swap_ok(1)
    by (intro iinv_update [OF inv, where i = i])
      (use iinvD(1) [OF inv, of i] iinvD(2-4) [OF inv] iinvD(5-6) [OF inv, of i] posInj_new [OF iinvD(2,5) [OF inv]] inj swap_ok(2,3) in \<open>auto simp: loc_def locp_def inj_on_def\<close>)
next
  case (swap_fail i x)
  then show ?thesis
    by (intro iinv_update [OF inv, where i = i]) (use iinvD(1) [OF inv, of i] iinvD(2-4) [OF inv] iinvD(5-6) [OF inv, of i] in \<open>auto simp: loc_def locp_def\<close>)
next
  case (record_owner i)
  then show ?thesis
    by (intro iinv_update [OF inv, where i = i]) (use iinvD(1) [OF inv, of i] iinvD(2-4) [OF inv] iinvD(5-6) [OF inv, of i] in \<open>auto simp: loc_def locp_def\<close>)
next
  case (guard_ok i k)
  then show ?thesis
    by (intro iinv_update [OF inv, where i = i]) (use iinvD(1) [OF inv, of i] iinvD(2-4) [OF inv] iinvD(5-6) [OF inv, of i] in \<open>auto simp: loc_def locp_def\<close>)
next
  case (guard_lost i k)
  then show ?thesis
    by (intro iinv_update [OF inv, where i = i]) (use iinvD(1) [OF inv, of i] iinvD(2-4) [OF inv] iinvD(5-6) [OF inv, of i] in \<open>auto simp: loc_def locp_def\<close>)
next
  case (guarded_write i k)
  then have "k < length (initProg (P i))" using iinvD(1) [OF inv, of i] by (simp add: locp_def)
  with guarded_write show ?thesis
    by (intro iinv_update [OF inv, where i = i]) (use iinvD(1) [OF inv, of i] iinvD(2-4) [OF inv] iinvD(5-6) [OF inv, of i] in \<open>auto simp: loc_def locp_def\<close>)
next
  case (commit_ok i)
  then show ?thesis
    by (intro iinv_update [OF inv, where i = i])
      (use iinvD(1) [OF inv, of i] iinvD(2-4) [OF inv] iinvD(5-6) [OF inv, of i] own in \<open>auto simp: loc_def locp_def isOwnerToken_def\<close>)
next
  case (commit_lost i)
  then show ?thesis
    by (intro iinv_update [OF inv, where i = i]) (use iinvD(1) [OF inv, of i] iinvD(2-4) [OF inv] iinvD(5-6) [OF inv, of i] in \<open>auto simp: loc_def locp_def\<close>)
next
  case (bump i)
  show ?thesis unfolding bump(1)
    by (intro iinv_update [OF inv, where i = i])
      (use iinvD(1) [OF inv, of i] iinvD(2-4) [OF inv] iinvD(5-6) [OF inv, of i] posInj_new [OF iinvD(3,6) [OF inv]] bump(2,3) in \<open>auto simp: loc_def locp_def add.assoc\<close>)
next
  case (ready i e)
  then show ?thesis
    by (intro iinv_update [OF inv, where i = i]) (use iinvD(1) [OF inv, of i] iinvD(2-4) [OF inv] iinvD(5-6) [OF inv, of i] in \<open>auto simp: loc_def locp_def\<close>)
qed

lemma of_nat_inj64:
  assumes "(of_nat a :: u64) = of_nat b" "a < 2 ^ 64" "b < 2 ^ 64"
  shows "a = b"
proof -
  have "unat (of_nat a :: u64) = a" "unat (of_nat b :: u64) = b"
    using assms(2,3) by (auto intro!: unat_of_nat_self)
  then show ?thesis using assms(1) by metis
qed

lemma ireach_iinv:
  assumes "ireach P N sb0 s" "\<forall>i < N. isOwnerToken (tok (P i)) \<and> sb_initToken sb0 \<noteq> tok (P i)"
    "inj_on (\<lambda>i. tok (P i)) {..<N}"
  shows "iinv P N (sb_epoch sb0) s"
  using assms(1)
proof induction
  case start
  then show ?case using assms(2) by (intro iinv_init) simp
next
  case (step s s')
  then show ?case using assms(2,3) by (intro iinv_step [OF step.hyps(2)]) simp_all
qed

text \<open>
  C13: Whatever the interleaving of any number of endpoints that claim, take over and resume an
  initialization: an endpoint makes at most one write step after it lost the initialization;
  an endpoint that commits has lost it at no time, that is, no other endpoint won the initialization
  between its begin and its commit, and none of its write steps was stale; and no two endpoints
  publish the same epoch.
\<close>

theorem initialization_exclusive:
  assumes "ireach P N sb0 s" "\<forall>i < N. isOwnerToken (tok (P i)) \<and> sb_initToken sb0 \<noteq> tok (P i)"
    and "inj_on (\<lambda>i. tok (P i)) {..<N}" and "g_bumps s < 2 ^ 64"
  shows "(\<forall>i < N. g_stale s i \<le> 1)
    \<and> (\<forall>i < N. committed (is_pc s i) \<longrightarrow> g_at s i = g_mine s i \<and> g_stale s i = 0)
    \<and> (\<forall>i < N. \<forall>j < N. committed (is_pc s i) \<and> committed (is_pc s j) \<and> g_mine s i = g_mine s j \<longrightarrow> i = j)
    \<and> (\<forall>i < N. \<forall>j < N. i \<noteq> j \<and> epochOf (is_pc s i) \<noteq> None \<longrightarrow> epochOf (is_pc s i) \<noteq> epochOf (is_pc s j))"
proof -
  have inv: "iinv P N (sb_epoch sb0) s" using assms(1-3) by (rule ireach_iinv)
  have l: "locp (P i) (sb_initToken (is_sb s)) (g_begins s) (g_bumps s) (sb_epoch sb0) (is_pc s i)
     (g_mine s i) (g_at s i) (g_stale s i) (g_num s i)" if "i < N" for i
    using that by (rule iinvD(1) [OF inv])
  have "i = j" if "i < N" "j < N" and e: "epochOf (is_pc s i) = Some e" "epochOf (is_pc s j) = Some e" for i j e
  proof -
    have "e = sb_epoch sb0 + of_nat (g_num s i)" "e = sb_epoch sb0 + of_nat (g_num s j)" "0 < g_num s i"
      using l [OF that(1)] l [OF that(2)] e by (auto simp: locp_def)
    then have "(of_nat (g_num s i) :: u64) = of_nat (g_num s j)" by simp
    moreover have "g_num s i < 2 ^ 64" "g_num s j < 2 ^ 64"
      using iinvD(6) [OF inv, of i] iinvD(6) [OF inv, of j] assms(4) by simp_all
    ultimately have "g_num s i = g_num s j" by (rule of_nat_inj64)
    then show "i = j" using iinvD(3) [OF inv] \<open>0 < g_num s i\<close> unfolding posInj_def by blast
  qed
  then have ep: "\<forall>i < N. \<forall>j < N. i \<noteq> j \<and> epochOf (is_pc s i) \<noteq> None \<longrightarrow> epochOf (is_pc s i) \<noteq> epochOf (is_pc s j)"
    by fastforce
  have mine: "\<forall>i < N. \<forall>j < N. committed (is_pc s i) \<and> committed (is_pc s j) \<and> g_mine s i = g_mine s j \<longrightarrow> i = j"
    using l iinvD(2) [OF inv] unfolding locp_def posInj_def by blast
  show ?thesis using l ep mine by (simp add: locp_def)
qed

section \<open>Concrete runs\<close>

text \<open>The first endpoint initializes an empty segment alone.\<close>

definition wit_init :: "nat \<Rightarrow> initParams" where
  "wit_init i = \<lparr>ip_claim = wit_params roleCreator (of_nat i + 5), ip_slices = 0, ip_nanos = 1\<rparr>"

lemma wit_tok: "tok (wit_init i) = of_nat i + 5"
  by (simp add: wit_init_def wit_params_def)

lemma run_actions:
  assumes i: "i < N"
  shows "ireach P N sb0 s \<Longrightarrow> is_pc s i = IAct k \<Longrightarrow> sb_initToken (is_sb s) = tok (P i) \<Longrightarrow>
    k \<le> length (initProg (P i)) \<Longrightarrow>
    \<exists>s'. ireach P N sb0 s' \<and> is_pc s' = (is_pc s)(i := IAct (length (initProg (P i))))
      \<and> sb_initToken (is_sb s') = tok (P i) \<and> sb_state (is_sb s') = sb_state (is_sb s) \<and> g_bumps s' = g_bumps s"
proof (induction "length (initProg (P i)) - k" arbitrary: s k)
  case 0
  then have "(is_pc s)(i := IAct (length (initProg (P i)))) = is_pc s" by (simp add: fun_upd_idem)
  then show ?case using 0 by auto
next
  case (Suc d)
  then have k: "k < length (initProg (P i))" by simp
  define s1 where "s1 = goto i (IWrite k) s"
  define s2 where "s2 = goto i (IAct (Suc k)) (wr (snd (initProg (P i) ! k)) (countStale (tok (P i)) i s1))"
  have "istep P N s s1" unfolding s1_def by (rule istep.guard_ok) (use i Suc.prems k in simp_all)
  with Suc.prems(1) have r1: "ireach P N sb0 s1" by (rule ireach.step)
  have "istep P N s1 s2" unfolding s2_def by (rule istep.guarded_write) (use i in \<open>simp_all add: s1_def\<close>)
  with r1 have r2: "ireach P N sb0 s2" by (rule ireach.step)
  have "\<exists>s'. ireach P N sb0 s' \<and> is_pc s' = (is_pc s2)(i := IAct (length (initProg (P i))))
      \<and> sb_initToken (is_sb s') = tok (P i) \<and> sb_state (is_sb s') = sb_state (is_sb s2) \<and> g_bumps s' = g_bumps s2"
    by (rule Suc.hyps(1) [of "Suc k" s2]) (use Suc.hyps(2) Suc.prems k r2 in \<open>simp_all add: s2_def s1_def\<close>)
  then show ?case using k by (simp add: s2_def s1_def)
qed

text \<open>From a token seen in an Initializing segment to the first guarded action.\<close>

lemma run_begin:
  assumes i: "i < N" and r: "ireach P N sb0 s" and pc: "is_pc s i = IExpect (sb_initToken (is_sb s))"
  shows "\<exists>s'. ireach P N sb0 s' \<and> is_pc s' = (is_pc s)(i := IAct 0)
      \<and> sb_initToken (is_sb s') = tok (P i) \<and> sb_state (is_sb s') = sb_state (is_sb s) \<and> g_bumps s' = g_bumps s"
proof -
  define x where "x = sb_initToken (is_sb s)"
  define s1 where "s1 = goto i (ICas x) (wr stampLayout s)"
  define s2 where "s2 = goto i IBegun (wr (\<lambda>sb. sb\<lparr>sb_initToken := tok (P i)\<rparr>)
       (s1\<lparr>g_begins := Suc (g_begins s1), g_mine := (g_mine s1)(i := Suc (g_begins s1))\<rparr>))"
  define s3 where "s3 = goto i (IAct 0) (wr (\<lambda>sb. sb\<lparr>sb_creatorToken := o_creatorToken (cp_opts (ip_claim (P i))),
        sb_initHeartbeat := ip_nanos (P i)\<rparr>) (countStale (tok (P i)) i s2))"
  have "istep P N s s1" unfolding s1_def by (rule istep.stamp) (use i pc in \<open>simp_all add: x_def\<close>)
  with r have r1: "ireach P N sb0 s1" by (rule ireach.step)
  have "istep P N s1 s2" unfolding s2_def
    by (rule istep.swap_ok [of i N s1 x]) (use i in \<open>simp_all add: s1_def x_def stampLayout_def\<close>)
  with r1 have r2: "ireach P N sb0 s2" by (rule ireach.step)
  have "istep P N s2 s3" unfolding s3_def by (rule istep.record_owner) (use i in \<open>simp_all add: s2_def\<close>)
  with r2 have r3: "ireach P N sb0 s3" by (rule ireach.step)
  then show ?thesis
    by (intro exI [of _ s3]) (simp add: s3_def s2_def s1_def stampLayout_def)
qed

text \<open>Endpoint 0 initializes an empty segment up to and including the swap of its commit.\<close>

lemma run_commit:
  "\<exists>s. ireach wit_init 2 wit_zero s \<and> is_pc s = (\<lambda>_. IOut)(0 := IBump) \<and> sb_initToken (is_sb s) = 0
     \<and> sb_state (is_sb s) = superblockStateInitializing \<and> g_bumps s = 0"
proof -
  let ?r = "ireach wit_init 2 wit_zero"
  define s0 where "s0 = iinit wit_zero"
  define s1 where "s1 = goto 0 IWon (wr (\<lambda>sb. sb\<lparr>sb_state := superblockStateInitializing\<rparr>) s0)"
  define s2 where "s2 = goto 0 (IExpect (sb_initToken (is_sb s1))) s1"
  have r0: "?r s0" unfolding s0_def by (rule ireach.start)
  have "istep wit_init 2 s0 s1" unfolding s1_def
    by (rule istep.claim_empty_or_dead) (simp_all add: s0_def iinit_def wit_zero_def hqq_consts)
  with r0 have r1: "?r s1" by (rule ireach.step)
  have "istep wit_init 2 s1 s2" unfolding s2_def by (rule istep.load_token) (simp_all add: s1_def)
  with r1 have r2: "?r s2" by (rule ireach.step)
  obtain s3 where r3: "?r s3" "is_pc s3 = (is_pc s2)(0 := IAct 0)" "sb_initToken (is_sb s3) = tok (wit_init 0)"
    "sb_state (is_sb s3) = sb_state (is_sb s2)" "g_bumps s3 = g_bumps s2"
    using run_begin [OF _ r2, of 0] by (auto simp: s2_def)
  obtain s4 where r4: "?r s4" "is_pc s4 = (is_pc s3)(0 := IAct (length (initProg (wit_init 0))))"
    "sb_initToken (is_sb s4) = tok (wit_init 0)" "sb_state (is_sb s4) = sb_state (is_sb s3)" "g_bumps s4 = g_bumps s3"
    using run_actions [of 0 2 wit_init wit_zero s3 0] r3 by auto
  define s5 where "s5 = goto 0 IBump (wr (\<lambda>sb. sb\<lparr>sb_initToken := 0\<rparr>) (s4\<lparr>g_at := (g_at s4)(0 := g_begins s4)\<rparr>))"
  have "istep wit_init 2 s4 s5" unfolding s5_def by (rule istep.commit_ok) (use r4 in simp_all)
  with r4(1) have r5: "?r s5" by (rule ireach.step)
  show ?thesis
    by (intro exI [of _ s5]) (use r5 r4 r3 in \<open>simp add: s5_def s2_def s1_def s0_def iinit_def\<close>)
qed

lemma run_publish:
  assumes i: "i < N" and r: "ireach P N sb0 s" and pc: "is_pc s i = IBump"
  shows "\<exists>s' e. ireach P N sb0 s' \<and> is_pc s' = (is_pc s)(i := IDone e) \<and> sb_state (is_sb s') = superblockStateReady
     \<and> sb_initToken (is_sb s') = sb_initToken (is_sb s) \<and> g_bumps s' = Suc (g_bumps s)"
proof -
  let ?e = "sb_epoch (is_sb s) + 1"
  define s1 where "s1 = goto i (IReady ?e) (wr (\<lambda>sb. sb\<lparr>sb_epoch := sb_epoch sb + 1\<rparr>)
       (s\<lparr>g_bumps := Suc (g_bumps s), g_num := (g_num s)(i := Suc (g_bumps s))\<rparr>))"
  define s2 where "s2 = goto i (IDone ?e) (wr (\<lambda>sb. sb\<lparr>sb_state := superblockStateReady\<rparr>) s1)"
  have "istep P N s s1" unfolding s1_def by (rule istep.bump) (use i pc in simp_all)
  with r have r1: "ireach P N sb0 s1" by (rule ireach.step)
  have "istep P N s1 s2" unfolding s2_def by (rule istep.ready) (use i in \<open>simp_all add: s1_def\<close>)
  with r1 have "ireach P N sb0 s2" by (rule ireach.step)
  then show ?thesis by (intro exI [of _ s2] exI [of _ ?e]) (simp add: s2_def s1_def)
qed

lemma wit_tokens:
  "\<forall>i < 2. isOwnerToken (tok (wit_init i)) \<and> sb_initToken wit_zero \<noteq> tok (wit_init i)"
  "inj_on (\<lambda>i. tok (wit_init i)) {..<2}"
  by (auto simp: wit_tok isOwnerToken_def hqq_consts wit_zero_def less_2_cases_iff inj_on_def)

theorem initialization_exclusive_witness:
  "\<exists>s. ireach wit_init 2 wit_zero s \<and> committed (is_pc s 0) \<and> sb_state (is_sb s) = superblockStateReady
     \<and> g_at s 0 = g_mine s 0 \<and> g_stale s 0 = 0"
proof -
  obtain s where s: "ireach wit_init 2 wit_zero s" "is_pc s 0 = IBump" "g_bumps s = 0" using run_commit by fastforce
  obtain s' e where s': "ireach wit_init 2 wit_zero s'" "is_pc s' = (is_pc s)(0 := IDone e)"
    "sb_state (is_sb s') = superblockStateReady" "g_bumps s' = 1"
    using run_publish [OF _ s(1,2)] s(3) by auto
  then have c: "committed (is_pc s' 0)" "g_bumps s' < 2 ^ 64" by simp_all
  have "g_at s' 0 = g_mine s' 0 \<and> g_stale s' 0 = 0"
    using initialization_exclusive [OF s'(1) wit_tokens c(2), THEN conjunct2, THEN conjunct1] c(1) by simp
  then show ?thesis using c(1) s'(1,3) by blast
qed

text \<open>
  C38: The guarantee stops at the commit swap. An endpoint that is suspended between the swap of
  \<^verbatim>\<open>commitInit\<close> and its store of the state can be overtaken by an endpoint that found the
  token \<open>0\<close> stalled, and when it resumes it marks the segment Ready while the other endpoint
  has just begun to format it.
\<close>

theorem ready_while_other_initializes:
  "\<exists>s. ireach wit_init 2 wit_zero s \<and> sb_state (is_sb s) = superblockStateReady
     \<and> is_pc s 1 = IAct 0 \<and> sb_initToken (is_sb s) = tok (wit_init 1)"
proof -
  let ?r = "ireach wit_init 2 wit_zero"
  obtain s where s: "?r s" "is_pc s = (\<lambda>_. IOut)(0 := IBump)" "sb_state (is_sb s) = superblockStateInitializing"
    using run_commit by blast
  define s1 where "s1 = goto 1 (IExpect (sb_initToken (is_sb s))) s"
  have "istep wit_init 2 s s1" unfolding s1_def by (rule istep.take_over) (use s in simp_all)
  with s(1) have r1: "?r s1" by (rule ireach.step)
  obtain s2 where s2: "?r s2" "is_pc s2 = (is_pc s1)(1 := IAct 0)" "sb_initToken (is_sb s2) = tok (wit_init 1)"
    using run_begin [OF _ r1, of 1] by (auto simp: s1_def)
  then have "is_pc s2 0 = IBump" using s(2) by (simp add: s1_def)
  then obtain s3 e where s3: "?r s3" "is_pc s3 = (is_pc s2)(0 := IDone e)" "sb_state (is_sb s3) = superblockStateReady"
    "sb_initToken (is_sb s3) = sb_initToken (is_sb s2)"
    using run_publish [OF _ s2(1), of 0] by auto
  then show ?thesis by (intro exI [of _ s3]) (use s2 in simp)
qed

end
