(* ===== verification/Recv_Remainder.thy ===== *)
theory Recv_Remainder
  imports Hqq_Prelude
begin

text \<open>
  The queue of unread message tails of a link (\<^verbatim>\<open>recvRemainder\<close> of \<^verbatim>\<open>src/standard.go\<close>): the
  slice with its head index and its capacity, the recycled buffers, and the contract that the
  link relies on: tails come out in the order they were stored, and never merge.
\<close>

section \<open>Operations\<close>

record tail =
  t_buf :: bytes
  t_off :: nat
  t_end :: nat

record recvRemainder =
  rr_pending :: bool
  rr_queue :: "tail list"
  rr_cap :: nat              \<comment> \<open>\<^verbatim>\<open>cap(r.queue)\<close>\<close>
  rr_head :: nat
  rr_free :: "bytes list"
  rr_size :: nat

definition maxSpareTails :: nat where [hqq_consts]: "maxSpareTails = 4"

definition zeroTail :: tail where
  "zeroTail = \<lparr>t_buf = [], t_off = 0, t_end = 0\<rparr>"

definition newRemainder :: "nat \<Rightarrow> recvRemainder" where
  "newRemainder sz = \<lparr>rr_pending = False, rr_queue = [], rr_cap = 0, rr_head = 0, rr_free = [], rr_size = sz\<rparr>"

definition getBuf :: "nat \<Rightarrow> recvRemainder \<Rightarrow> bytes \<times> recvRemainder" where
  "getBuf n r =
     (if rr_free r \<noteq> [] then
        let b = last (rr_free r); r' = r\<lparr>rr_free := butlast (rr_free r)\<rparr> in
        if length b \<ge> n then (b, r') else (replicate (max n (rr_size r)) 0, r')
      else (replicate (max n (rr_size r)) 0, r))"

definition putBuf :: "bytes \<Rightarrow> recvRemainder \<Rightarrow> recvRemainder" where
  "putBuf b r = (if length (rr_free r) < maxSpareTails then r\<lparr>rr_free := rr_free r @ [b]\<rparr> else r)"

definition popLocked :: "recvRemainder \<Rightarrow> recvRemainder" where
  "popLocked r =
     (let r1 = r\<lparr>rr_queue := (rr_queue r)[rr_head r := zeroTail], rr_head := rr_head r + 1\<rparr> in
      if rr_head r1 = length (rr_queue r1) then r1\<lparr>rr_queue := [], rr_head := 0, rr_pending := False\<rparr> else r1)"

text \<open>\<open>grow\<close> is the growth of the capacity by \<^verbatim>\<open>append\<close> on a full slice.\<close>

definition store :: "(nat \<Rightarrow> nat) \<Rightarrow> bytes \<Rightarrow> recvRemainder \<Rightarrow> recvRemainder" where
  "store grow src r =
     (case getBuf (length src) r of
        (buf, r1) \<Rightarrow>
          let n = min (length buf) (length src);
              buf' = take n src @ drop n buf;
              r2 = (if rr_head r1 > 0 \<and> length (rr_queue r1) = rr_cap r1
                    then r1\<lparr>rr_queue := drop (rr_head r1) (rr_queue r1), rr_head := 0\<rparr> else r1);
              r3 = r2\<lparr>rr_cap := (if length (rr_queue r2) < rr_cap r2 then rr_cap r2 else grow (rr_cap r2)),
                      rr_queue := rr_queue r2 @ [\<lparr>t_buf = buf', t_off = 0, t_end = n\<rparr>]\<rparr> in
          r3\<lparr>rr_pending := True\<rparr>)"

text \<open>\<open>dst\<close> is the length of the destination; the result is the copied bytes.\<close>

definition tail_read :: "nat \<Rightarrow> bool \<Rightarrow> recvRemainder \<Rightarrow> bytes option \<times> recvRemainder" where
  "tail_read dst discard r =
     (if \<not> rr_pending r then (None, r)
      else if rr_head r = length (rr_queue r) then (None, r)
      else
        let t = rr_queue r ! rr_head r;
            out = take dst (slice_of (t_off t) (t_end t - t_off t) (t_buf t));
            t' = t\<lparr>t_off := t_off t + length out\<rparr>;
            r1 = r\<lparr>rr_queue := (rr_queue r)[rr_head r := t']\<rparr> in
        if discard \<or> t_off t' = t_end t' then (Some out, popLocked (putBuf (t_buf t') r1))
        else (Some out, r1))"

definition tail_take :: "recvRemainder \<Rightarrow> (bytes \<times> bytes) option \<times> recvRemainder" where
  "tail_take r =
     (if \<not> rr_pending r then (None, r)
      else if rr_head r = length (rr_queue r) then (None, r)
      else
        let t = rr_queue r ! rr_head r in
        (Some (slice_of (t_off t) (t_end t - t_off t) (t_buf t), t_buf t), popLocked r))"

definition giveBack :: "bytes \<Rightarrow> recvRemainder \<Rightarrow> recvRemainder" where
  "giveBack backing r = putBuf backing r"

section \<open>The contract\<close>

text \<open>
  The queue of tails as a list: a read returns bytes of the oldest tail only, however large its
  destination is, and drops that tail when it is used up (or when the caller discards the rest);
  a zero-copy read borrows the whole oldest tail.
\<close>

datatype tailOp = TStore bytes | TRead nat bool | TTake

fun specTail :: "tailOp \<Rightarrow> bytes list \<Rightarrow> bytes option \<times> bytes list" where
  "specTail (TStore src) ts = (None, ts @ [src])"
| "specTail (TRead n d) [] = (None, [])"
| "specTail (TRead n d) (t # ts) = (Some (take n t), if d \<or> length t \<le> n then ts else drop n t # ts)"
| "specTail TTake [] = (None, [])"
| "specTail TTake (t # ts) = (Some t, ts)"

fun specTails :: "tailOp list \<Rightarrow> bytes list \<Rightarrow> bytes option list \<times> bytes list" where
  "specTails [] ts = ([], ts)"
| "specTails (op # ops) ts = (case specTail op ts of (out, ts1) \<Rightarrow> (case specTails ops ts1 of (outs, ts2) \<Rightarrow> (out # outs, ts2)))"

locale tail_queue =
  fixes inv :: "'q \<Rightarrow> bool" and tails :: "'q \<Rightarrow> bytes list"
    and put :: "bytes \<Rightarrow> 'q \<Rightarrow> 'q" and get :: "nat \<Rightarrow> bool \<Rightarrow> 'q \<Rightarrow> bytes option \<times> 'q"
    and lend :: "'q \<Rightarrow> (bytes \<times> bytes) option \<times> 'q" and giveb :: "bytes \<Rightarrow> 'q \<Rightarrow> 'q"
  assumes put_ok: "inv q \<Longrightarrow> src \<noteq> [] \<Longrightarrow> inv (put src q) \<and> tails (put src q) = tails q @ [src]"
    and get_none: "inv q \<Longrightarrow> tails q = [] \<Longrightarrow> get n d q = (None, q)"
    and get_some: "inv q \<Longrightarrow> tails q = t # ts \<Longrightarrow>
      \<exists>q'. get n d q = (Some (take n t), q') \<and> inv q'
        \<and> tails q' = (if d \<or> length t \<le> n then ts else drop n t # ts)"
    and lend_none: "inv q \<Longrightarrow> tails q = [] \<Longrightarrow> lend q = (None, q)"
    and lend_some: "inv q \<Longrightarrow> tails q = t # ts \<Longrightarrow>
      \<exists>b q'. lend q = (Some (t, b), q') \<and> inv q' \<and> tails q' = ts"
    and giveb_ok: "inv q \<Longrightarrow> inv (giveb b q) \<and> tails (giveb b q) = tails q"
    and tails_ne: "inv q \<Longrightarrow> t \<in> set (tails q) \<Longrightarrow> t \<noteq> []"
begin

text \<open>Any sequence of calls has the results of the list.\<close>

fun tailOpRun :: "tailOp \<Rightarrow> 'q \<Rightarrow> bytes option \<times> 'q" where
  "tailOpRun (TStore src) q = (None, put src q)"
| "tailOpRun (TRead n d) q = get n d q"
| "tailOpRun TTake q = (case lend q of (None, q1) \<Rightarrow> (None, q1) | (Some (t, b), q1) \<Rightarrow> (Some t, giveb b q1))"

lemma tailOpRun_refines:
  assumes "inv q" "op \<noteq> TStore []"
  shows "\<exists>q'. tailOpRun op q = (fst (specTail op (tails q)), q') \<and> inv q' \<and> tails q' = snd (specTail op (tails q))"
proof (cases op)
  case (TStore src)
  then show ?thesis using put_ok [OF assms(1), of src] assms(2) by simp
next
  case (TRead n d)
  then show ?thesis using get_none [OF assms(1)] get_some [OF assms(1)] assms(1) by (cases "tails q") auto
next
  case TTake
  show ?thesis
  proof (cases "tails q")
    case Nil then show ?thesis using TTake lend_none [OF assms(1)] assms(1) by simp
  next
    case (Cons t ts)
    then obtain b q1 where "lend q = (Some (t, b), q1)" "inv q1" "tails q1 = ts" using lend_some [OF assms(1)] by blast
    then show ?thesis using TTake Cons giveb_ok [of q1 b] by simp
  qed
qed

end

section \<open>The remainder queue keeps the contract\<close>

definition tail_bytes :: "tail \<Rightarrow> bytes" where
  "tail_bytes t = slice_of (t_off t) (t_end t - t_off t) (t_buf t)"

definition rr_tails :: "recvRemainder \<Rightarrow> bytes list" where
  "rr_tails r = map tail_bytes (drop (rr_head r) (rr_queue r))"

definition rr_inv :: "recvRemainder \<Rightarrow> bool" where
  "rr_inv r \<longleftrightarrow>
     rr_head r \<le> length (rr_queue r) \<and> (rr_pending r \<longleftrightarrow> rr_head r < length (rr_queue r))
     \<and> length (rr_free r) \<le> maxSpareTails
     \<and> (\<forall>t \<in> set (drop (rr_head r) (rr_queue r)). t_off t < t_end t \<and> t_end t \<le> length (t_buf t))"

lemma rr_inv_new: "rr_inv (newRemainder sz)" "rr_tails (newRemainder sz) = []"
  by (simp_all add: rr_inv_def rr_tails_def newRemainder_def)

lemma putBuf_frame [simp]:
  "rr_queue (putBuf b r) = rr_queue r" "rr_head (putBuf b r) = rr_head r" "rr_pending (putBuf b r) = rr_pending r"
  by (simp_all add: putBuf_def)

lemma putBuf_free: "length (rr_free r) \<le> maxSpareTails \<Longrightarrow> length (rr_free (putBuf b r)) \<le> maxSpareTails"
  by (simp add: putBuf_def)

lemma rr_tails_head:
  assumes "rr_inv r"
  shows "rr_tails r = [] \<longleftrightarrow> \<not> rr_pending r"
    and "rr_tails r = t # ts \<Longrightarrow> rr_pending r \<and> rr_head r < length (rr_queue r)
      \<and> tail_bytes (rr_queue r ! rr_head r) = t \<and> map tail_bytes (drop (Suc (rr_head r)) (rr_queue r)) = ts"
  using assms by (auto simp: rr_tails_def rr_inv_def Cons_nth_drop_Suc [symmetric] not_less
      elim!: map_eq_Cons_D [THEN exE] dest!: map_eq_Cons_D)

lemma popLocked_ok:
  assumes "rr_inv r" "rr_pending r"
  shows "rr_inv (popLocked r)" "rr_tails (popLocked r) = tl (rr_tails r)"
proof -
  have h: "rr_head r < length (rr_queue r)" using assms by (simp add: rr_inv_def)
  have d: "drop (Suc (rr_head r)) ((rr_queue r)[rr_head r := zeroTail]) = drop (Suc (rr_head r)) (rr_queue r)"
    by (simp add: drop_update_cancel)
  have sub: "set (drop (Suc (rr_head r)) (rr_queue r)) \<subseteq> set (drop (rr_head r) (rr_queue r))"
    using h by (simp add: set_drop_subset_set_drop)
  show "rr_inv (popLocked r)"
    using assms h sub by (auto simp: rr_inv_def popLocked_def Let_def d)
  show "rr_tails (popLocked r) = tl (rr_tails r)"
    using h by (auto simp: rr_tails_def popLocked_def Let_def d Cons_nth_drop_Suc [symmetric])
qed

lemma getBuf_ok:
  assumes "getBuf n r = (buf, r')"
  shows "n \<le> length buf" "rr_queue r' = rr_queue r" "rr_head r' = rr_head r" "rr_cap r' = rr_cap r"
    "length (rr_free r) \<le> maxSpareTails \<Longrightarrow> length (rr_free r') \<le> maxSpareTails"
  using assms by (auto simp: getBuf_def Let_def split: if_splits)

lemma store_ok:
  assumes inv: "rr_inv r" and ne: "src \<noteq> []"
  shows "rr_inv (store grow src r)" "rr_tails (store grow src r) = rr_tails r @ [src]"
proof -
  obtain buf r1 where g: "getBuf (length src) r = (buf, r1)" by fastforce
  note gb = getBuf_ok [OF g]
  define t where "t = \<lparr>t_buf = src @ drop (length src) buf, t_off = 0, t_end = length src\<rparr>"
  have len: "min (length buf) (length src) = length src" using gb(1) by simp
  have live: "drop (rr_head (store grow src r)) (rr_queue (store grow src r)) = drop (rr_head r) (rr_queue r) @ [t]"
    "rr_head (store grow src r) \<le> length (rr_queue (store grow src r))"
    using inv by (simp_all add: store_def g len Let_def gb t_def rr_inv_def)
  have tb: "tail_bytes t = src" "t_off t < t_end t" "t_end t \<le> length (t_buf t)"
    using ne gb(1) by (simp_all add: t_def tail_bytes_def slice_of_def)
  have "rr_pending (store grow src r)" "length (rr_free (store grow src r)) \<le> maxSpareTails"
    using gb(5) inv by (simp_all add: store_def g Let_def rr_inv_def)
  moreover have "rr_head (store grow src r) < length (rr_queue (store grow src r))"
    using live by (metis drop_eq_Nil not_less snoc_eq_iff_butlast)
  ultimately show "rr_inv (store grow src r)" using live tb inv by (auto simp: rr_inv_def)
  show "rr_tails (store grow src r) = rr_tails r @ [src]" by (simp add: rr_tails_def live tb)
qed

lemma tail_bytes_read:
  assumes "t_off t < t_end t" "t_end t \<le> length (t_buf t)"
  shows "length (tail_bytes t) = t_end t - t_off t"
    and "tail_bytes (t\<lparr>t_off := t_off t + k\<rparr>) = drop k (tail_bytes t)"
  using assms by (simp_all add: tail_bytes_def slice_of_def drop_take add.commute)

lemma tail_read_ok:
  assumes inv: "rr_inv r" and ts: "rr_tails r = t # ts"
  shows "\<exists>r'. tail_read n d r = (Some (take n t), r') \<and> rr_inv r'
     \<and> rr_tails r' = (if d \<or> length t \<le> n then ts else drop n t # ts)"
proof -
  define u where "u = rr_queue r ! rr_head r"
  note h = rr_tails_head(2) [OF inv ts, folded u_def]
  have u: "t_off u < t_end u" "t_end u \<le> length (t_buf u)"
    using h inv by (auto simp: rr_inv_def Cons_nth_drop_Suc [symmetric] u_def)
  define u' where "u' = u\<lparr>t_off := t_off u + length (take n t)\<rparr>"
  define r1 where "r1 = r\<lparr>rr_queue := (rr_queue r)[rr_head r := u']\<rparr>"
  have tb: "tail_bytes u' = drop n t" "length t = t_end u - t_off u"
    using tail_bytes_read [OF u] h by (simp_all add: u'_def min_def)
  have d1: "drop (rr_head r) (rr_queue r1) = u' # drop (Suc (rr_head r)) (rr_queue r)"
    using h by (simp add: r1_def Cons_nth_drop_Suc [symmetric] drop_update_cancel)
  have ts1: "rr_tails r1 = drop n t # ts" using h d1 tb by (simp add: rr_tails_def) (simp add: r1_def)
  have full: "t_off u' = t_end u' \<longleftrightarrow> length t \<le> n" using tb(2) u by (auto simp: u'_def min_def)
  have sub: "set (drop (Suc (rr_head r)) (rr_queue r)) \<subseteq> set (drop (rr_head r) (rr_queue r))"
    by (simp add: set_drop_subset_set_drop)
  have rd: "tail_read n d r = (Some (take n t),
      if d \<or> length t \<le> n then popLocked (putBuf (t_buf u') r1) else r1)"
  proof -
    have hd: "slice_of (t_off u) (t_end u - t_off u) (t_buf u) = t" using h by (simp add: tail_bytes_def)
    have "tail_read n d r = (if d \<or> t_off u' = t_end u' then (Some (take n t), popLocked (putBuf (t_buf u') r1))
        else (Some (take n t), r1))"
      using h unfolding tail_read_def Let_def u_def [symmetric] hd u'_def [symmetric] r1_def [symmetric] by simp
    then show ?thesis using full by simp
  qed
  show ?thesis
  proof (cases "d \<or> length t \<le> n")
    case True
    let ?q = "putBuf (t_buf u') r1"
    define r2 where "r2 = ?q\<lparr>rr_queue := (rr_queue r1)[rr_head r := u]\<rparr>"
    have q2: "(rr_queue r1)[rr_head r := u] = rr_queue r" by (simp add: r1_def u_def)
    have inv2: "rr_inv r2" using inv putBuf_free [of r1] by (simp add: rr_inv_def r2_def q2) (simp add: r1_def)
    have pend: "rr_pending r2" using h by (simp add: r2_def r1_def)
    have same: "popLocked ?q = popLocked r2"
      by (simp add: popLocked_def Let_def r2_def) (simp add: r1_def)
    have "rr_tails r2 = rr_tails r" by (simp add: rr_tails_def r2_def q2) (simp add: r1_def)
    then show ?thesis using True rd popLocked_ok [OF inv2 pend] same ts by simp
  next
    case False
    have "t_off u + n < t_end u" using False tb(2) by linarith
    then have "rr_inv r1"
      using inv h d1 sub u False full
      by (auto simp: rr_inv_def r1_def u'_def Cons_nth_drop_Suc [symmetric] drop_update_cancel)
    then show ?thesis using False rd ts1 by simp
  qed
qed

interpretation rq: tail_queue rr_inv rr_tails "store grow" tail_read tail_take giveBack for grow
proof unfold_locales
  fix q :: recvRemainder and src t :: bytes and ts n d b
  assume inv: "rr_inv q"
  show "rr_inv (store grow src q) \<and> rr_tails (store grow src q) = rr_tails q @ [src]" if "src \<noteq> []"
    using store_ok [OF inv that] by simp
  show "tail_read n d q = (None, q)" "tail_take q = (None, q)" if "rr_tails q = []"
    using rr_tails_head(1) [OF inv] that by (simp_all add: tail_read_def tail_take_def)
  show "\<exists>q'. tail_read n d q = (Some (take n t), q') \<and> rr_inv q'
      \<and> rr_tails q' = (if d \<or> length t \<le> n then ts else drop n t # ts)" if "rr_tails q = t # ts"
    using inv that by (rule tail_read_ok)
  show "\<exists>b q'. tail_take q = (Some (t, b), q') \<and> rr_inv q' \<and> rr_tails q' = ts" if "rr_tails q = t # ts"
    using rr_tails_head(2) [OF inv that] popLocked_ok [OF inv] that
    by (simp add: tail_take_def Let_def tail_bytes_def)
  show "rr_inv (giveBack b q) \<and> rr_tails (giveBack b q) = rr_tails q"
    using inv putBuf_free [of q b] by (simp add: giveBack_def rr_inv_def rr_tails_def)
  show "t \<noteq> []" if "t \<in> set (rr_tails q)"
    using that inv tail_bytes_read(1) by (fastforce simp: rr_tails_def rr_inv_def)
qed

text \<open>A sequence of calls: \<^verbatim>\<open>store\<close>, \<^verbatim>\<open>read\<close>, and \<^verbatim>\<open>take\<close> followed by \<^verbatim>\<open>giveBack\<close>.\<close>

fun tailStep :: "(nat \<Rightarrow> nat) \<Rightarrow> tailOp \<Rightarrow> recvRemainder \<Rightarrow> bytes option \<times> recvRemainder" where
  "tailStep grow (TStore src) r = (None, store grow src r)"
| "tailStep grow (TRead n d) r = tail_read n d r"
| "tailStep grow TTake r = (case tail_take r of (None, r1) \<Rightarrow> (None, r1) | (Some (t, b), r1) \<Rightarrow> (Some t, giveBack b r1))"

fun tailRun :: "(nat \<Rightarrow> nat) \<Rightarrow> tailOp list \<Rightarrow> recvRemainder \<Rightarrow> bytes option list \<times> recvRemainder" where
  "tailRun grow [] r = ([], r)"
| "tailRun grow (op # ops) r = (case tailStep grow op r of (out, r1) \<Rightarrow> (case tailRun grow ops r1 of (outs, r2) \<Rightarrow> (out # outs, r2)))"

lemma tailStep_run: "tailStep grow op r = rq.tailOpRun grow op r"
  by (cases op) (simp_all add: rq.tailOpRun.simps split: prod.split option.split)

lemma tailRun_refines:
  assumes "rr_inv r" "TStore [] \<notin> set ops"
  shows "\<exists>r'. tailRun grow ops r = (fst (specTails ops (rr_tails r)), r') \<and> rr_inv r' \<and> rr_tails r' = snd (specTails ops (rr_tails r))"
  using assms
proof (induction ops arbitrary: r)
  case Nil then show ?case by simp
next
  case (Cons op ops)
  obtain r1 where r1: "tailStep grow op r = (fst (specTail op (rr_tails r)), r1)" "rr_inv r1"
    "rr_tails r1 = snd (specTail op (rr_tails r))"
    using rq.tailOpRun_refines [OF Cons.prems(1), of op grow] Cons.prems(2) by (auto simp: tailStep_run)
  then show ?case using Cons.IH [OF r1(2)] Cons.prems(2) by (auto split: prod.splits)
qed

text \<open>
  C33: Unread tails come back in order and unmixed. For every sequence of stores, reads with
  destinations of any length (also longer than the tail), discarding reads and zero-copy reads,
  the results are those of a list of tails in which a read takes bytes of the oldest tail only: no
  call returns bytes of two tails, the rest of a tail stays in front of the others, and a used-up or
  discarded one is gone; at most four spare buffers are kept.
\<close>

theorem remainder_fifo:
  assumes "rr_inv r" "TStore [] \<notin> set ops" "tailRun grow ops r = (outs, r')"
  shows "(outs, rr_tails r') = specTails ops (rr_tails r) \<and> rr_inv r' \<and> length (rr_free r') \<le> maxSpareTails"
  using tailRun_refines [OF assms(1,2), of grow] assms(3) by (auto simp: rr_inv_def)

text \<open>A read with room for eight bytes returns the five of the first tail only.\<close>

theorem remainder_fifo_witness:
  "fst (tailRun (\<lambda>c. c + 4) [TStore [1, 2, 3, 4, 5], TStore [9, 9], TRead 2 False, TRead 8 False, TTake] (newRemainder 8))
     = [None, None, Some [1, 2], Some [3, 4, 5], Some [9, 9]]"
proof -
  let ?ops = "[TStore [1, 2, 3, 4, 5], TStore [9, 9], TRead 2 False, TRead 8 False, TTake]"
  obtain outs r' where r: "tailRun (\<lambda>c. c + 4) ?ops (newRemainder 8) = (outs, r')" by fastforce
  have "TStore [] \<notin> set ?ops" by simp
  from remainder_fifo [OF rr_inv_new(1) this r] show ?thesis unfolding r rr_inv_new(2) by simp
qed

end
