(* ===== verification/Standard_Link.thy ===== *)
theory Standard_Link
  imports Packet Mpmc_Fifo Mpmc_Wait Superblock Recv_Remainder
begin

text \<open>
  The Standard link (\<^verbatim>\<open>src/standard.go\<close>, \<^verbatim>\<open>src/reservation.go\<close>, \<^verbatim>\<open>src/packetconn.go\<close>): the state of
  an endpoint and its calls. A payload buffer belongs to the ring slot of the same index, so the
  slots of the model hold pairs of a packet and a buffer, and what another process does while a
  call waits (a turn of \<^verbatim>\<open>Mpmc_Ring\<close>) may change both. A call that blocks for ever has the
  value \<open>None\<close>. The error of a turn is what the wait of \<^verbatim>\<open>Mpmc_Wait\<close> ended with; the check of a
  link is its look at the peer.
\<close>

section \<open>State\<close>

type_synonym slotData = "Packet \<times> bytes"
type_synonym linkRing = "slotData mring"
type_synonym linkTurn = "(slotData, err werr) turn"

record StandardLink =
  lk_mode :: LinkMode
  lk_bufferCount :: nat
  lk_bufferSize :: nat
  lk_opts :: LinkOptions
  lk_token :: u64
  lk_epoch :: u64
  lk_h0 :: mhandle
  lk_h1 :: mhandle
  lk_recv :: recvRemainder
  lk_readDeadline :: "int option"
  lk_writeDeadline :: "int option"
  lk_closed :: bool
  lk_hb :: bool                \<comment> \<open>the heartbeat goroutine runs (\<^verbatim>\<open>hbStop\<close> is not nil)\<close>
  lk_peer :: peerMonitor
  lk_rxActive :: int
  lk_txActive :: int
  lk_txBase :: u64

record segment =
  sg_sb :: standardSuperblock
  sg_ring0 :: linkRing
  sg_ring1 :: linkRing

definition ident :: "StandardLink \<Rightarrow> linkIdent" where
  "ident l = \<lparr>li_self = lk_mode l, li_token = lk_token l, li_epoch = lk_epoch l, li_opts = lk_opts l\<rparr>"

text \<open>The Secondary sends on ring 1 and receives on ring 0, the Primary the other way round.\<close>

definition txHandle :: "StandardLink \<Rightarrow> mhandle" where
  "txHandle l = (if lk_mode l = LinkModeSecondary then lk_h1 l else lk_h0 l)"

definition rxHandle :: "StandardLink \<Rightarrow> mhandle" where
  "rxHandle l = (if lk_mode l = LinkModeSecondary then lk_h0 l else lk_h1 l)"

definition txRing :: "StandardLink \<Rightarrow> segment \<Rightarrow> linkRing" where
  "txRing l sg = (if lk_mode l = LinkModeSecondary then sg_ring1 sg else sg_ring0 sg)"

definition rxRing :: "StandardLink \<Rightarrow> segment \<Rightarrow> linkRing" where
  "rxRing l sg = (if lk_mode l = LinkModeSecondary then sg_ring0 sg else sg_ring1 sg)"

definition set_txRing :: "StandardLink \<Rightarrow> linkRing \<Rightarrow> segment \<Rightarrow> segment" where
  "set_txRing l m sg = (if lk_mode l = LinkModeSecondary then sg\<lparr>sg_ring1 := m\<rparr> else sg\<lparr>sg_ring0 := m\<rparr>)"

definition set_rxRing :: "StandardLink \<Rightarrow> linkRing \<Rightarrow> segment \<Rightarrow> segment" where
  "set_rxRing l m sg = (if lk_mode l = LinkModeSecondary then sg\<lparr>sg_ring0 := m\<rparr> else sg\<lparr>sg_ring1 := m\<rparr>)"

section \<open>Entering and leaving a call\<close>

definition enterRx :: "StandardLink \<Rightarrow> err option \<times> StandardLink" where
  "enterRx l =
     (let l1 = l\<lparr>lk_rxActive := lk_rxActive l + 1\<rparr> in
      if lk_closed l1 then (Some Errors.ErrClosed, l1\<lparr>lk_rxActive := lk_rxActive l1 - 1\<rparr>) else (None, l1))"

definition exitRx :: "StandardLink \<Rightarrow> StandardLink" where
  "exitRx l = l\<lparr>lk_rxActive := lk_rxActive l - 1\<rparr>"

definition admitTx :: "bool \<Rightarrow> int \<Rightarrow> standardSuperblock \<Rightarrow> StandardLink \<Rightarrow> err option \<times> StandardLink" where
  "admitTx check now sb l =
     (if lk_closed l then (Some Errors.ErrClosed, l)
      else if \<not> check then (None, l)
      else
        let l1 = (if \<not> lk_hb l then l\<lparr>lk_peer := snd (checkPeer (ident l) now sb (lk_peer l))\<rparr> else l) in
        (PeerState_err (pm_status (lk_peer l1)), l1))"

definition enterTx :: "bool \<Rightarrow> int \<Rightarrow> standardSuperblock \<Rightarrow> StandardLink \<Rightarrow> err option \<times> StandardLink" where
  "enterTx check now sb l =
     (case admitTx check now sb (l\<lparr>lk_txActive := lk_txActive l + 1\<rparr>) of
        (Some er, l1) \<Rightarrow> (Some er, l1\<lparr>lk_txActive := lk_txActive l1 - 1\<rparr>)
      | (None, l1) \<Rightarrow> (None, l1))"

definition exitTx :: "StandardLink \<Rightarrow> StandardLink" where
  "exitTx l = l\<lparr>lk_txActive := lk_txActive l - 1\<rparr>"

definition mapWaitErr :: "err werr \<Rightarrow> err" where
  "mapWaitErr e = (case e of werr.ErrClosed \<Rightarrow> Errors.ErrClosed | werr.ErrTimeout \<Rightarrow> Errors.ErrTimeout
     | ErrCheck er \<Rightarrow> er | ErrCanceled \<Rightarrow> MpmcErrCanceled)"

definition peerLost :: "err werr \<Rightarrow> bool" where
  "peerLost e \<longleftrightarrow> e = ErrCheck ErrPeerClosed \<or> e = ErrCheck ErrPeerGone"

text \<open>Under \<^verbatim>\<open>drainCancel\<close> every wait ends at once with \<^verbatim>\<open>ErrTimeout\<close>.\<close>

definition drainTurns :: "(linkRing \<Rightarrow> linkRing) list \<Rightarrow> linkTurn list" where
  "drainTurns fs = map (\<lambda>f. (f, Some werr.ErrTimeout)) fs"

definition dequeueDrained ::
    "mhandle \<Rightarrow> linkTurn list \<Rightarrow> (linkRing \<Rightarrow> linkRing) list \<Rightarrow> (u64 \<Rightarrow> slotData \<Rightarrow> slotData \<times> bool) \<Rightarrow> linkRing
       \<Rightarrow> (err werr zc_result \<times> linkRing \<times> wake_event list) option" where
  "dequeueDrained h turns fs fn m =
     (case DequeueZeroCopyCancel h turns fn m of
        Some (ZcErr er, m1, ev) \<Rightarrow>
          if peerLost er then
            (case DequeueZeroCopyCancel h (drainTurns fs) fn m1 of
               None \<Rightarrow> None
             | Some (ZcErr _, m2, ev2) \<Rightarrow> Some (ZcErr er, m2, ev @ ev2)
             | Some (r, m2, ev2) \<Rightarrow> Some (r, m2, ev @ ev2))
          else Some (ZcErr er, m1, ev)
      | r \<Rightarrow> r)"

definition reserveRetry :: "mhandle \<Rightarrow> (linkRing \<Rightarrow> linkRing) list \<Rightarrow> err werr \<Rightarrow> linkRing
     \<Rightarrow> ((err werr + mslot) \<times> linkRing) option" where
  "reserveRetry h fs er m =
     (case ReserveConsumerCancel h (drainTurns fs) m of
        None \<Rightarrow> None
      | Some (Inr s, m') \<Rightarrow> Some (Inr s, m')
      | Some (Inl _, m') \<Rightarrow> Some (Inl er, m'))"

definition reserveDrained :: "mhandle \<Rightarrow> linkTurn list \<Rightarrow> (linkRing \<Rightarrow> linkRing) list \<Rightarrow> linkRing
     \<Rightarrow> ((err werr + mslot) \<times> linkRing) option" where
  "reserveDrained h turns fs m =
     (case ReserveConsumerCancel h turns m of
        Some (Inl er, m') \<Rightarrow> if peerLost er then reserveRetry h fs er m' else Some (Inl er, m')
      | r \<Rightarrow> r)"

definition reserveRx :: "mhandle \<Rightarrow> linkTurn list \<Rightarrow> (linkRing \<Rightarrow> linkRing) list \<Rightarrow> linkRing
     \<Rightarrow> ((err + mslot) \<times> linkRing) option" where
  "reserveRx h turns fs m =
     (case reserveDrained h turns fs m of
        None \<Rightarrow> None
      | Some (Inl er, m') \<Rightarrow> Some (Inl (mapWaitErr er), m')
      | Some (Inr s, m') \<Rightarrow> Some (Inr s, m'))"

definition classify :: "nat \<Rightarrow> Packet \<Rightarrow> err + nat" where
  "classify bufferSize p =
     (if Op p = OpStandardLinkTombstone then Inr 0
      else if Op p = OpStandardLinkCopy then
        let sz = sint (Operand p 2) in
        if sz \<le> 0 \<or> sz > int bufferSize then Inl ErrInvalidSize else Inr (nat sz)
      else if Op p = OpError then Inl (errorFromCode (Operand p 1))
      else Inl ErrUnexpectedPacket)"

definition copyID :: "StandardLink \<Rightarrow> mslot \<Rightarrow> u64" where
  "copyID l s = Position s - lk_txBase l + 1"

definition storeCopyPacket :: "u64 \<Rightarrow> u64 \<Rightarrow> u64 \<Rightarrow> Packet \<Rightarrow> Packet" where
  "storeCopyPacket cid slot sz p =
     put_at 24 (put64 sz) (put_at 16 (put64 slot) (put_at 8 (put64 cid)
       (put_at 0 (put64 (ucast OpStandardLinkCopy)) p)))"

section \<open>Receiving\<close>

text \<open>One attempt of a receive loop: the turns of its wait and of its drain.\<close>

type_synonym attempt = "linkTurn list \<times> (linkRing \<Rightarrow> linkRing) list"

text \<open>
  The receive loops of \<^verbatim>\<open>recvMessage\<close>, \<^verbatim>\<open>ReadZeroCopy\<close> and \<^verbatim>\<open>ReserveRead\<close> up to the claim of a
  slot with a payload: the slot and the payload size, or the error.
\<close>

fun nextMessage :: "mhandle \<Rightarrow> nat \<Rightarrow> attempt list \<Rightarrow> linkRing
     \<Rightarrow> ((err + mslot \<times> nat) \<times> linkRing \<times> wake_event list) option" where
  "nextMessage h bufferSize [] m = None"
| "nextMessage h bufferSize ((turns, fs) # atts) m =
     (case reserveRx h turns fs m of
        None \<Rightarrow> None
      | Some (Inl er, m1) \<Rightarrow> Some (Inl er, m1, [])
      | Some (Inr s, m1) \<Rightarrow>
          (case classify bufferSize (fst (slot_data h (sl_pos s) m1)) of
             Inl er \<Rightarrow> (case ReleaseOwned h s m1 of (m2, ev) \<Rightarrow> Some (Inl er, m2, ev))
           | Inr sz \<Rightarrow>
               if sz = 0 then
                 (case ReleaseOwned h s m1 of
                    (m2, ev) \<Rightarrow>
                      (case nextMessage h bufferSize atts m2 of
                         None \<Rightarrow> None
                       | Some (r, m3, ev3) \<Rightarrow> Some (r, m3, ev @ ev3)))
               else Some (Inr (s, sz), m1, [])))"

definition slotPayload :: "mhandle \<Rightarrow> mslot \<Rightarrow> nat \<Rightarrow> linkRing \<Rightarrow> bytes" where
  "slotPayload h s sz m = take sz (snd (slot_data h (sl_pos s) m))"

text \<open>
  \<^verbatim>\<open>recvMessage\<close> into a buffer of \<open>n\<close> bytes; the result is the bytes copied, and the error. Only an
  error of the wait can be the one that becomes the end of file: the error of a packet never is
  (lemma \<open>classify_not_closed\<close>).
\<close>

definition recvMessage :: "(nat \<Rightarrow> nat) \<Rightarrow> bool \<Rightarrow> nat \<Rightarrow> attempt list \<Rightarrow> StandardLink \<Rightarrow> segment
     \<Rightarrow> ((bytes \<times> err option) \<times> StandardLink \<times> segment \<times> wake_event list) option" where
  "recvMessage grow datagram n atts l sg =
     (case enterRx l of
        (Some er, l1) \<Rightarrow> Some (([], Some er), l1, sg, [])
      | (None, l1) \<Rightarrow>
        (case (if rr_pending (lk_recv l1) then tail_read n datagram (lk_recv l1) else (None, lk_recv l1)) of
           (Some out, rr) \<Rightarrow> Some ((out, None), exitRx (l1\<lparr>lk_recv := rr\<rparr>), sg, [])
         | (None, rr) \<Rightarrow>
           (case nextMessage (rxHandle l1) (lk_bufferSize l1) atts (rxRing l1 sg) of
              None \<Rightarrow> None
            | Some (Inl er, m, ev) \<Rightarrow>
                Some (([], Some (if er = ErrPeerClosed then IoEOF else er)), exitRx l1, set_rxRing l1 m sg, ev)
            | Some (Inr (s, sz), m, ev) \<Rightarrow>
                let payload = slotPayload (rxHandle l1) s sz m;
                    out = take n payload;
                    l2 = (if length out < sz \<and> \<not> datagram
                          then l1\<lparr>lk_recv := store grow (drop (length out) payload) (lk_recv l1)\<rparr> else l1) in
                (case ReleaseOwned (rxHandle l1) s m of
                   (m2, ev2) \<Rightarrow> Some ((out, None), exitRx l2, set_rxRing l1 m2 sg, ev @ ev2)))))"

definition Read :: "(nat \<Rightarrow> nat) \<Rightarrow> nat \<Rightarrow> attempt list \<Rightarrow> StandardLink \<Rightarrow> segment
     \<Rightarrow> ((bytes \<times> err option) \<times> StandardLink \<times> segment \<times> wake_event list) option" where
  "Read grow n atts l sg =
     (if n = 0 then Some (([], None), l, sg, []) else recvMessage grow False n atts l sg)"

section \<open>Sending\<close>

text \<open>Filling a claimed slot: its buffer starts with \<open>b\<close>, its packet announces it.\<close>

definition fillCopy :: "StandardLink \<Rightarrow> mslot \<Rightarrow> bytes \<Rightarrow> slotData \<Rightarrow> slotData" where
  "fillCopy l s b d =
     (storeCopyPacket (copyID l s) (Slot (txHandle l) s) (of_nat (length b)) (fst d), b @ drop (length b) (snd d))"

definition Write :: "int \<Rightarrow> linkTurn list \<Rightarrow> bytes \<Rightarrow> StandardLink \<Rightarrow> segment
     \<Rightarrow> ((nat \<times> err option) \<times> StandardLink \<times> segment \<times> wake_event list) option" where
  "Write now turns b l sg =
     (if b = [] then Some ((0, None), l, sg, [])
      else if length b > lk_bufferSize l then Some ((0, Some ErrBufferOverflow), l, sg, [])
      else case enterTx True now (sg_sb sg) l of
        (Some er, l1) \<Rightarrow> Some ((0, Some er), l1, sg, [])
      | (None, l1) \<Rightarrow>
        (case ReserveProducerCancel (txHandle l1) turns (txRing l1 sg) of
           None \<Rightarrow> None
         | Some (Inl er, m) \<Rightarrow> Some ((0, Some (mapWaitErr er)), exitTx l1, set_txRing l1 m sg, [])
         | Some (Inr s, m) \<Rightarrow>
             let m1 = set_data (txHandle l1) (sl_pos s) (fillCopy l1 s b (slot_data (txHandle l1) (sl_pos s) m)) m in
             (case CommitOwned (txHandle l1) s m1 of
                (m2, ev) \<Rightarrow> Some ((length b, None), exitTx l1, set_txRing l1 m2 sg, ev))))"

text \<open>What a write callback does with the buffer: its contents afterwards, and how it ended.\<close>

datatype fill_out = FillRet int "err option" | FillPanic

datatype send_out = SendRet nat "err option" | SendPanic

definition fillSlot :: "StandardLink \<Rightarrow> mslot \<Rightarrow> (bytes \<Rightarrow> bytes \<times> fill_out) \<Rightarrow> linkRing
     \<Rightarrow> send_out \<times> linkRing \<times> wake_event list" where
  "fillSlot l s fn m =
     (let h = txHandle l; idx = Slot h s; cid = copyID l s; d = slot_data h (sl_pos s) m;
          (buf, out) = fn (snd d);
          (p, r) = (case out of
             FillPanic \<Rightarrow> (NewStandardLinkTombstonePacket cid idx ErrCodeInvalidOp, SendPanic)
           | FillRet n (Some er) \<Rightarrow> (NewStandardLinkTombstonePacket cid idx ErrCodeInvalidOp, SendRet 0 (Some er))
           | FillRet n None \<Rightarrow>
               if n \<le> 0 then (NewStandardLinkTombstonePacket cid idx ErrCodeInvalidSize, SendRet 0 (Some ErrInvalidSize))
               else if n > int (length (snd d))
               then (NewStandardLinkTombstonePacket cid idx ErrCodeBufferOverflow, SendRet 0 (Some ErrBufferOverflow))
               else (storeCopyPacket cid idx (of_int n) (fst d), SendRet (nat n) None)) in
      (r, CommitOwned h s (set_data h (sl_pos s) (p, buf) m)))"

definition WriteZeroCopy :: "int \<Rightarrow> linkTurn list \<Rightarrow> (bytes \<Rightarrow> bytes \<times> fill_out) option \<Rightarrow> StandardLink \<Rightarrow> segment
     \<Rightarrow> (send_out \<times> StandardLink \<times> segment \<times> wake_event list) option" where
  "WriteZeroCopy now turns fn l sg =
     (case fn of
        None \<Rightarrow> Some (SendRet 0 (Some ErrInvalidOp), l, sg, [])
      | Some f \<Rightarrow>
        (case enterTx True now (sg_sb sg) l of
           (Some er, l1) \<Rightarrow> Some (SendRet 0 (Some er), l1, sg, [])
         | (None, l1) \<Rightarrow>
           (case ReserveProducerCancel (txHandle l1) turns (txRing l1 sg) of
              None \<Rightarrow> None
            | Some (Inl er, m) \<Rightarrow> Some (SendRet 0 (Some (mapWaitErr er)), exitTx l1, set_txRing l1 m sg, [])
            | Some (Inr s, m) \<Rightarrow>
                (case fillSlot l1 s f m of
                   (r, m2, ev) \<Rightarrow> Some (r, exitTx l1, set_txRing l1 m2 sg, ev)))))"

section \<open>Zero-copy receive\<close>

datatype use_out = UseRet "err option" | UsePanic

text \<open>\<^verbatim>\<open>deliverZeroCopy\<close>: the callback sees the payload, may overwrite it, and the slot is released.\<close>

definition deliverZeroCopy :: "mhandle \<Rightarrow> mslot \<Rightarrow> nat \<Rightarrow> (bytes \<Rightarrow> bytes \<times> use_out) \<Rightarrow> linkRing
     \<Rightarrow> send_out \<times> linkRing \<times> wake_event list" where
  "deliverZeroCopy h s sz fn m =
     (let d = slot_data h (sl_pos s) m; (v, out) = fn (take sz (snd d));
          m1 = set_data h (sl_pos s) (fst d, take sz v @ drop sz (snd d)) m in
      (case out of UsePanic \<Rightarrow> SendPanic | UseRet (Some er) \<Rightarrow> SendRet 0 (Some er) | UseRet None \<Rightarrow> SendRet sz None,
       ReleaseOwned h s m1))"

definition ReadZeroCopy :: "attempt list \<Rightarrow> (bytes \<Rightarrow> bytes \<times> use_out) option \<Rightarrow> StandardLink \<Rightarrow> segment
     \<Rightarrow> (send_out \<times> StandardLink \<times> segment \<times> wake_event list) option" where
  "ReadZeroCopy atts fn l sg =
     (case fn of
        None \<Rightarrow> Some (SendRet 0 (Some ErrInvalidOp), l, sg, [])
      | Some f \<Rightarrow>
        (case enterRx l of
           (Some er, l1) \<Rightarrow> Some (SendRet 0 (Some er), l1, sg, [])
         | (None, l1) \<Rightarrow>
           (case (if rr_pending (lk_recv l1) then tail_take (lk_recv l1) else (None, lk_recv l1)) of
              (Some (view, backing), rr) \<Rightarrow>
                Some (case snd (f view) of UsePanic \<Rightarrow> SendPanic | UseRet (Some er) \<Rightarrow> SendRet 0 (Some er)
                        | UseRet None \<Rightarrow> SendRet (length view) None,
                      exitRx (l1\<lparr>lk_recv := giveBack backing rr\<rparr>), sg, [])
            | (None, rr) \<Rightarrow>
              (case nextMessage (rxHandle l1) (lk_bufferSize l1) atts (rxRing l1 sg) of
                 None \<Rightarrow> None
               | Some (Inl er, m, ev) \<Rightarrow> Some (SendRet 0 (Some er), exitRx l1, set_rxRing l1 m sg, ev)
               | Some (Inr (s, sz), m, ev) \<Rightarrow>
                   (case deliverZeroCopy (rxHandle l1) s sz f m of
                      (r, m2, ev2) \<Rightarrow> Some (r, exitRx l1, set_rxRing l1 m2 sg, ev @ ev2))))))"

section \<open>Reservations\<close>

record StandardWriteReservation =
  wr_slot :: mslot
  wr_copyID :: u64
  wr_done :: bool

text \<open>A nil reservation is \<open>None\<close>; the buffer is that of the slot.\<close>

definition ReserveWrite :: "int \<Rightarrow> linkTurn list \<Rightarrow> StandardLink \<Rightarrow> segment
     \<Rightarrow> ((err + StandardWriteReservation) \<times> StandardLink \<times> segment) option" where
  "ReserveWrite now turns l sg =
     (case enterTx True now (sg_sb sg) l of
        (Some er, l1) \<Rightarrow> Some (Inl er, l1, sg)
      | (None, l1) \<Rightarrow>
        (case ReserveProducerCancel (txHandle l1) turns (txRing l1 sg) of
           None \<Rightarrow> None
         | Some (Inl er, m) \<Rightarrow> Some (Inl (mapWaitErr er), exitTx l1, set_txRing l1 m sg)
         | Some (Inr s, m) \<Rightarrow>
             Some (Inr \<lparr>wr_slot = s, wr_copyID = copyID l1 s, wr_done = False\<rparr>, exitTx l1, set_txRing l1 m sg)))"

definition wr_usable :: "StandardLink \<Rightarrow> segment \<Rightarrow> StandardWriteReservation option \<Rightarrow> bool" where
  "wr_usable l sg r \<longleftrightarrow>
     (case r of None \<Rightarrow> False
      | Some r \<Rightarrow> \<not> wr_done r \<and> producerOwned (txHandle l) (wr_slot r) (txRing l sg))"

definition wr_Slot :: "StandardLink \<Rightarrow> StandardWriteReservation option \<Rightarrow> u64" where
  "wr_Slot l r = (case r of None \<Rightarrow> 0 | Some r \<Rightarrow> Slot (txHandle l) (wr_slot r))"

definition wr_Buffer :: "StandardLink \<Rightarrow> segment \<Rightarrow> StandardWriteReservation option \<Rightarrow> bytes option" where
  "wr_Buffer l sg r =
     (if \<not> wr_usable l sg r then None
      else Some (snd (slot_data (txHandle l) (sl_pos (wr_slot (the r))) (txRing l sg))))"

text \<open>Storing a packet in the slot and committing it, the end of \<^verbatim>\<open>Commit\<close> and of \<^verbatim>\<open>publishTombstone\<close>.\<close>

definition wr_publish :: "int \<Rightarrow> (Packet \<Rightarrow> Packet) \<Rightarrow> StandardWriteReservation \<Rightarrow> StandardLink \<Rightarrow> segment
     \<Rightarrow> err option \<times> StandardWriteReservation \<times> StandardLink \<times> segment \<times> wake_event list" where
  "wr_publish now f r l sg =
     (case enterTx False now (sg_sb sg) l of
        (Some er, l1) \<Rightarrow> (Some er, r, l1, sg, [])
      | (None, l1) \<Rightarrow>
          let h = txHandle l1; s = wr_slot r; d = slot_data h (sl_pos s) (txRing l1 sg);
              m1 = set_data h (sl_pos s) (f (fst d), snd d) (txRing l1 sg) in
          (case Commit h s m1 of
             (ok, s', m2, ev) \<Rightarrow>
               (if ok then None else Some ErrInvalidOp, r\<lparr>wr_slot := s', wr_done := True\<rparr>, exitTx l1,
                set_txRing l1 m2 sg, ev)))"

definition publishTombstone :: "int \<Rightarrow> u64 \<Rightarrow> StandardWriteReservation \<Rightarrow> StandardLink \<Rightarrow> segment
     \<Rightarrow> err option \<times> StandardWriteReservation \<times> StandardLink \<times> segment \<times> wake_event list" where
  "publishTombstone now reason r l sg =
     wr_publish now (\<lambda>_. NewStandardLinkTombstonePacket (wr_copyID r) (Slot (txHandle l) (wr_slot r)) reason) r l sg"

definition wr_Commit :: "int \<Rightarrow> int \<Rightarrow> StandardWriteReservation \<Rightarrow> StandardLink \<Rightarrow> segment
     \<Rightarrow> err option \<times> StandardWriteReservation \<times> StandardLink \<times> segment \<times> wake_event list" where
  "wr_Commit now n r l sg =
     (if \<not> wr_usable l sg (Some r) then (Some ErrInvalidOp, r, l, sg, [])
      else if n \<le> 0 then
        (case publishTombstone now ErrCodeInvalidSize r l sg of
           (Some er, x) \<Rightarrow> (Some er, x) | (None, x) \<Rightarrow> (Some ErrInvalidSize, x))
      else if n > int (length (snd (slot_data (txHandle l) (sl_pos (wr_slot r)) (txRing l sg)))) then
        (case publishTombstone now ErrCodeBufferOverflow r l sg of
           (Some er, x) \<Rightarrow> (Some er, x) | (None, x) \<Rightarrow> (Some ErrBufferOverflow, x))
      else wr_publish now (storeCopyPacket (wr_copyID r) (Slot (txHandle l) (wr_slot r)) (of_int n)) r l sg)"

definition wr_Abort :: "int \<Rightarrow> u64 \<Rightarrow> StandardWriteReservation \<Rightarrow> StandardLink \<Rightarrow> segment
     \<Rightarrow> err option \<times> StandardWriteReservation \<times> StandardLink \<times> segment \<times> wake_event list" where
  "wr_Abort now reason r l sg =
     (if \<not> wr_usable l sg (Some r) then (Some ErrInvalidOp, r, l, sg, [])
      else publishTombstone now (if reason = 0 then ErrCodeInvalidOp else reason) r l sg)"

record StandardReadReservation =
  rd_slot :: mslot
  rd_size :: nat
  rd_view :: bytes       \<comment> \<open>the payload of a local reservation\<close>
  rd_backing :: bytes
  rd_local :: bool
  rd_done :: bool

definition ReserveRead :: "attempt list \<Rightarrow> StandardLink \<Rightarrow> segment
     \<Rightarrow> ((err + StandardReadReservation) \<times> StandardLink \<times> segment \<times> wake_event list) option" where
  "ReserveRead atts l sg =
     (case enterRx l of
        (Some er, l1) \<Rightarrow> Some (Inl er, l1, sg, [])
      | (None, l1) \<Rightarrow>
        (case (if rr_pending (lk_recv l1) then tail_take (lk_recv l1) else (None, lk_recv l1)) of
           (Some (view, backing), rr) \<Rightarrow>
             Some (Inr \<lparr>rd_slot = zeroSlot, rd_size = length view, rd_view = view, rd_backing = backing,
                       rd_local = True, rd_done = False\<rparr>, exitRx (l1\<lparr>lk_recv := rr\<rparr>), sg, [])
         | (None, rr) \<Rightarrow>
           (case nextMessage (rxHandle l1) (lk_bufferSize l1) atts (rxRing l1 sg) of
              None \<Rightarrow> None
            | Some (Inl er, m, ev) \<Rightarrow> Some (Inl er, exitRx l1, set_rxRing l1 m sg, ev)
            | Some (Inr (s, sz), m, ev) \<Rightarrow>
                Some (Inr \<lparr>rd_slot = s, rd_size = sz, rd_view = [], rd_backing = [], rd_local = False, rd_done = False\<rparr>,
                      exitRx l1, set_rxRing l1 m sg, ev))))"

definition rd_Slot :: "StandardLink \<Rightarrow> StandardReadReservation option \<Rightarrow> u64" where
  "rd_Slot l r = (case r of None \<Rightarrow> 0 | Some r \<Rightarrow> if rd_local r then 0 else Slot (rxHandle l) (rd_slot r))"

definition rd_Buffer :: "StandardLink \<Rightarrow> segment \<Rightarrow> StandardReadReservation option \<Rightarrow> bytes option" where
  "rd_Buffer l sg r =
     (case r of None \<Rightarrow> None
      | Some r \<Rightarrow>
          if rd_done r \<or> (\<not> rd_local r \<and> \<not> consumerOwned (rxHandle l) (rd_slot r) (rxRing l sg)) then None
          else if rd_local r then Some (rd_view r)
          else Some (slotPayload (rxHandle l) (rd_slot r) (rd_size r) (rxRing l sg)))"

definition rd_Release :: "StandardReadReservation \<Rightarrow> StandardLink \<Rightarrow> segment
     \<Rightarrow> err option \<times> StandardReadReservation \<times> StandardLink \<times> segment \<times> wake_event list" where
  "rd_Release r l sg =
     (if rd_done r then (Some ErrInvalidOp, r, l, sg, [])
      else if rd_local r then
        (None, r\<lparr>rd_done := True\<rparr>, l\<lparr>lk_recv := giveBack (rd_backing r) (lk_recv l)\<rparr>, sg, [])
      else if \<not> consumerOwned (rxHandle l) (rd_slot r) (rxRing l sg) then (Some ErrInvalidOp, r, l, sg, [])
      else case enterRx l of
        (Some er, l1) \<Rightarrow> (Some er, r, l1, sg, [])
      | (None, l1) \<Rightarrow>
          (case Release (rxHandle l1) (rd_slot r) (rxRing l1 sg) of
             (ok, s', m2, ev) \<Rightarrow>
               (if ok then None else Some ErrInvalidOp, r\<lparr>rd_slot := s', rd_done := True\<rparr>, exitRx l1,
                set_rxRing l1 m2 sg, ev)))"

section \<open>Datagram interface, deadlines and closing\<close>

definition LocalAddr :: "StandardLink \<Rightarrow> string" where
  "LocalAddr l = (if lk_mode l = LinkModeSecondary then ''hqq-secondary'' else ''hqq-primary'')"

definition peerAddr :: "StandardLink \<Rightarrow> string" where
  "peerAddr l = (if lk_mode l = LinkModeSecondary then ''hqq-primary'' else ''hqq-secondary'')"

definition ReadFrom :: "(nat \<Rightarrow> nat) \<Rightarrow> nat \<Rightarrow> attempt list \<Rightarrow> StandardLink \<Rightarrow> segment
     \<Rightarrow> ((bytes \<times> string option \<times> err option) \<times> StandardLink \<times> segment \<times> wake_event list) option" where
  "ReadFrom grow n atts l sg =
     (case recvMessage grow True n atts l sg of
        None \<Rightarrow> None
      | Some ((out, Some er), x) \<Rightarrow> Some (([], None, Some er), x)
      | Some ((out, None), x) \<Rightarrow> Some ((out, Some (peerAddr l), None), x))"

definition WriteTo :: "int \<Rightarrow> linkTurn list \<Rightarrow> bytes \<Rightarrow> string \<Rightarrow> StandardLink \<Rightarrow> segment
     \<Rightarrow> ((nat \<times> err option) \<times> StandardLink \<times> segment \<times> wake_event list) option" where
  "WriteTo now turns b addr l sg = Write now turns b l sg"

text \<open>Setting a deadline stores it and wakes the blocked calls of that direction; \<open>None\<close> clears it.\<close>

definition SetReadDeadline :: "int option \<Rightarrow> StandardLink \<Rightarrow> segment \<Rightarrow> err option \<times> StandardLink \<times> segment \<times> wake_event list" where
  "SetReadDeadline t l sg =
     (case enterRx (l\<lparr>lk_readDeadline := t\<rparr>) of
        (Some er, l1) \<Rightarrow> (Some Errors.ErrClosed, l1, sg, [])
      | (None, l1) \<Rightarrow>
          (case WakeAll (rxHandle l1) (rxRing l1 sg) of (m, ev) \<Rightarrow> (None, exitRx l1, set_rxRing l1 m sg, ev)))"

definition SetWriteDeadline :: "int option \<Rightarrow> StandardLink \<Rightarrow> segment \<Rightarrow> err option \<times> StandardLink \<times> segment \<times> wake_event list" where
  "SetWriteDeadline t l sg =
     (case enterTx False 0 (sg_sb sg) (l\<lparr>lk_writeDeadline := t\<rparr>) of
        (Some er, l1) \<Rightarrow> (Some Errors.ErrClosed, l1, sg, [])
      | (None, l1) \<Rightarrow>
          (case WakeAll (txHandle l1) (txRing l1 sg) of (m, ev) \<Rightarrow> (None, exitTx l1, set_txRing l1 m sg, ev)))"

definition SetDeadline :: "int option \<Rightarrow> StandardLink \<Rightarrow> segment \<Rightarrow> err option \<times> StandardLink \<times> segment \<times> wake_event list" where
  "SetDeadline t l sg =
     (case SetReadDeadline t l sg of
        (Some er, x) \<Rightarrow> (Some er, x)
      | (None, l1, sg1, ev) \<Rightarrow> (case SetWriteDeadline t l1 sg1 of (er, l2, sg2, ev2) \<Rightarrow> (er, l2, sg2, ev @ ev2)))"

definition PeerStateOf :: "int \<Rightarrow> StandardLink \<Rightarrow> segment \<Rightarrow> PeerState \<times> StandardLink" where
  "PeerStateOf now l sg =
     (case enterRx l of
        (Some er, l1) \<Rightarrow> (pm_status (lk_peer l1), l1)
      | (None, l1) \<Rightarrow>
          let l2 = exitRx (l1\<lparr>lk_peer := snd (checkPeer (ident l1) now (sg_sb sg) (lk_peer l1))\<rparr>) in
          (pm_status (lk_peer l2), l2))"

definition wakeRings :: "StandardLink \<Rightarrow> segment \<Rightarrow> segment \<times> wake_event list" where
  "wakeRings l sg =
     (case WakeAll (lk_h0 l) (sg_ring0 sg) of
        (m0, ev0) \<Rightarrow>
          (case WakeAll (lk_h1 l) (sg_ring1 sg) of
             (m1, ev1) \<Rightarrow> (sg\<lparr>sg_ring0 := m0, sg_ring1 := m1\<rparr>, ev0 @ ev1)))"

text \<open>
  \<^verbatim>\<open>Close\<close>: the first call sets the flag and wakes everybody; \<open>obs\<close> are the counters seen in the
  wait for the calls in flight, with what others did to the segment meanwhile; then the endpoint
  detaches. \<open>None\<close>: still waiting.
\<close>

definition closeDetach :: "StandardLink \<Rightarrow> segment \<Rightarrow> StandardLink \<times> segment \<times> wake_event list" where
  "closeDetach l sg =
     (let l1 = l\<lparr>lk_hb := False\<rparr>; r = endpoints (sg_sb sg) (lk_mode l);
          sg1 = (if ep_token r = lk_token l
                 then sg\<lparr>sg_sb := set_endpoint (lk_mode l) (r\<lparr>ep_token := detachedToken\<rparr>) (sg_sb sg)\<rparr> else sg) in
      case wakeRings l1 sg1 of (sg2, ev) \<Rightarrow> (l1, sg2, ev))"

fun closeWait :: "((int \<times> int) \<times> (segment \<Rightarrow> segment)) list \<Rightarrow> StandardLink \<Rightarrow> segment \<Rightarrow> segment option" where
  "closeWait [] l sg = None"
| "closeWait (((rx, tx), f) # obs) l sg = (if rx \<noteq> 0 \<or> tx \<noteq> 0 then closeWait obs l (f sg) else Some (f sg))"

definition Close :: "((int \<times> int) \<times> (segment \<Rightarrow> segment)) list \<Rightarrow> StandardLink \<Rightarrow> segment
     \<Rightarrow> (StandardLink \<times> segment \<times> wake_event list) option" where
  "Close obs l sg =
     (if lk_closed l then Some (l, sg, [])
      else
        let l1 = l\<lparr>lk_closed := True\<rparr> in
        (case wakeRings l1 sg of
           (sg1, ev) \<Rightarrow>
             (case closeWait obs l1 sg1 of
                None \<Rightarrow> None
              | Some sg2 \<Rightarrow> (case closeDetach l1 sg2 of (l2, sg3, ev2) \<Rightarrow> Some (l2, sg3, ev @ ev2)))))"

lemma classify_not_closed: "classify bs p \<noteq> Inl ErrPeerClosed"
  by (simp add: classify_def errorFromCode_def Let_def)

end
