(* ===== verification/Link_Stream.thy ===== *)
theory Link_Stream
  imports Standard_Link
begin

text \<open>
  What a Standard link promises its two users: the calls of the sending and of the receiving
  endpoint refine a queue of messages. Sent messages arrive once, in order and unmixed; tombstones
  are skipped, error packets surface as errors, and short reads leave the rest of a message in
  front of the queue.
\<close>

section \<open>The abstract stream\<close>

definition slotEvent :: "nat \<Rightarrow> slotData \<Rightarrow> (err + bytes) list" where
  "slotEvent bs d =
     (case classify bs (fst d) of Inl er \<Rightarrow> [Inl er] | Inr n \<Rightarrow> if n = 0 then [] else [Inr (take n (snd d))])"

definition chanAbs :: "nat \<Rightarrow> slotData list \<Rightarrow> (err + bytes) list" where
  "chanAbs bs ds = concat (map (slotEvent bs) ds)"

definition slots_wf :: "nat \<Rightarrow> linkRing \<Rightarrow> bool" where
  "slots_wf bs m \<longleftrightarrow> (\<forall>e \<in> set (slots m). packet_wf (fst (edata e)) \<and> length (snd (edata e)) = bs)"

definition chan_inv :: "mhandle \<Rightarrow> nat \<Rightarrow> linkRing \<Rightarrow> bool" where
  "chan_inv h bs m \<longleftrightarrow> ring_inv h m \<and> slots_wf bs m \<and> bs < 2 ^ 62"

text \<open>What the receiving endpoint will see: the queued tails, then the packets of its ring.\<close>

definition rxStream :: "StandardLink \<Rightarrow> segment \<Rightarrow> (err + bytes) list" where
  "rxStream l sg = map Inr (rr_tails (lk_recv l)) @ chanAbs (lk_bufferSize l) (ring_abs (rxHandle l) (rxRing l sg))"

definition streamBytes :: "(err + bytes) list \<Rightarrow> bytes" where
  "streamBytes es = concat (map (\<lambda>e. case e of Inl _ \<Rightarrow> [] | Inr b \<Rightarrow> b) es)"

section \<open>Packets and slots\<close>

lemma slot_data_in:
  assumes "ring_inv h m"
  shows "\<exists>e \<in> set (slots m). slot_data h pos m = edata e"
  using ring_inv_index [OF assms, of pos] by (auto simp: slot_data_def)

lemma slots_wf_data:
  assumes "ring_inv h m" "slots_wf bs m"
  shows "packet_wf (fst (slot_data h pos m))" "length (snd (slot_data h pos m)) = bs"
  using slot_data_in [OF assms(1), of pos] assms(2) by (auto simp: slots_wf_def)

lemma slots_wf_update:
  assumes "slots_wf bs m" "packet_wf (fst v)" "length (snd v) = bs"
  shows "slots_wf bs (set_data h pos v m)"
  using assms set_update_subset_insert [of "slots m" "slot_index h pos"]
  by (fastforce simp: slots_wf_def set_data_def Let_def)

lemma slots_wf_seq:
  assumes "slots_wf bs m" "slot_index h pos < length (slots m)"
  shows "slots_wf bs (set_seq h pos x m)"
  using assms set_update_subset_insert [of "slots m" "slot_index h pos"] nth_mem [of "slot_index h pos" "slots m"]
  by (fastforce simp: slots_wf_def set_seq_def Let_def)

lemma slots_wf_frame: "slots m' = slots m \<Longrightarrow> slots_wf bs m' = slots_wf bs m"
  by (simp add: slots_wf_def)

lemma enq_state_wf:
  assumes "ring_inv h m" "slots_wf bs m" "packet_wf (fst v)" "length (snd v) = bs"
  shows "slots_wf bs (enq_state h v m)"
proof -
  let ?m1 = "set_data h (rg_w m) v (m\<lparr>rg_w := rg_w m + 1\<rparr>)"
  have "slots_wf bs ?m1" using assms by (intro slots_wf_update) (simp_all add: slots_wf_def)
  then have "slots_wf bs (set_seq h (rg_w m) (rg_w m + 1) ?m1)"
    using ring_inv_index [OF assms(1)] by (intro slots_wf_seq) simp_all
  then show ?thesis by (simp add: enq_state_def publish_def slots_wf_frame [OF notify_frame(3)])
qed

lemma deq_state_wf:
  assumes "ring_inv h m" "slots_wf bs m"
  shows "slots_wf bs (deq_state h m)"
proof -
  have "slots_wf bs (set_seq h (rg_r m) x (m\<lparr>rg_r := rg_r m + 1\<rparr>))" for x
    using assms ring_inv_index [OF assms(1)] by (intro slots_wf_seq) (simp_all add: slots_wf_def)
  then show ?thesis by (simp add: deq_state_def release_def slots_wf_frame [OF notify_frame(6)])
qed

lemma storeCopyPacket_wf: "packet_wf p \<Longrightarrow> packet_wf (storeCopyPacket c s n p)"
  by (simp add: packet_wf_def storeCopyPacket_def PacketSize_def PacketWordCount_def)

lemma Op_storeCopyPacket: "packet_wf p \<Longrightarrow> Op (storeCopyPacket c s n p) = OpStandardLinkCopy"
  by (simp add: packet_wf_def storeCopyPacket_def Op_def codec_simps hqq_consts)

lemma Operand_storeCopyPacket: "packet_wf p \<Longrightarrow> Operand (storeCopyPacket c s n p) 2 = n"
  by (simp add: packet_wf_def storeCopyPacket_def Operand_def codec_simps hqq_consts)

lemma classify_copy:
  assumes "packet_wf p" "0 < n" "n \<le> bs" "bs < 2 ^ 62"
  shows "classify bs (storeCopyPacket c s (of_nat n) p) = Inr n"
proof -
  have "sint (of_int (int n) :: u64) = int n" using assms by (intro sint_of_int_self) simp_all
  then have "sint (of_nat n :: u64) = int n" by simp
  then show ?thesis
    using assms by (simp add: classify_def Op_storeCopyPacket Operand_storeCopyPacket hqq_consts Let_def del: of_nat_numeral)
qed

lemma slotEvent_copy:
  assumes "packet_wf p" "b \<noteq> []" "length b \<le> bs" "bs < 2 ^ 62"
  shows "slotEvent bs (storeCopyPacket c s (of_nat (length b)) p, b @ rest) = [Inr b]"
  using classify_copy [OF assms(1) _ assms(3,4), of c s] assms(2) by (simp add: slotEvent_def)

lemma tombstone_wf [simp]: "packet_wf (NewStandardLinkTombstonePacket c s r)"
  by (simp add: packet_wf_def NewStandardLinkTombstonePacket_def zeroPacket_def PacketSize_def PacketWordCount_def)

lemma classify_tombstone [simp]: "classify bs (NewStandardLinkTombstonePacket c s r) = Inr 0"
proof -
  have "Op (NewStandardLinkTombstonePacket c s r) = OpStandardLinkTombstone"
    by (simp add: NewStandardLinkTombstonePacket_def Op_def zeroPacket_def codec_simps hqq_consts)
  then show ?thesis by (simp add: classify_def)
qed

section \<open>Sending\<close>

lemma ReserveProducerCancel_free:
  assumes "ring_inv h m" "ring_len m < unat (h_size h)"
  shows "ReserveProducerCancel h turns m =
    Some (Inr \<lparr>sl_pos = rg_w m, sl_elem = True, sl_done = False\<rparr>, m\<lparr>rg_w := rg_w m + 1\<rparr>)"
  by (simp add: ReserveProducerCancel_def claimProducer_free [OF assms])

lemma ReserveConsumerCancel_ready:
  assumes "ring_inv h m" "0 < ring_len m"
  shows "ReserveConsumerCancel h turns m =
    Some (Inr \<lparr>sl_pos = rg_r m, sl_elem = True, sl_done = False\<rparr>, m\<lparr>rg_r := rg_r m + 1\<rparr>)"
  by (simp add: ReserveConsumerCancel_def claimConsumer_ready [OF assms])

lemma commit_enq_state:
  "fst (CommitOwned h \<lparr>sl_pos = rg_w m, sl_elem = e, sl_done = d\<rparr> (set_data h (rg_w m) v (m\<lparr>rg_w := rg_w m + 1\<rparr>)))
     = enq_state h v m"
  by (simp add: CommitOwned_def enq_state_def)

lemma release_deq_state:
  "fst (ReleaseOwned h \<lparr>sl_pos = rg_r m, sl_elem = e, sl_done = d\<rparr> (m\<lparr>rg_r := rg_r m + 1\<rparr>)) = deq_state h m"
  by (simp add: ReleaseOwned_def deq_state_def)

lemma ring_select [simp]:
  "txRing l (set_txRing l m sg) = m" "rxRing l (set_rxRing l m sg) = m"
  "rxRing l (set_txRing l m sg) = rxRing l sg" "txRing l (set_rxRing l m sg) = txRing l sg"
  "sg_sb (set_txRing l m sg) = sg_sb sg" "sg_sb (set_rxRing l m sg) = sg_sb sg"
  "set_txRing l (txRing l sg) sg = sg" "set_rxRing l (rxRing l sg) sg = sg"
  by (simp_all add: txRing_def rxRing_def set_txRing_def set_rxRing_def)

text \<open>The fields of a link that its calls leave alone.\<close>

definition sameLink :: "StandardLink \<Rightarrow> StandardLink \<Rightarrow> bool" where
  "sameLink l l' \<longleftrightarrow> lk_mode l' = lk_mode l \<and> lk_bufferSize l' = lk_bufferSize l \<and> lk_h0 l' = lk_h0 l
     \<and> lk_h1 l' = lk_h1 l \<and> lk_closed l' = lk_closed l \<and> lk_txActive l' = lk_txActive l
     \<and> lk_rxActive l' = lk_rxActive l \<and> lk_recv l' = lk_recv l"

lemma sameLink_refl [simp]: "sameLink l l" by (simp add: sameLink_def)

lemma sameLink_rings:
  assumes "sameLink l l'"
  shows "txHandle l' = txHandle l" "rxHandle l' = rxHandle l" "txRing l' = txRing l" "rxRing l' = rxRing l"
    "set_txRing l' = set_txRing l" "set_rxRing l' = set_rxRing l"
  using assms by (auto simp: sameLink_def txHandle_def rxHandle_def txRing_def rxRing_def set_txRing_def set_rxRing_def
      intro!: ext)

lemma enterTx_ok:
  assumes "enterTx c now sb l = (None, l1)"
  shows "sameLink l (exitTx l1)" "txHandle l1 = txHandle l" "txRing l1 = txRing l" "set_txRing l1 = set_txRing l"
    "lk_bufferSize l1 = lk_bufferSize l"
  using assms
  by (auto simp: enterTx_def admitTx_def exitTx_def sameLink_def Let_def txHandle_def txRing_def set_txRing_def
      intro!: ext split: if_splits option.splits prod.splits)

lemma enterTx_err:
  assumes "enterTx c now sb l = (Some er, l1)"
  shows "sameLink l l1"
  using assms by (auto simp: enterTx_def admitTx_def sameLink_def Let_def split: if_splits option.splits prod.splits)

lemma enterRx_ok:
  assumes "enterRx l = (None, l1)"
  shows "exitRx l1 = l" "rxHandle l1 = rxHandle l" "rxRing l1 = rxRing l" "set_rxRing l1 = set_rxRing l"
    "lk_bufferSize l1 = lk_bufferSize l" "lk_recv l1 = lk_recv l" "exitRx (l1\<lparr>lk_recv := x\<rparr>) = l\<lparr>lk_recv := x\<rparr>"
  using assms by (auto simp: enterRx_def exitRx_def Let_def rxHandle_def rxRing_def set_rxRing_def intro!: ext split: if_splits)

lemma enterRx_err: "enterRx l = (Some er, l1) \<Longrightarrow> l1 = l \<and> er = Errors.ErrClosed"
  by (auto simp: enterRx_def Let_def split: if_splits)

lemma write_slot:
  assumes inv: "chan_inv h bs m" and room: "ring_len m < unat (h_size h)"
    and p: "packet_wf p" and len: "length buf = bs"
  shows "chan_inv h bs (enq_state h (p, buf) m)"
    "chanAbs bs (ring_abs h (enq_state h (p, buf) m)) = chanAbs bs (ring_abs h m) @ slotEvent bs (p, buf)"
    "ring_len (enq_state h (p, buf) m) = Suc (ring_len m)"
proof -
  have r: "ring_inv h m" "slots_wf bs m" using inv by (simp_all add: chan_inv_def)
  show "chan_inv h bs (enq_state h (p, buf) m)"
    using inv enq_state_refines(1) [OF r(1) room] enq_state_wf [OF r, of "(p, buf)"] p len by (simp add: chan_inv_def)
  show "chanAbs bs (ring_abs h (enq_state h (p, buf) m)) = chanAbs bs (ring_abs h m) @ slotEvent bs (p, buf)"
    by (simp add: enq_state_refines(2) [OF r(1) room] chanAbs_def)
  show "ring_len (enq_state h (p, buf) m) = Suc (ring_len m)"
    using arg_cong [OF enq_state_refines(2) [OF r(1) room, of "(p, buf)"], of length] by simp
qed

text \<open>A write that is admitted and finds room appends one message.\<close>

lemma Write_room:
  assumes inv: "chan_inv (txHandle l) (lk_bufferSize l) (txRing l sg)"
    and room: "ring_len (txRing l sg) < unat (h_size (txHandle l))"
    and b: "b \<noteq> []" "length b \<le> lk_bufferSize l" and adm: "enterTx True now (sg_sb sg) l = (None, l1)"
  shows "\<exists>m' ev. Write now turns b l sg = Some ((length b, None), exitTx l1, set_txRing l m' sg, ev)
    \<and> chan_inv (txHandle l) (lk_bufferSize l) m'
    \<and> chanAbs (lk_bufferSize l) (ring_abs (txHandle l) m')
        = chanAbs (lk_bufferSize l) (ring_abs (txHandle l) (txRing l sg)) @ [Inr b]
    \<and> ring_len m' = Suc (ring_len (txRing l sg))"
proof -
  let ?h = "txHandle l" and ?m = "txRing l sg" and ?bs = "lk_bufferSize l"
  note e = enterTx_ok [OF adm]
  have r: "ring_inv ?h ?m" "slots_wf ?bs ?m" "?bs < 2 ^ 62" using inv by (simp_all add: chan_inv_def)
  let ?s = "\<lparr>sl_pos = rg_w ?m, sl_elem = True, sl_done = False\<rparr>"
  let ?d = "slot_data ?h (rg_w ?m) ?m"
  let ?p = "storeCopyPacket (copyID l1 ?s) (Slot (txHandle l1) ?s) (of_nat (length b)) (fst ?d)"
  let ?buf = "b @ drop (length b) (snd ?d)"
  note d = slots_wf_data [OF r(1,2), of "rg_w ?m"]
  have p: "packet_wf ?p" "length ?buf = ?bs" using d b by (simp_all add: storeCopyPacket_wf)
  have ev: "slotEvent ?bs (?p, ?buf) = [Inr b]" using d(1) b r(3) by (rule slotEvent_copy)
  obtain ev' where c: "CommitOwned ?h ?s (set_data ?h (rg_w ?m) (?p, ?buf) (?m\<lparr>rg_w := rg_w ?m + 1\<rparr>))
      = (enq_state ?h (?p, ?buf) ?m, ev')"
    using commit_enq_state [of ?h ?m True False "(?p, ?buf)"] by (metis prod.collapse)
  have "Write now turns b l sg = Some ((length b, None), exitTx l1, set_txRing l (enq_state ?h (?p, ?buf) ?m) sg, ev')"
    using b adm e c
    by (simp add: Write_def fillCopy_def Let_def ReserveProducerCancel_free [OF r(1) room])
  then show ?thesis using write_slot [OF inv room p] ev by auto
qed

section \<open>Receiving\<close>

lemma reserveRx_ready:
  assumes "ring_inv h m" "0 < ring_len m"
  shows "reserveRx h turns fs m =
    Some (Inr \<lparr>sl_pos = rg_r m, sl_elem = True, sl_done = False\<rparr>, m\<lparr>rg_r := rg_r m + 1\<rparr>)"
  by (simp add: reserveRx_def reserveDrained_def ReserveConsumerCancel_ready [OF assms])

lemma reserveRx_empty:
  assumes "ring_inv h m" "ring_len m = 0"
  shows "reserveRx h [] fs m = None"
  by (simp add: reserveRx_def reserveDrained_def ReserveConsumerCancel_def claimConsumer_empty [OF assms])

lemma chan_inv_deq:
  assumes "chan_inv h bs m" "0 < ring_len m"
  shows "chan_inv h bs (deq_state h m)" "ring_abs h m = slot_data h (rg_r m) m # ring_abs h (deq_state h m)"
    "ring_len m = Suc (ring_len (deq_state h m))"
proof -
  have r: "ring_inv h m" "slots_wf bs m" using assms by (simp_all add: chan_inv_def)
  show "chan_inv h bs (deq_state h m)"
    using assms deq_state_refines(1) [OF r(1) assms(2)] deq_state_wf [OF r] by (simp add: chan_inv_def)
  show eq: "ring_abs h m = slot_data h (rg_r m) m # ring_abs h (deq_state h m)"
    by (rule deq_state_refines(2) [OF r(1) assms(2)])
  show "ring_len m = Suc (ring_len (deq_state h m))" using arg_cong [OF eq, of length] by simp
qed

text \<open>One step of the receive loop on a ring that holds a packet.\<close>

lemma nextMessage_step:
  assumes inv: "chan_inv h bs m" and ne: "0 < ring_len m"
  shows "nextMessage h bs ((turns, fs) # atts) m =
    (case classify bs (fst (slot_data h (rg_r m) m)) of
       Inl er \<Rightarrow> Some (Inl er, deq_state h m, snd (release h (rg_r m) (m\<lparr>rg_r := rg_r m + 1\<rparr>)))
     | Inr sz \<Rightarrow>
         if sz = 0 then map_option (apsnd (apsnd (append (snd (release h (rg_r m) (m\<lparr>rg_r := rg_r m + 1\<rparr>))))))
            (nextMessage h bs atts (deq_state h m))
         else Some (Inr (\<lparr>sl_pos = rg_r m, sl_elem = True, sl_done = False\<rparr>, sz), m\<lparr>rg_r := rg_r m + 1\<rparr>, []))"
proof -
  have r: "ring_inv h m" using inv by (simp add: chan_inv_def)
  have rel: "ReleaseOwned h \<lparr>sl_pos = rg_r m, sl_elem = True, sl_done = False\<rparr> (m\<lparr>rg_r := rg_r m + 1\<rparr>)
      = (deq_state h m, snd (release h (rg_r m) (m\<lparr>rg_r := rg_r m + 1\<rparr>)))"
    by (simp add: ReleaseOwned_def deq_state_def)
  show ?thesis
    by (auto simp: nextMessage.simps(2) reserveRx_ready [OF r ne] rel split: sum.splits option.splits prod.splits)
qed

declare nextMessage.simps(2) [simp del]

lemma nextMessage_event:
  assumes "chan_inv h bs m" "chanAbs bs (ring_abs h m) = e # es" "ring_len m \<le> length atts"
  shows "case e of
      Inl er \<Rightarrow> \<exists>m' ev. nextMessage h bs atts m = Some (Inl er, m', ev) \<and> chan_inv h bs m'
         \<and> chanAbs bs (ring_abs h m') = es \<and> ring_len m' \<le> ring_len m
    | Inr b \<Rightarrow> \<exists>s m0 ev. nextMessage h bs atts m = Some (Inr (s, length b), m0\<lparr>rg_r := rg_r m0 + 1\<rparr>, ev)
         \<and> s = \<lparr>sl_pos = rg_r m0, sl_elem = True, sl_done = False\<rparr> \<and> b \<noteq> []
         \<and> slotPayload h s (length b) (m0\<lparr>rg_r := rg_r m0 + 1\<rparr>) = b
         \<and> chan_inv h bs m0 \<and> 0 < ring_len m0 \<and> chanAbs bs (ring_abs h (deq_state h m0)) = es
         \<and> ring_len m0 \<le> ring_len m"
  using assms
proof (induction "length (ring_abs h m)" arbitrary: m atts)
  case 0
  then have "ring_abs h m = []" by (metis length_0_conv)
  then show ?case using 0 by (simp add: chanAbs_def)
next
  case (Suc n)
  then have ne: "0 < ring_len m" by simp
  note d = chan_inv_deq [OF Suc.prems(1) ne]
  have r: "ring_inv h m" "slots_wf bs m" using Suc.prems(1) by (simp_all add: chan_inv_def)
  obtain turns fs atts' where atts: "atts = (turns, fs) # atts'"
    using Suc.prems(3) ne by (cases atts) auto
  have len': "ring_len (deq_state h m) \<le> length atts'" using Suc.prems(3) d(3) by (simp add: atts)
  note st = nextMessage_step [OF Suc.prems(1) ne, of turns fs atts']
  let ?d = "slot_data h (rg_r m) m"
  have es: "slotEvent bs ?d @ chanAbs bs (ring_abs h (deq_state h m)) = e # es"
    using Suc.prems(2) d(2) by (simp add: chanAbs_def)
  show ?case
  proof (cases "classify bs (fst ?d)")
    case (Inl er)
    then show ?thesis using st es d(1,3) by (auto simp: slotEvent_def atts)
  next
    case (Inr sz)
    show ?thesis
    proof (cases "sz = 0")
      case True
      then have "chanAbs bs (ring_abs h (deq_state h m)) = e # es" using es Inr by (simp add: slotEvent_def)
      moreover have "n = length (ring_abs h (deq_state h m))" using Suc.hyps(2) d(3) by simp
      ultimately have "case e of
          Inl er \<Rightarrow> \<exists>m' ev. nextMessage h bs atts' (deq_state h m) = Some (Inl er, m', ev) \<and> chan_inv h bs m'
             \<and> chanAbs bs (ring_abs h m') = es \<and> ring_len m' \<le> ring_len (deq_state h m)
        | Inr b \<Rightarrow> \<exists>s m0 ev. nextMessage h bs atts' (deq_state h m) = Some (Inr (s, length b), m0\<lparr>rg_r := rg_r m0 + 1\<rparr>, ev)
             \<and> s = \<lparr>sl_pos = rg_r m0, sl_elem = True, sl_done = False\<rparr> \<and> b \<noteq> []
             \<and> slotPayload h s (length b) (m0\<lparr>rg_r := rg_r m0 + 1\<rparr>) = b
             \<and> chan_inv h bs m0 \<and> 0 < ring_len m0 \<and> chanAbs bs (ring_abs h (deq_state h m0)) = es
             \<and> ring_len m0 \<le> ring_len (deq_state h m)"
        using Suc.hyps(1) d(1) len' by blast
      then show ?thesis using st Inr True d(3) by (auto simp: atts split: sum.splits)
    next
      case False
      have "length (snd ?d) = bs" by (rule slots_wf_data(2) [OF r])
      moreover have "sz \<le> bs" using Inr by (auto simp: classify_def Let_def False split: if_splits)
      ultimately have "e = Inr (take sz (snd ?d))" "length (take sz (snd ?d)) = sz"
        "chanAbs bs (ring_abs h (deq_state h m)) = es"
        using es Inr False by (simp_all add: slotEvent_def)
      then show ?thesis using st Inr False Suc.prems(1) ne by (auto simp: atts slotPayload_def)
    qed
  qed
qed

lemma nextMessage_none:
  assumes "chan_inv h bs m" "chanAbs bs (ring_abs h m) = []" "\<forall>a \<in> set atts. fst a = []"
  shows "nextMessage h bs atts m = None"
  using assms
proof (induction atts arbitrary: m)
  case Nil
  then show ?case by simp
next
  case (Cons a atts)
  obtain fs where a: "a = ([], fs)" using Cons.prems(3) by (cases a) simp
  have r: "ring_inv h m" using Cons.prems(1) by (simp add: chan_inv_def)
  show ?case
  proof (cases "ring_len m")
    case 0
    then show ?thesis by (simp add: a nextMessage.simps(2) reserveRx_empty [OF r])
  next
    case (Suc k)
    then have ne: "0 < ring_len m" by simp
    note d = chan_inv_deq [OF Cons.prems(1) ne]
    have "slotEvent bs (slot_data h (rg_r m) m) = []" "chanAbs bs (ring_abs h (deq_state h m)) = []"
      using Cons.prems(2) d(2) by (simp_all add: chanAbs_def)
    then have "classify bs (fst (slot_data h (rg_r m) m)) = Inr 0" "nextMessage h bs atts (deq_state h m) = None"
      using Cons.IH [OF d(1)] Cons.prems(3) by (auto simp: slotEvent_def split: sum.splits if_splits)
    then show ?thesis using nextMessage_step [OF Cons.prems(1) ne, of "[]" fs atts] by (simp add: a)
  qed
qed

section \<open>Calls of the receiving endpoint\<close>

definition rx_inv :: "StandardLink \<Rightarrow> segment \<Rightarrow> bool" where
  "rx_inv l sg \<longleftrightarrow> rr_inv (lk_recv l) \<and> chan_inv (rxHandle l) (lk_bufferSize l) (rxRing l sg) \<and> \<not> lk_closed l"

lemma enterRx_open: "\<not> lk_closed l \<Longrightarrow> \<exists>l1. enterRx l = (None, l1)"
  by (simp add: enterRx_def Let_def)

text \<open>What a receiving call changes: the tails and the receive ring, which it does not fill, nothing else.\<close>

definition rxStep :: "StandardLink \<Rightarrow> segment \<Rightarrow> StandardLink \<Rightarrow> segment \<Rightarrow> bool" where
  "rxStep l sg l' sg' \<longleftrightarrow> (\<exists>rr m. l' = l\<lparr>lk_recv := rr\<rparr> \<and> sg' = set_rxRing l m sg) \<and> rx_inv l' sg'
     \<and> ring_len (rxRing l sg') \<le> ring_len (rxRing l sg)"

lemma rxHandle_recv [simp]:
  "rxHandle (l\<lparr>lk_recv := x\<rparr>) = rxHandle l" "rxRing (l\<lparr>lk_recv := x\<rparr>) = rxRing l"
  "set_rxRing (l\<lparr>lk_recv := x\<rparr>) = set_rxRing l"
  by (auto simp: rxHandle_def rxRing_def set_rxRing_def intro!: ext)

lemma rxStep_tails:
  assumes "rx_inv l sg" "rr_inv rr" "rr_tails rr = ts"
  shows "rxStep l sg (l\<lparr>lk_recv := rr\<rparr>) sg"
    and "rxStream (l\<lparr>lk_recv := rr\<rparr>) sg
      = map Inr ts @ chanAbs (lk_bufferSize l) (ring_abs (rxHandle l) (rxRing l sg))"
proof -
  show "rxStep l sg (l\<lparr>lk_recv := rr\<rparr>) sg"
    unfolding rxStep_def
    by (intro conjI exI [of _ rr] exI [of _ "rxRing l sg"]) (use assms in \<open>simp_all add: rx_inv_def\<close>)
  show "rxStream (l\<lparr>lk_recv := rr\<rparr>) sg
      = map Inr ts @ chanAbs (lk_bufferSize l) (ring_abs (rxHandle l) (rxRing l sg))"
    using assms(3) by (simp add: rxStream_def)
qed

lemma rxStep_ring:
  assumes "rx_inv l sg" "rr_inv rr" "chan_inv (rxHandle l) (lk_bufferSize l) m"
    and "ring_len m \<le> ring_len (rxRing l sg)"
  shows "rxStep l sg (l\<lparr>lk_recv := rr\<rparr>) (set_rxRing l m sg)"
    and "rxStream (l\<lparr>lk_recv := rr\<rparr>) (set_rxRing l m sg)
      = map Inr (rr_tails rr) @ chanAbs (lk_bufferSize l) (ring_abs (rxHandle l) m)"
proof -
  show "rxStep l sg (l\<lparr>lk_recv := rr\<rparr>) (set_rxRing l m sg)"
    unfolding rxStep_def
    by (intro conjI exI [of _ rr] exI [of _ m]) (use assms in \<open>simp_all add: rx_inv_def\<close>)
  show "rxStream (l\<lparr>lk_recv := rr\<rparr>) (set_rxRing l m sg)
      = map Inr (rr_tails rr) @ chanAbs (lk_bufferSize l) (ring_abs (rxHandle l) m)"
    by (simp add: rxStream_def)
qed

lemma recvMessage_refines:
  assumes inv: "rx_inv l sg" and s: "rxStream l sg = e # es" and atts: "ring_len (rxRing l sg) \<le> length atts"
  shows "\<exists>l' sg' ev. rxStep l sg l' sg'
    \<and> recvMessage grow dg n atts l sg =
       Some (case e of Inl er \<Rightarrow> ([], Some (if er = ErrPeerClosed then IoEOF else er)) | Inr b \<Rightarrow> (take n b, None), l', sg', ev)
    \<and> rxStream l' sg' = (case e of Inl er \<Rightarrow> es | Inr b \<Rightarrow> if dg \<or> length b \<le> n then es else Inr (drop n b) # es)"
proof -
  obtain l1 where en: "enterRx l = (None, l1)" using enterRx_open inv by (auto simp: rx_inv_def)
  note e1 = enterRx_ok [OF en]
  let ?c = "chanAbs (lk_bufferSize l) (ring_abs (rxHandle l) (rxRing l sg))"
  have rr: "rr_inv (lk_recv l)" and ch: "chan_inv (rxHandle l) (lk_bufferSize l) (rxRing l sg)"
    using inv by (simp_all add: rx_inv_def)
  show ?thesis
  proof (cases "rr_tails (lk_recv l)")
    case (Cons t ts)
    then have et: "e = Inr t" "es = map Inr ts @ ?c" using s by (simp_all add: rxStream_def)
    obtain r' where rd: "tail_read n dg (lk_recv l) = (Some (take n t), r')" "rr_inv r'"
      "rr_tails r' = (if dg \<or> length t \<le> n then ts else drop n t # ts)"
      using rq.get_some [OF rr Cons] by blast
    have "rr_pending (lk_recv l)" using rr_tails_head(1) [OF rr] Cons by simp
    then have "recvMessage grow dg n atts l sg = Some ((take n t, None), l\<lparr>lk_recv := r'\<rparr>, sg, [])"
      by (simp add: recvMessage_def en e1 rd)
    then show ?thesis using rxStep_tails [OF inv rd(2,3)] et by auto
  next
    case Nil
    then have np: "\<not> rr_pending (lk_recv l)" using rr_tails_head(1) [OF rr] by simp
    have c: "?c = e # es" using s Nil by (simp add: rxStream_def)
    note nx = nextMessage_event [OF ch c atts]
    show ?thesis
    proof (cases e)
      case (Inl er)
      then obtain m' ev where m': "nextMessage (rxHandle l) (lk_bufferSize l) atts (rxRing l sg) = Some (Inl er, m', ev)"
        "chan_inv (rxHandle l) (lk_bufferSize l) m'" "chanAbs (lk_bufferSize l) (ring_abs (rxHandle l) m') = es"
        "ring_len m' \<le> ring_len (rxRing l sg)"
        using nx by auto
      have "recvMessage grow dg n atts l sg
          = Some (([], Some (if er = ErrPeerClosed then IoEOF else er)), l, set_rxRing l m' sg, ev)"
        by (simp add: recvMessage_def en e1 np m')
      moreover have "l = l\<lparr>lk_recv := lk_recv l\<rparr>" by simp
      ultimately show ?thesis using rxStep_ring [OF inv rr m'(2,4)] m'(3) Nil Inl by auto
    next
      case (Inr b)
      then obtain sl m0 ev where m0: "nextMessage (rxHandle l) (lk_bufferSize l) atts (rxRing l sg)
            = Some (Inr (sl, length b), m0\<lparr>rg_r := rg_r m0 + 1\<rparr>, ev)"
        and sl: "sl = \<lparr>sl_pos = rg_r m0, sl_elem = True, sl_done = False\<rparr>" and b: "b \<noteq> []"
        and pl: "slotPayload (rxHandle l) sl (length b) (m0\<lparr>rg_r := rg_r m0 + 1\<rparr>) = b"
        and c0: "chan_inv (rxHandle l) (lk_bufferSize l) m0" "0 < ring_len m0"
          "chanAbs (lk_bufferSize l) (ring_abs (rxHandle l) (deq_state (rxHandle l) m0)) = es" "ring_len m0 \<le> ring_len (rxRing l sg)"
        using nx by auto
      obtain ev2 where rel: "ReleaseOwned (rxHandle l) sl (m0\<lparr>rg_r := rg_r m0 + 1\<rparr>) = (deq_state (rxHandle l) m0, ev2)"
        using release_deq_state [of "rxHandle l" m0 True False] by (metis sl prod.collapse)
      define rr' where "rr' = (if length (take n b) < length b \<and> \<not> dg
          then store grow (drop (length (take n b)) b) (lk_recv l) else lk_recv l)"
      have big: "length (take n b) < length b \<longleftrightarrow> \<not> length b \<le> n" by auto
      have rr': "rr_inv rr'" "map Inr (rr_tails rr') @ es = (if dg \<or> length b \<le> n then es else Inr (drop n b) # es)"
        using rq.put_ok [OF rr, of "drop n b" grow] Nil rr by (auto simp: rr'_def)
      have "recvMessage grow dg n atts l sg
          = Some ((take n b, None), l\<lparr>lk_recv := rr'\<rparr>, set_rxRing l (deq_state (rxHandle l) m0) sg, ev @ ev2)"
        by (simp add: recvMessage_def en e1 np m0 pl rel Let_def rr'_def)
      moreover have "ring_len (deq_state (rxHandle l) m0) \<le> ring_len (rxRing l sg)"
        using chan_inv_deq(3) [OF c0(1,2)] c0(4) by simp
      ultimately show ?thesis
        using rxStep_ring [OF inv rr'(1) chan_inv_deq(1) [OF c0(1,2)]] rr'(2) c0(3) Inr by auto
    qed
  qed
qed

lemma ring_abs_set_first:
  assumes inv: "ring_inv h m" and ne: "0 < ring_len m"
  shows "ring_abs h (set_data h (rg_r m) v m) = v # tl (ring_abs h m)"
proof -
  have ok: "handle_ok h" and le: "ring_len m \<le> unat (h_size h)" using inv by (simp_all add: ring_inv_def)
  have idx: "slot_index h p < length (slots m)" for p using inv by (rule ring_inv_index)
  have same: "slot_index h (rg_r m + of_nat j) = slot_index h (rg_r m) \<longleftrightarrow> j = 0" if "j < ring_len m" for j
    using slot_index_eq_iff [OF ok, of j 0 "rg_r m"] that le by simp
  have "ring_len (set_data h (rg_r m) v m) = ring_len m" by (simp add: ring_len_def)
  then have "ring_abs h (set_data h (rg_r m) v m)
      = map (\<lambda>j. if j = 0 then v else slot_data h (rg_r m + of_nat j) m) [0..<ring_len m]"
    using same idx by (simp add: ring_abs_def slot_data_set_data)
  moreover have "[0..<ring_len m] = 0 # [Suc 0..<ring_len m]" using ne by (simp add: upt_conv_Cons)
  ultimately show ?thesis by (simp add: ring_abs_def)
qed

lemma deq_after_scribble:
  assumes inv: "chan_inv h bs m" and ne: "0 < ring_len m" and v: "packet_wf (fst v)" "length (snd v) = bs"
  shows "fst (ReleaseOwned h \<lparr>sl_pos = rg_r m, sl_elem = a, sl_done = b\<rparr> (set_data h (rg_r m) v (m\<lparr>rg_r := rg_r m + 1\<rparr>)))
      = deq_state h (set_data h (rg_r m) v m)"
    and "chan_inv h bs (deq_state h (set_data h (rg_r m) v m))"
    and "ring_abs h (deq_state h (set_data h (rg_r m) v m)) = ring_abs h (deq_state h m)"
proof -
  have r: "ring_inv h m" "slots_wf bs m" "bs < 2 ^ 62" using inv by (simp_all add: chan_inv_def)
  let ?m = "set_data h (rg_r m) v m"
  have inv': "chan_inv h bs ?m" using r v by (simp add: chan_inv_def ring_inv_set_data slots_wf_update)
  have ne': "0 < ring_len ?m" using ne by (simp add: ring_len_def)
  show "fst (ReleaseOwned h \<lparr>sl_pos = rg_r m, sl_elem = a, sl_done = b\<rparr> (set_data h (rg_r m) v (m\<lparr>rg_r := rg_r m + 1\<rparr>)))
      = deq_state h ?m"
    by (simp add: ReleaseOwned_def deq_state_def set_data_rg_r)
  show "chan_inv h bs (deq_state h ?m)" by (rule chan_inv_deq(1) [OF inv' ne'])
  have "ring_abs h (deq_state h ?m) = tl (ring_abs h ?m)" using chan_inv_deq(2) [OF inv' ne'] by simp
  also have "\<dots> = tl (ring_abs h m)" by (simp add: ring_abs_set_first [OF r(1) ne])
  also have "\<dots> = ring_abs h (deq_state h m)" using chan_inv_deq(2) [OF inv ne] by simp
  finally show "ring_abs h (deq_state h ?m) = ring_abs h (deq_state h m)" .
qed

definition useResult :: "use_out \<Rightarrow> nat \<Rightarrow> send_out" where
  "useResult u n = (case u of UsePanic \<Rightarrow> SendPanic | UseRet (Some er) \<Rightarrow> SendRet 0 (Some er) | UseRet None \<Rightarrow> SendRet n None)"

lemma deliverZeroCopy_eq:
  assumes m0: "chan_inv h bs m0" "0 < ring_len m0" and sl: "sl = \<lparr>sl_pos = rg_r m0, sl_elem = True, sl_done = False\<rparr>"
    and pl: "slotPayload h sl (length b) (m0\<lparr>rg_r := rg_r m0 + 1\<rparr>) = b"
    and f: "length (fst (f b)) = length b"
  shows "\<exists>m2 ev. deliverZeroCopy h sl (length b) f (m0\<lparr>rg_r := rg_r m0 + 1\<rparr>) = (useResult (snd (f b)) (length b), m2, ev)
    \<and> chan_inv h bs m2 \<and> ring_abs h m2 = ring_abs h (deq_state h m0)"
proof -
  let ?d = "slot_data h (rg_r m0) m0"
  have r: "ring_inv h m0" "slots_wf bs m0" using m0(1) by (simp_all add: chan_inv_def)
  note wf = slots_wf_data [OF r, of "rg_r m0"]
  have tk: "take (length b) (snd ?d) = b" using pl by (simp add: slotPayload_def sl)
  then have le: "length b \<le> bs" using wf(2) by (metis length_take min.cobounded1)
  define v where "v = (fst ?d, take (length b) (fst (f b)) @ drop (length b) (snd ?d))"
  have v: "packet_wf (fst v)" "length (snd v) = bs" using wf le f by (simp_all add: v_def)
  obtain ev where rel: "ReleaseOwned h sl (set_data h (rg_r m0) v (m0\<lparr>rg_r := rg_r m0 + 1\<rparr>))
      = (deq_state h (set_data h (rg_r m0) v m0), ev)"
    using deq_after_scribble(1) [OF m0 v, of True False] by (metis sl prod.collapse)
  have "deliverZeroCopy h sl (length b) f (m0\<lparr>rg_r := rg_r m0 + 1\<rparr>)
      = (useResult (snd (f b)) (length b), deq_state h (set_data h (rg_r m0) v m0), ev)"
    using rel by (cases "f b") (simp add: deliverZeroCopy_def sl tk Let_def useResult_def v_def)
  then show ?thesis using deq_after_scribble(2,3) [OF m0 v] by blast
qed

lemma ReadZeroCopy_refines:
  assumes inv: "rx_inv l sg" and s: "rxStream l sg = e # es" and atts: "ring_len (rxRing l sg) \<le> length atts"
    and f: "\<And>b. length (fst (f b)) = length b"
  shows "\<exists>l' sg' ev. rxStep l sg l' sg' \<and> rxStream l' sg' = es
    \<and> ReadZeroCopy atts (Some f) l sg =
       Some (case e of Inl er \<Rightarrow> SendRet 0 (Some er) | Inr b \<Rightarrow> useResult (snd (f b)) (length b), l', sg', ev)"
proof -
  obtain l1 where en: "enterRx l = (None, l1)" using enterRx_open inv by (auto simp: rx_inv_def)
  note e1 = enterRx_ok [OF en]
  let ?c = "chanAbs (lk_bufferSize l) (ring_abs (rxHandle l) (rxRing l sg))"
  have rr: "rr_inv (lk_recv l)" and ch: "chan_inv (rxHandle l) (lk_bufferSize l) (rxRing l sg)"
    using inv by (simp_all add: rx_inv_def)
  show ?thesis
  proof (cases "rr_tails (lk_recv l)")
    case (Cons t ts)
    then have et: "e = Inr t" "es = map Inr ts @ ?c" using s by (simp_all add: rxStream_def)
    obtain bk r' where rd: "tail_take (lk_recv l) = (Some (t, bk), r')" "rr_inv r'" "rr_tails r' = ts"
      using rq.lend_some [OF rr Cons] by blast
    have gb: "rr_inv (giveBack bk r')" "rr_tails (giveBack bk r') = ts" using rq.giveb_ok [OF rd(2), of bk] rd(3) by simp_all
    have "rr_pending (lk_recv l)" using rr_tails_head(1) [OF rr] Cons by simp
    then have "ReadZeroCopy atts (Some f) l sg = Some (useResult (snd (f t)) (length t), l\<lparr>lk_recv := giveBack bk r'\<rparr>, sg, [])"
      by (simp add: ReadZeroCopy_def en e1 rd useResult_def)
    then show ?thesis using rxStep_tails [OF inv gb] et by auto
  next
    case Nil
    then have np: "\<not> rr_pending (lk_recv l)" using rr_tails_head(1) [OF rr] by simp
    have c: "?c = e # es" using s Nil by (simp add: rxStream_def)
    note nx = nextMessage_event [OF ch c atts]
    have id: "l = l\<lparr>lk_recv := lk_recv l\<rparr>" by simp
    show ?thesis
    proof (cases e)
      case (Inl er)
      then obtain m' ev where m': "nextMessage (rxHandle l) (lk_bufferSize l) atts (rxRing l sg) = Some (Inl er, m', ev)"
        "chan_inv (rxHandle l) (lk_bufferSize l) m'" "chanAbs (lk_bufferSize l) (ring_abs (rxHandle l) m') = es"
        "ring_len m' \<le> ring_len (rxRing l sg)"
        using nx by auto
      have "ReadZeroCopy atts (Some f) l sg = Some (SendRet 0 (Some er), l, set_rxRing l m' sg, ev)"
        by (simp add: ReadZeroCopy_def en e1 np m')
      then show ?thesis using id rxStep_ring [OF inv rr m'(2,4)] m'(3) Nil Inl by auto
    next
      case (Inr b)
      then obtain sl m0 ev where m0: "nextMessage (rxHandle l) (lk_bufferSize l) atts (rxRing l sg)
            = Some (Inr (sl, length b), m0\<lparr>rg_r := rg_r m0 + 1\<rparr>, ev)"
        and sl: "sl = \<lparr>sl_pos = rg_r m0, sl_elem = True, sl_done = False\<rparr>"
        and pl: "slotPayload (rxHandle l) sl (length b) (m0\<lparr>rg_r := rg_r m0 + 1\<rparr>) = b"
        and c0: "chan_inv (rxHandle l) (lk_bufferSize l) m0" "0 < ring_len m0"
          "chanAbs (lk_bufferSize l) (ring_abs (rxHandle l) (deq_state (rxHandle l) m0)) = es" "ring_len m0 \<le> ring_len (rxRing l sg)"
        using nx by auto
      obtain m2 ev2 where d: "deliverZeroCopy (rxHandle l) sl (length b) f (m0\<lparr>rg_r := rg_r m0 + 1\<rparr>)
            = (useResult (snd (f b)) (length b), m2, ev2)"
          "chan_inv (rxHandle l) (lk_bufferSize l) m2" "ring_abs (rxHandle l) m2 = ring_abs (rxHandle l) (deq_state (rxHandle l) m0)"
        using deliverZeroCopy_eq [OF c0(1,2) sl pl, where f = f] f by blast
      have "ReadZeroCopy atts (Some f) l sg = Some (useResult (snd (f b)) (length b), l, set_rxRing l m2 sg, ev @ ev2)"
        by (simp add: ReadZeroCopy_def en e1 np m0 d)
      moreover have "ring_len m2 \<le> ring_len (rxRing l sg)"
        using chan_inv_deq(3) [OF c0(1,2)] c0(4) arg_cong [OF d(3), of length] by simp
      ultimately show ?thesis using id rxStep_ring [OF inv rr d(2)] d(3) c0(3) Nil Inr by auto
    qed
  qed
qed

section \<open>Zero-copy sending\<close>

text \<open>The callback overwrites a prefix of the buffer with \<open>buf\<close> and ends with \<open>out\<close>.\<close>

definition filler :: "bytes \<Rightarrow> fill_out \<Rightarrow> bytes \<Rightarrow> bytes \<times> fill_out" where
  "filler buf out old = (buf @ drop (length buf) old, out)"

definition fillResult :: "nat \<Rightarrow> fill_out \<Rightarrow> send_out" where
  "fillResult bs out =
     (case out of
        FillPanic \<Rightarrow> SendPanic
      | FillRet n (Some er) \<Rightarrow> SendRet 0 (Some er)
      | FillRet n None \<Rightarrow>
          if n \<le> 0 then SendRet 0 (Some ErrInvalidSize)
          else if n > int bs then SendRet 0 (Some ErrBufferOverflow) else SendRet (nat n) None)"

text \<open>What the receiver gets of a zero-copy send: one message if the callback succeeded, else nothing.\<close>

definition fillEvents :: "nat \<Rightarrow> bytes \<Rightarrow> fill_out \<Rightarrow> (err + bytes) list" where
  "fillEvents bs buf out =
     (case out of FillRet n None \<Rightarrow> if 0 < n \<and> n \<le> int bs then [Inr (take (nat n) buf)] else [] | _ \<Rightarrow> [])"

lemma slotEvent_tombstone: "slotEvent bs (NewStandardLinkTombstonePacket c i r, b) = []"
  by (simp add: slotEvent_def)

lemma fillSlot_refines:
  fixes l :: StandardLink
  defines "h \<equiv> txHandle l" and "s m \<equiv> \<lparr>sl_pos = rg_w m, sl_elem = True, sl_done = False\<rparr>"
  assumes inv: "chan_inv h bs m" and room: "ring_len m < unat (h_size h)"
    and buf: "length buf \<le> bs" and n: "\<And>n. out = FillRet n None \<Longrightarrow> n \<le> int bs \<Longrightarrow> n \<le> int (length buf)"
  shows "\<exists>m2 ev. fillSlot l (s m) (filler buf out) (m\<lparr>rg_w := rg_w m + 1\<rparr>) = (fillResult bs out, m2, ev)
    \<and> chan_inv h bs m2 \<and> chanAbs bs (ring_abs h m2) = chanAbs bs (ring_abs h m) @ fillEvents bs buf out
    \<and> ring_len m2 = Suc (ring_len m)"
proof -
  let ?d = "slot_data h (rg_w m) m" and ?s = "s m"
  let ?idx = "Slot h ?s" and ?cid = "copyID l ?s" and ?b = "buf @ drop (length buf) (snd (slot_data h (rg_w m) m))"
  have r: "ring_inv h m" "slots_wf bs m" "bs < 2 ^ 62" using inv by (simp_all add: chan_inv_def)
  note wf = slots_wf_data [OF r(1,2), of "rg_w m"]
  have lb: "length ?b = bs" using wf(2) buf by simp
  have fin: "\<exists>m2 ev. (res, CommitOwned h ?s (set_data h (rg_w m) (p, ?b) (m\<lparr>rg_w := rg_w m + 1\<rparr>))) = (res, m2, ev)
      \<and> chan_inv h bs m2 \<and> chanAbs bs (ring_abs h m2) = chanAbs bs (ring_abs h m) @ slotEvent bs (p, ?b)
      \<and> ring_len m2 = Suc (ring_len m)"
    if p: "packet_wf p" for res :: send_out and p
  proof -
    obtain ev where "CommitOwned h ?s (set_data h (rg_w m) (p, ?b) (m\<lparr>rg_w := rg_w m + 1\<rparr>)) = (enq_state h (p, ?b) m, ev)"
      using commit_enq_state [of h m True False "(p, ?b)"] unfolding s_def by (metis prod.collapse)
    then show ?thesis using write_slot [OF inv room p lb] by simp
  qed
  have eq: "fillSlot l ?s (filler buf out) (m\<lparr>rg_w := rg_w m + 1\<rparr>) =
      (let (p, res) = (case out of
             FillPanic \<Rightarrow> (NewStandardLinkTombstonePacket ?cid ?idx ErrCodeInvalidOp, SendPanic)
           | FillRet n (Some er) \<Rightarrow> (NewStandardLinkTombstonePacket ?cid ?idx ErrCodeInvalidOp, SendRet 0 (Some er))
           | FillRet n None \<Rightarrow>
               if n \<le> 0 then (NewStandardLinkTombstonePacket ?cid ?idx ErrCodeInvalidSize, SendRet 0 (Some ErrInvalidSize))
               else if n > int bs
               then (NewStandardLinkTombstonePacket ?cid ?idx ErrCodeBufferOverflow, SendRet 0 (Some ErrBufferOverflow))
               else (storeCopyPacket ?cid ?idx (of_int n) (fst ?d), SendRet (nat n) None)) in
       (res, CommitOwned h ?s (set_data h (rg_w m) (p, ?b) (m\<lparr>rg_w := rg_w m + 1\<rparr>))))"
    using wf(2) by (cases out) (auto simp: fillSlot_def filler_def h_def s_def Let_def split: option.splits)
  show ?thesis
  proof (cases "\<exists>n. out = FillRet n None \<and> 0 < n \<and> n \<le> int bs")
    case True
    then obtain n where out: "out = FillRet n None" "0 < n" "n \<le> int bs" by blast
    then have le: "n \<le> int (length buf)" using n by blast
    let ?p = "storeCopyPacket ?cid ?idx (of_int n) (fst ?d)"
    have e1: "?p = storeCopyPacket ?cid ?idx (of_nat (length (take (nat n) buf))) (fst ?d)"
      and e2: "?b = take (nat n) buf @ (drop (nat n) buf @ drop (length buf) (snd ?d))"
      using out le by simp_all
    have "slotEvent bs (?p, ?b) = [Inr (take (nat n) buf)]"
      unfolding e1 e2 by (rule slotEvent_copy [OF wf(1) _ _ r(3)]) (use out le buf in auto)
    then show ?thesis
      using fin [OF storeCopyPacket_wf [OF wf(1)], of "SendRet (nat n) None" ?cid ?idx "of_int n"] eq out
      by (simp add: fillResult_def fillEvents_def)
  next
    case False
    then have bad: "n \<le> 0 \<or> int bs < n" if "out = FillRet n None" for n using that by (auto simp: not_le)
    have "\<exists>c i rs. fillSlot l ?s (filler buf out) (m\<lparr>rg_w := rg_w m + 1\<rparr>) =
        (fillResult bs out, CommitOwned h ?s (set_data h (rg_w m) (NewStandardLinkTombstonePacket c i rs, ?b) (m\<lparr>rg_w := rg_w m + 1\<rparr>)))"
      unfolding eq using bad by (auto simp: fillResult_def split: fill_out.split option.split)
    moreover have "fillEvents bs buf out = []" using False by (auto simp: fillEvents_def split: fill_out.splits option.splits)
    ultimately show ?thesis using fin [OF tombstone_wf, of "fillResult bs out"] by (auto simp: slotEvent_tombstone)
  qed
qed

lemma WriteZeroCopy_room:
  assumes inv: "chan_inv (txHandle l) (lk_bufferSize l) (txRing l sg)"
    and room: "ring_len (txRing l sg) < unat (h_size (txHandle l))"
    and buf: "length buf \<le> lk_bufferSize l"
    and n: "\<And>n. out = FillRet n None \<Longrightarrow> n \<le> int (lk_bufferSize l) \<Longrightarrow> n \<le> int (length buf)"
    and adm: "enterTx True now (sg_sb sg) l = (None, l1)"
  shows "\<exists>m' ev. WriteZeroCopy now turns (Some (filler buf out)) l sg
      = Some (fillResult (lk_bufferSize l) out, exitTx l1, set_txRing l m' sg, ev)
    \<and> chan_inv (txHandle l) (lk_bufferSize l) m'
    \<and> chanAbs (lk_bufferSize l) (ring_abs (txHandle l) m')
        = chanAbs (lk_bufferSize l) (ring_abs (txHandle l) (txRing l sg)) @ fillEvents (lk_bufferSize l) buf out
    \<and> ring_len m' = Suc (ring_len (txRing l sg))"
proof -
  note e = enterTx_ok [OF adm]
  have r: "ring_inv (txHandle l) (txRing l sg)" using inv by (simp add: chan_inv_def)
  obtain m2 ev where f: "fillSlot l1 \<lparr>sl_pos = rg_w (txRing l sg), sl_elem = True, sl_done = False\<rparr> (filler buf out)
        ((txRing l sg)\<lparr>rg_w := rg_w (txRing l sg) + 1\<rparr>) = (fillResult (lk_bufferSize l) out, m2, ev)"
      "chan_inv (txHandle l) (lk_bufferSize l) m2"
      "chanAbs (lk_bufferSize l) (ring_abs (txHandle l) m2)
        = chanAbs (lk_bufferSize l) (ring_abs (txHandle l) (txRing l sg)) @ fillEvents (lk_bufferSize l) buf out"
      "ring_len m2 = Suc (ring_len (txRing l sg))"
    using fillSlot_refines [of l1 "lk_bufferSize l" "txRing l sg" buf out] inv room buf n e by auto
  have "WriteZeroCopy now turns (Some (filler buf out)) l sg
      = Some (fillResult (lk_bufferSize l) out, exitTx l1, set_txRing l m2 sg, ev)"
    using adm e f(1) by (simp add: WriteZeroCopy_def ReserveProducerCancel_free [OF r room])
  then show ?thesis using f by blast
qed

section \<open>The link refines a queue of messages\<close>

datatype lop = LWrite bytes | LFill bytes fill_out | LRead nat | LRecv nat | LView "bytes \<Rightarrow> use_out"

datatype lout = OSent nat "err option" | OFill send_out | OGot bytes "err option" | ODatagram bytes "string option" "err option" | OView send_out

text \<open>
  The specification: a queue of events. Sending appends a message (a failed zero-copy send appends
  nothing), receiving takes from the first event. \<open>None\<close>: the call waits.
\<close>

fun specStep :: "nat \<Rightarrow> string \<Rightarrow> lop \<Rightarrow> (err + bytes) list \<Rightarrow> (lout \<times> (err + bytes) list) option" where
  "specStep bs addr (LWrite b) st =
     Some (if b = [] then (OSent 0 None, st)
           else if length b > bs then (OSent 0 (Some ErrBufferOverflow), st)
           else (OSent (length b) None, st @ [Inr b]))"
| "specStep bs addr (LFill buf out) st = Some (OFill (fillResult bs out), st @ fillEvents bs buf out)"
| "specStep bs addr (LRead n) st =
     (if n = 0 then Some (OGot [] None, st)
      else case st of
        [] \<Rightarrow> None
      | Inl er # es \<Rightarrow> Some (OGot [] (Some (if er = ErrPeerClosed then IoEOF else er)), es)
      | Inr b # es \<Rightarrow> Some (OGot (take n b) None, if length b \<le> n then es else Inr (drop n b) # es))"
| "specStep bs addr (LRecv n) st =
     (case st of
        [] \<Rightarrow> None
      | Inl er # es \<Rightarrow> Some (ODatagram [] None (Some (if er = ErrPeerClosed then IoEOF else er)), es)
      | Inr b # es \<Rightarrow> Some (ODatagram (take n b) (Some addr) None, es))"
| "specStep bs addr (LView f) st =
     (case st of
        [] \<Rightarrow> None
      | Inl er # es \<Rightarrow> Some (OView (SendRet 0 (Some er)), es)
      | Inr b # es \<Rightarrow> Some (OView (useResult (f b) (length b)), es))"

fun specRun :: "nat \<Rightarrow> string \<Rightarrow> lop list \<Rightarrow> (err + bytes) list \<Rightarrow> (lout list \<times> (err + bytes) list) option" where
  "specRun bs addr [] st = Some ([], st)"
| "specRun bs addr (op # ops) st =
     (case specStep bs addr op st of
        None \<Rightarrow> None
      | Some (r, st') \<Rightarrow> (case specRun bs addr ops st' of None \<Rightarrow> None | Some (rs, st'') \<Rightarrow> Some (r # rs, st'')))"

text \<open>The same calls on two endpoints of a segment; nobody else interferes while a call runs.\<close>

definition quietAtts :: "StandardLink \<Rightarrow> attempt list" where
  "quietAtts l = replicate (unat (h_size (rxHandle l))) ([], [])"

fun linkStep :: "(nat \<Rightarrow> nat) \<Rightarrow> int \<Rightarrow> lop \<Rightarrow> StandardLink \<times> StandardLink \<times> segment
     \<Rightarrow> (lout \<times> StandardLink \<times> StandardLink \<times> segment) option" where
  "linkStep grow now (LWrite b) (l, r, sg) =
     map_option (\<lambda>((n, er), l', sg', ev). (OSent n er, l', r, sg')) (Write now [] b l sg)"
| "linkStep grow now (LFill buf out) (l, r, sg) =
     map_option (\<lambda>(res, l', sg', ev). (OFill res, l', r, sg')) (WriteZeroCopy now [] (Some (filler buf out)) l sg)"
| "linkStep grow now (LRead n) (l, r, sg) =
     map_option (\<lambda>((b, er), r', sg', ev). (OGot b er, l, r', sg')) (Read grow n (quietAtts r) r sg)"
| "linkStep grow now (LRecv n) (l, r, sg) =
     map_option (\<lambda>((b, a, er), r', sg', ev). (ODatagram b a er, l, r', sg')) (ReadFrom grow n (quietAtts r) r sg)"
| "linkStep grow now (LView f) (l, r, sg) =
     map_option (\<lambda>(res, r', sg', ev). (OView res, l, r', sg')) (ReadZeroCopy (quietAtts r) (Some (\<lambda>b. (b, f b))) r sg)"

fun linkRun :: "(nat \<Rightarrow> nat) \<Rightarrow> int \<Rightarrow> lop list \<Rightarrow> StandardLink \<times> StandardLink \<times> segment
     \<Rightarrow> (lout list \<times> StandardLink \<times> StandardLink \<times> segment) option" where
  "linkRun grow now [] s = Some ([], s)"
| "linkRun grow now (op # ops) s =
     (case linkStep grow now op s of
        None \<Rightarrow> None
      | Some (r, s') \<Rightarrow> (case linkRun grow now ops s' of None \<Rightarrow> None | Some (rs, s'') \<Rightarrow> Some (r # rs, s'')))"

text \<open>A write callback that announces a size announces no more than it wrote.\<close>

fun lop_ok :: "nat \<Rightarrow> lop \<Rightarrow> bool" where
  "lop_ok bs (LFill buf (FillRet n None)) = (length buf \<le> bs \<and> (n \<le> int bs \<longrightarrow> n \<le> int (length buf)))"
| "lop_ok bs (LFill buf out) = (length buf \<le> bs)"
| "lop_ok bs op = True"

text \<open>The slots a call may take.\<close>

fun lop_sends :: "lop \<Rightarrow> nat" where
  "lop_sends (LWrite b) = 1"
| "lop_sends (LFill buf out) = 1"
| "lop_sends op = 0"

text \<open>Two open endpoints of one segment, the first one sending to the second.\<close>

definition session :: "StandardLink \<Rightarrow> StandardLink \<Rightarrow> segment \<Rightarrow> bool" where
  "session l r sg \<longleftrightarrow>
     lk_mode r = other (lk_mode l) \<and> lk_bufferSize r = lk_bufferSize l
     \<and> h_mask (rxHandle r) = h_mask (txHandle l) \<and> h_size (rxHandle r) = h_size (txHandle l)
     \<and> \<not> lk_closed l \<and> lk_hb l \<and> PeerState_err (pm_status (lk_peer l)) = None \<and> rx_inv r sg"

lemma handle_cong:
  assumes "h_mask h = h_mask h'" "h_size h = h_size h'"
  shows "ring_inv h = ring_inv h'" "ring_abs h = ring_abs h'"
proof -
  have i: "slot_index h = slot_index h'" using assms by (intro ext) (simp add: slot_index_def)
  show "ring_inv h = ring_inv h'" "ring_abs h = ring_abs h'"
    using assms by (auto simp: ring_inv_def ring_abs_def handle_ok_def slot_seq_def slot_data_def i intro!: ext)
qed

lemma chan_cong:
  assumes "h_mask h = h_mask h'" "h_size h = h_size h'"
  shows "chan_inv h = chan_inv h'" "(ring_abs h :: linkRing \<Rightarrow> slotData list) = ring_abs h'"
  by (auto simp: chan_inv_def handle_cong [OF assms] intro!: ext)

lemma session_rings:
  assumes "session l r sg"
  shows "txRing l sg = rxRing r sg" "set_txRing l m sg = set_rxRing r m sg"
    "(ring_abs (txHandle l) :: linkRing \<Rightarrow> slotData list) = ring_abs (rxHandle r)"
    "chan_inv (txHandle l) = chan_inv (rxHandle r)" "chan_inv (txHandle l) (lk_bufferSize l) (txRing l sg)" "ring_len (rxRing r sg) \<le> unat (h_size (rxHandle r))"
proof -
  have "lk_mode r = other (lk_mode l)" using assms by (simp add: session_def)
  then show t: "txRing l sg = rxRing r sg" "set_txRing l m sg = set_rxRing r m sg"
    by (cases "lk_mode l", simp_all add: txRing_def rxRing_def set_txRing_def set_rxRing_def other_def)+
  show c: "(ring_abs (txHandle l) :: linkRing \<Rightarrow> slotData list) = ring_abs (rxHandle r)"
    "chan_inv (txHandle l) = chan_inv (rxHandle r)"
    using chan_cong [of "txHandle l" "rxHandle r"] assms by (simp_all add: session_def)
  show "chan_inv (txHandle l) (lk_bufferSize l) (txRing l sg)" "ring_len (rxRing r sg) \<le> unat (h_size (rxHandle r))"
    using assms t c by (auto simp: session_def rx_inv_def chan_inv_def ring_inv_def)
qed

lemma session_tx:
  assumes s: "session l r sg" and same: "sameLink l l'" "lk_hb l' = lk_hb l" "lk_peer l' = lk_peer l"
    and m: "chan_inv (txHandle l) (lk_bufferSize l) m"
    and c: "chanAbs (lk_bufferSize l) (ring_abs (txHandle l) m)
        = chanAbs (lk_bufferSize l) (ring_abs (txHandle l) (txRing l sg)) @ es"
  shows "session l' r (set_txRing l m sg)" "rxStream r (set_txRing l m sg) = rxStream r sg @ es"
proof -
  note sr = session_rings [OF s]
  have bs: "lk_bufferSize r = lk_bufferSize l" using s by (simp add: session_def)
  show "session l' r (set_txRing l m sg)"
    using s same m sr sameLink_rings [OF same(1)] by (simp add: session_def rx_inv_def sameLink_def)
  show "rxStream r (set_txRing l m sg) = rxStream r sg @ es"
    using c sr bs by (simp add: rxStream_def)
qed

lemma session_rx:
  assumes s: "session l r sg" and st: "rxStep r sg r' sg'"
  shows "session l r' sg'"
  using s st by (auto simp: session_def rxStep_def)

lemma session_admits:
  assumes "session l r sg"
  obtains l1 where "enterTx True now (sg_sb sg) l = (None, l1)" "sameLink l (exitTx l1)"
    "lk_hb (exitTx l1) = lk_hb l" "lk_peer (exitTx l1) = lk_peer l"
proof -
  have "enterTx True now (sg_sb sg) l = (None, l\<lparr>lk_txActive := lk_txActive l + 1\<rparr>)"
    using assms by (simp add: enterTx_def admitTx_def session_def)
  then show thesis using that enterTx_ok(1) by (simp add: exitTx_def)
qed

lemma session_full:
  assumes s: "session l r sg" and f: "\<not> ring_len (txRing l sg) < unat (h_size (txHandle l))"
  shows "ReserveProducerCancel (txHandle l) [] (txRing l sg) = None"
proof -
  have ri: "ring_inv (txHandle l) (txRing l sg)" using session_rings(5) [OF s] by (simp add: chan_inv_def)
  then have f: "ring_len (txRing l sg) = unat (h_size (txHandle l))" using f by (simp add: ring_inv_def)
  show ?thesis unfolding ReserveProducerCancel_def claimProducer_full [OF ri f] by simp
qed

lemma linkStep_send:
  assumes s: "session l r sg" and op: "lop_ok (lk_bufferSize l) op" and snd: "case op of LWrite b \<Rightarrow> True | LFill b u \<Rightarrow> True | _ \<Rightarrow> False"
    and st: "linkStep grow now op (l, r, sg) = Some (res, l', r', sg')"
  shows "session l' r' sg' \<and> lk_bufferSize l' = lk_bufferSize l \<and> lk_mode r' = lk_mode r
    \<and> specStep (lk_bufferSize l) (peerAddr r) op (rxStream r sg) = Some (res, rxStream r' sg')
    \<and> txHandle l' = txHandle l \<and> ring_len (txRing l' sg') \<le> ring_len (txRing l sg) + lop_sends op"
proof -
  note sr = session_rings [OF s]
  obtain l1 where adm: "enterTx True now (sg_sb sg) l = (None, l1)" "sameLink l (exitTx l1)"
    "lk_hb (exitTx l1) = lk_hb l" "lk_peer (exitTx l1) = lk_peer l" by (rule session_admits [OF s])
  have bs: "lk_bufferSize (exitTx l1) = lk_bufferSize l" using adm(2) by (simp add: sameLink_def)
  note e = enterTx_ok [OF adm(1)]
  note full = session_full [OF s]
  show ?thesis
  proof (cases op)
    case (LWrite b)
    show ?thesis
    proof (cases "b = [] \<or> length b > lk_bufferSize l")
      case True
      then show ?thesis using st s LWrite by (auto simp: Write_def)
    next
      case False
      then have room: "ring_len (txRing l sg) < unat (h_size (txHandle l))"
        using st adm(1) e by (intro ccontr [of "ring_len _ < _"]) (auto simp: full LWrite Write_def)
      obtain m ev where w: "Write now [] b l sg = Some ((length b, None), exitTx l1, set_txRing l m sg, ev)"
        "chan_inv (txHandle l) (lk_bufferSize l) m"
        "chanAbs (lk_bufferSize l) (ring_abs (txHandle l) m)
          = chanAbs (lk_bufferSize l) (ring_abs (txHandle l) (txRing l sg)) @ [Inr b]"
        "ring_len m = Suc (ring_len (txRing l sg))"
        using Write_room [OF sr(5) room _ _ adm(1)] False by (metis not_less)
      then show ?thesis using st session_tx [OF s adm(2-4) w(2,3)] False bs sameLink_rings [OF adm(2)] by (auto simp: LWrite)
    qed
  next
    case (LFill buf u)
    have ok: "length buf \<le> lk_bufferSize l" "\<And>n. u = FillRet n None \<Longrightarrow> n \<le> int (lk_bufferSize l) \<Longrightarrow> n \<le> int (length buf)"
      using op by (cases "(lk_bufferSize l, op)" rule: lop_ok.cases; simp add: LFill)+
    have room: "ring_len (txRing l sg) < unat (h_size (txHandle l))"
      using st adm(1) e by (intro ccontr [of "ring_len _ < _"]) (auto simp: full LFill WriteZeroCopy_def)
    obtain m ev where w: "WriteZeroCopy now [] (Some (filler buf u)) l sg
          = Some (fillResult (lk_bufferSize l) u, exitTx l1, set_txRing l m sg, ev)"
      "chan_inv (txHandle l) (lk_bufferSize l) m"
      "chanAbs (lk_bufferSize l) (ring_abs (txHandle l) m)
        = chanAbs (lk_bufferSize l) (ring_abs (txHandle l) (txRing l sg)) @ fillEvents (lk_bufferSize l) buf u"
      "ring_len m = Suc (ring_len (txRing l sg))"
      using WriteZeroCopy_room [OF sr(5) room ok adm(1)] by blast
    then show ?thesis using st session_tx [OF s adm(2-4) w(2,3)] bs sameLink_rings [OF adm(2)] by (auto simp: LFill)
  qed (use snd in simp_all)
qed

lemma quiet_nothing:
  assumes inv: "rx_inv r sg" and emp: "rxStream r sg = []"
  shows "recvMessage grow dg n (quietAtts r) r sg = None" "ReadZeroCopy (quietAtts r) (Some f) r sg = None"
proof -
  obtain l1 where en: "enterRx r = (None, l1)" using enterRx_open inv by (auto simp: rx_inv_def)
  note e1 = enterRx_ok [OF en]
  have rr: "rr_inv (lk_recv r)" and ch: "chan_inv (rxHandle r) (lk_bufferSize r) (rxRing r sg)"
    using inv by (simp_all add: rx_inv_def)
  have "rr_tails (lk_recv r) = []" and c: "chanAbs (lk_bufferSize r) (ring_abs (rxHandle r) (rxRing r sg)) = []"
    using emp by (simp_all add: rxStream_def)
  then have np: "\<not> rr_pending (lk_recv r)" using rr_tails_head(1) [OF rr] by simp
  have "nextMessage (rxHandle r) (lk_bufferSize r) (quietAtts r) (rxRing r sg) = None"
    using ch c by (rule nextMessage_none) (simp add: quietAtts_def)
  then show "recvMessage grow dg n (quietAtts r) r sg = None" "ReadZeroCopy (quietAtts r) (Some f) r sg = None"
    by (simp_all add: recvMessage_def ReadZeroCopy_def en e1 np)
qed

lemma linkStep_receive:
  assumes s: "session l r sg" and rcv: "case op of LWrite b \<Rightarrow> False | LFill b u \<Rightarrow> False | _ \<Rightarrow> True"
    and st: "linkStep grow now op (l, r, sg) = Some (res, l', r', sg')"
  shows "session l' r' sg' \<and> lk_bufferSize l' = lk_bufferSize l \<and> lk_mode r' = lk_mode r
    \<and> specStep (lk_bufferSize l) (peerAddr r) op (rxStream r sg) = Some (res, rxStream r' sg')
    \<and> txHandle l' = txHandle l \<and> ring_len (txRing l' sg') \<le> ring_len (txRing l sg) + lop_sends op"
proof (cases "op = LRead 0")
  case True
  then show ?thesis using st s by (auto simp: Read_def)
next
  case n0: False
  have inv: "rx_inv r sg" using s by (simp add: session_def)
  have q: "ring_len (rxRing r sg) \<le> length (quietAtts r)" using session_rings(6) [OF s] by (simp add: quietAtts_def)
  show ?thesis
  proof (cases "rxStream r sg")
    case Nil
    then show ?thesis using st rcv n0 quiet_nothing [OF inv Nil]
      by (cases op) (auto simp: Read_def ReadFrom_def)
  next
    case (Cons e es)
    note rm = recvMessage_refines [OF inv Cons q, of grow]
    have mode: "lk_mode r2 = lk_mode r \<and> ring_len (txRing l sg2) \<le> ring_len (txRing l sg)"
      if st: "rxStep r sg r2 sg2" for r2 sg2
      using session_rings(1) [OF s] session_rings(1) [OF session_rx [OF s st]] st by (auto simp: rxStep_def)
    show ?thesis
    proof (cases op)
      case (LRead n)
      then have "n \<noteq> 0" using n0 by simp
      then show ?thesis using st rm [of False n] mode session_rx [OF s] Cons
        by (cases e) (auto simp: LRead Read_def)
    next
      case (LRecv n)
      then show ?thesis using st rm [of True n] mode session_rx [OF s] Cons
        by (cases e) (auto simp: ReadFrom_def)
    next
      case (LView f)
      then show ?thesis using st ReadZeroCopy_refines [OF inv Cons q, of "\<lambda>b. (b, f b)"] mode session_rx [OF s] Cons
        by (cases e) auto
    qed (use rcv in simp_all)
  qed
qed

lemma linkRun_refines:
  assumes "session l r sg" "list_all (lop_ok (lk_bufferSize l)) ops"
    and "linkRun grow now ops (l, r, sg) = Some (outs, l', r', sg')"
  shows "specRun (lk_bufferSize l) (peerAddr r) ops (rxStream r sg) = Some (outs, rxStream r' sg')
    \<and> session l' r' sg'"
  using assms
proof (induction ops arbitrary: l r sg outs)
  case Nil
  then show ?case by simp
next
  case (Cons op ops)
  obtain res l1 r1 sg1 outs1 where st: "linkStep grow now op (l, r, sg) = Some (res, l1, r1, sg1)"
    and run: "linkRun grow now ops (l1, r1, sg1) = Some (outs1, l', r', sg')" and outs: "outs = res # outs1"
    using Cons.prems(3) by (auto split: option.splits)
  have "session l1 r1 sg1 \<and> lk_bufferSize l1 = lk_bufferSize l \<and> lk_mode r1 = lk_mode r
    \<and> specStep (lk_bufferSize l) (peerAddr r) op (rxStream r sg) = Some (res, rxStream r1 sg1)"
    using linkStep_send [OF Cons.prems(1) _ _ st] linkStep_receive [OF Cons.prems(1) _ st] Cons.prems(2) by (cases op) auto
  then show ?case using Cons.IH [of l1 r1 sg1 outs1] run outs Cons.prems(2) by (auto simp: peerAddr_def)
qed


text \<open>
  C6: The two ends of a link refine a queue of messages. For every sequence of sends (copying or
  zero-copy, with callbacks that succeed, fail or panic) and receives (partial reads, datagrams,
  zero-copy) that do not wait for ever, the results are exactly those of the specification, a list
  from which receives take in the order of the sends: no message is lost, duplicated, reordered or
  mixed with another, and a failed send is invisible to the receiver.
\<close>

theorem link_refines_queue:
  assumes "session l r sg" "list_all (lop_ok (lk_bufferSize l)) ops"
    and "linkRun grow now ops (l, r, sg) = Some (outs, l', r', sg')"
  shows "specRun (lk_bufferSize l) (peerAddr r) ops (rxStream r sg) = Some (outs, rxStream r' sg')
    \<and> session l' r' sg'"
  using linkRun_refines [OF assms] .

text \<open>When a call of the run waits: a send while the ring is full, a receive while nothing is queued.\<close>

fun lop_waits :: "StandardLink \<Rightarrow> StandardLink \<Rightarrow> segment \<Rightarrow> lop \<Rightarrow> bool" where
  "lop_waits l r sg (LWrite b) =
     (b \<noteq> [] \<and> length b \<le> lk_bufferSize l \<and> ring_len (txRing l sg) = unat (h_size (txHandle l)))"
| "lop_waits l r sg (LFill buf u) = (ring_len (txRing l sg) = unat (h_size (txHandle l)))"
| "lop_waits l r sg (LRead n) = (n \<noteq> 0 \<and> rxStream r sg = [])"
| "lop_waits l r sg (LRecv n) = (rxStream r sg = [])"
| "lop_waits l r sg (LView f) = (rxStream r sg = [])"

lemma send_waits:
  assumes s: "session l r sg" and op: "lop_ok (lk_bufferSize l) op" and snd: "case op of LWrite b \<Rightarrow> True | LFill b u \<Rightarrow> True | _ \<Rightarrow> False"
  shows "linkStep grow now op (l, r, sg) = None \<longleftrightarrow> lop_waits l r sg op"
proof -
  note sr = session_rings [OF s]
  obtain l1 where adm: "enterTx True now (sg_sb sg) l = (None, l1)" by (rule session_admits [OF s])
  note e = enterTx_ok [OF adm]
  have le: "ring_len (txRing l sg) \<le> unat (h_size (txHandle l))" using sr(5) by (simp add: chan_inv_def ring_inv_def)
  show ?thesis
  proof (cases "ring_len (txRing l sg) < unat (h_size (txHandle l))")
    case room: True
    show ?thesis
    proof (cases op)
      case (LWrite b)
      then show ?thesis using Write_room [OF sr(5) room, of b now l1 "[]"] adm room
        by (cases "b = [] \<or> length b > lk_bufferSize l") (auto simp: Write_def)
    next
      case (LFill buf u)
      have ok: "length buf \<le> lk_bufferSize l" "\<And>n. u = FillRet n None \<Longrightarrow> n \<le> int (lk_bufferSize l) \<Longrightarrow> n \<le> int (length buf)"
        using op by (cases "(lk_bufferSize l, op)" rule: lop_ok.cases; simp add: LFill)+
      obtain m ev where "WriteZeroCopy now [] (Some (filler buf u)) l sg
          = Some (fillResult (lk_bufferSize l) u, exitTx l1, set_txRing l m sg, ev)"
        using WriteZeroCopy_room [OF sr(5) room ok adm] by blast
      then show ?thesis using room by (simp add: LFill)
    qed (use snd in simp_all)
  next
    case False
    then show ?thesis using le adm e snd
      by (cases op) (auto simp: session_full [OF s False] Write_def WriteZeroCopy_def)
  qed
qed

lemma receive_waits:
  assumes s: "session l r sg" and rcv: "case op of LWrite b \<Rightarrow> False | LFill b u \<Rightarrow> False | _ \<Rightarrow> True"
  shows "linkStep grow now op (l, r, sg) = None \<longleftrightarrow> lop_waits l r sg op"
proof -
  have inv: "rx_inv r sg" using s by (simp add: session_def)
  have q: "ring_len (rxRing r sg) \<le> length (quietAtts r)" using session_rings(6) [OF s] by (simp add: quietAtts_def)
  show ?thesis
  proof (cases "rxStream r sg")
    case Nil
    then show ?thesis using rcv quiet_nothing [OF inv Nil] by (cases op) (auto simp: Read_def ReadFrom_def)
  next
    case (Cons e es)
    note rm = recvMessage_refines [OF inv Cons q, of grow] and zc = ReadZeroCopy_refines [OF inv Cons q]
    show ?thesis
    proof (cases op)
      case (LRead n)
      then show ?thesis using rm [of False n] Cons by (cases e) (auto simp: Read_def)
    next
      case (LRecv n)
      then show ?thesis using rm [of True n] Cons by (cases e) (auto simp: ReadFrom_def)
    next
      case (LView f)
      then show ?thesis using zc [of "\<lambda>b. (b, f b)"] Cons by (cases e) auto
    qed (use rcv in simp_all)
  qed
qed

lemma linkStep_waits:
  assumes "session l r sg" "lop_ok (lk_bufferSize l) op"
  shows "linkStep grow now op (l, r, sg) = None \<longleftrightarrow> lop_waits l r sg op"
  by (cases op) (use send_waits [OF assms, of grow now] receive_waits [OF assms(1), of op grow now] in simp_all)

text \<open>While the sends fit into the ring, a run returns exactly when the specification does, with its results.\<close>

lemma linkRun_returns:
  assumes "session l r sg" "list_all (lop_ok (lk_bufferSize l)) ops"
    and "ring_len (txRing l sg) + sum_list (map lop_sends ops) \<le> unat (h_size (txHandle l))"
  shows "map_option fst (linkRun grow now ops (l, r, sg))
    = map_option fst (specRun (lk_bufferSize l) (peerAddr r) ops (rxStream r sg))"
  using assms
proof (induction ops arbitrary: l r sg)
  case Nil
  then show ?case by simp
next
  case (Cons op ops)
  have ok: "lop_ok (lk_bufferSize l) op" using Cons.prems(2) by simp
  have w: "linkStep grow now op (l, r, sg) = None \<longleftrightarrow> lop_waits l r sg op"
    by (rule linkStep_waits [OF Cons.prems(1) ok])
  show ?case
  proof (cases "linkStep grow now op (l, r, sg)")
    case None
    then have "specStep (lk_bufferSize l) (peerAddr r) op (rxStream r sg) = None"
      using w Cons.prems(3) by (cases op) simp_all
    then show ?thesis using None by simp
  next
    case (Some x)
    obtain res l1 r1 sg1 where x: "x = (res, l1, r1, sg1)" by (cases x) auto
    have st: "session l1 r1 sg1" "lk_bufferSize l1 = lk_bufferSize l" "lk_mode r1 = lk_mode r"
        "specStep (lk_bufferSize l) (peerAddr r) op (rxStream r sg) = Some (res, rxStream r1 sg1)"
        "txHandle l1 = txHandle l" "ring_len (txRing l1 sg1) \<le> ring_len (txRing l sg) + lop_sends op"
      using linkStep_send [OF Cons.prems(1) ok _ Some [unfolded x]] linkStep_receive [OF Cons.prems(1) _ Some [unfolded x]]
      by (cases op; simp)+
    have "map_option fst (linkRun grow now ops (l1, r1, sg1))
        = map_option fst (specRun (lk_bufferSize l) (peerAddr r) ops (rxStream r1 sg1))"
      using Cons.IH [OF st(1)] st Cons.prems(2,3) by (simp add: peerAddr_def)
    then show ?thesis
      using Some x st(4)
      by (cases "linkRun grow now ops (l1, r1, sg1)"; cases "specRun (lk_bufferSize l) (peerAddr r) ops (rxStream r1 sg1)") auto
  qed
qed

text \<open>
  C16: A call on an undisturbed link returns at once exactly when it can: a send waits only while the
  ring is full (an empty or oversized message never waits), and a receive waits only while nothing
  that it could deliver is queued; aborted sends in the ring do not delay it.
\<close>

theorem link_waits_iff:
  assumes "session l r sg" "lop_ok (lk_bufferSize l) op"
  shows "linkStep grow now op (l, r, sg) = None \<longleftrightarrow> lop_waits l r sg op"
  by (rule linkStep_waits [OF assms])

definition wit_chan :: linkRing where
  "wit_chan = \<lparr>rg_magic = mpmc_magic, rg_size = 2, rg_flag = mpmc_init, rg_stride = 64,
     rg_version = layoutVersion, rg_r = - 1, rg_w = - 1, notEmpty = 0, emptyWaiters = 0,
     notFull = 0, fullWaiters = 0,
     slots = [\<lparr>seq = 0, edata = (zeroPacket, [0, 0, 0, 0])\<rparr>,
              \<lparr>seq = - 1, edata = (zeroPacket, [0, 0, 0, 0])\<rparr>]\<rparr>"

definition wit_link :: "LinkMode \<Rightarrow> StandardLink" where
  "wit_link md = \<lparr>lk_mode = md, lk_bufferCount = 2, lk_bufferSize = 4, lk_opts = wit_opts roleAny, lk_token = 7, lk_epoch = 1,
     lk_h0 = wit_h, lk_h1 = wit_h, lk_recv = newRemainder 4, lk_readDeadline = None, lk_writeDeadline = None,
     lk_closed = False, lk_hb = True, lk_peer = zeroMonitor, lk_rxActive = 0, lk_txActive = 0, lk_txBase = 0\<rparr>"

definition wit_seg :: segment where
  "wit_seg = \<lparr>sg_sb = wit_zero, sg_ring0 = wit_chan, sg_ring1 = wit_chan\<rparr>"

lemma wit_session: "session (wit_link LinkModePrimary) (wit_link LinkModeSecondary) wit_seg"
proof -
  have "ring_inv wit_h wit_chan" by code_simp
  then show ?thesis
    by (simp add: session_def rx_inv_def chan_inv_def slots_wf_def wit_link_def wit_seg_def wit_chan_def rr_inv_new
        rxHandle_def txHandle_def rxRing_def zeroMonitor_def PeerState_err_def other_def)
qed

lemma wit_stream: "rxStream (wit_link LinkModeSecondary) wit_seg = []"
  by (simp add: rxStream_def rr_inv_new wit_link_def wit_seg_def rxRing_def chanAbs_def ring_abs_def ring_len_def wit_chan_def)

definition wit_lops :: "lop list" where
  "wit_lops = [LWrite [1, 2, 3], LFill [9, 9] (FillRet 0 None), LRead 2, LRead 5, LFill [4, 5] (FillRet 2 None), LRecv 1, LWrite [6], LView (\<lambda>b. UseRet None)]"

theorem link_refines_queue_witness:
  "map_option fst (linkRun (\<lambda>n. n) 0 wit_lops (wit_link LinkModePrimary, wit_link LinkModeSecondary, wit_seg))
     = Some [OSent 3 None, OFill (SendRet 0 (Some ErrInvalidSize)), OGot [1, 2] None, OGot [3] None, OFill (SendRet 2 None),
         ODatagram [4] (Some ''hqq-primary'') None, OSent 1 None, OView (SendRet 1 None)]"
  (is "map_option fst ?run = _")
proof -
  have "?run \<noteq> None" by code_simp
  then obtain outs l' r' sg' where run: "?run = Some (outs, l', r', sg')" by auto
  have bs: "lk_bufferSize (wit_link LinkModePrimary) = 4" by (simp add: wit_link_def)
  have "list_all (lop_ok (lk_bufferSize (wit_link LinkModePrimary))) wit_lops"
    by (simp add: wit_lops_def bs)
  then have "specRun 4 (peerAddr (wit_link LinkModeSecondary)) wit_lops [] = Some (outs, rxStream r' sg')"
    using link_refines_queue [OF wit_session _ run] by (simp add: bs wit_stream)
  then have "outs = [OSent 3 None, OFill (SendRet 0 (Some ErrInvalidSize)), OGot [1, 2] None, OGot [3] None, OFill (SendRet 2 None),
         ODatagram [4] (Some ''hqq-primary'') None, OSent 1 None, OView (SendRet 1 None)]"
    by (auto simp add: wit_lops_def fillResult_def fillEvents_def peerAddr_def wit_link_def useResult_def)
  then show ?thesis by (simp only: run option.map fst_conv)
qed

theorem link_waits_iff_witness:
  "linkStep (\<lambda>n. n) 0 (LWrite [1, 2]) (wit_link LinkModePrimary, wit_link LinkModeSecondary, wit_seg) \<noteq> None"
proof -
  have "lop_ok (lk_bufferSize (wit_link LinkModePrimary)) (LWrite [1, 2])" by simp
  moreover have "ring_len (txRing (wit_link LinkModePrimary) wit_seg) = 0"
    by (simp add: txRing_def wit_link_def wit_seg_def wit_chan_def ring_len_def)
  moreover have "unat (h_size (txHandle (wit_link LinkModePrimary))) = 2"
    by (simp add: txHandle_def wit_link_def wit_h_def)
  ultimately show ?thesis using link_waits_iff [OF wit_session, of "LWrite [1, 2]" "\<lambda>n. n" 0] by simp
qed

end
