(* ===== verification/Link_Open.thy ===== *)
theory Link_Open
  imports Link_Stream
begin

text \<open>
  Opening a Standard link (\<^verbatim>\<open>src/standard.go\<close>: \<^verbatim>\<open>NewStandardLink\<close>, \<^verbatim>\<open>openStandardLink\<close>,
  \<^verbatim>\<open>attachRing\<close>, \<^verbatim>\<open>AlignedBuffer\<close>), composed of the layout, the claim of the superblock, the
  guarded initialization and the attachment of the rings. The segment is the superblock, two rings
  of packets and two payload regions; once it is open, buffer \<open>i\<close> of a region belongs to slot \<open>i\<close>
  of its ring. What other processes do to the superblock between the accesses, the clocks and the
  context are inputs.
\<close>

section \<open>The memory of a segment\<close>

record segImage =
  im_sb :: standardSuperblock
  im_ring0 :: "Packet mring"
  im_ring1 :: "Packet mring"
  im_buf0 :: bytes
  im_buf1 :: bytes

definition joinRing :: "Packet mring \<Rightarrow> bytes list \<Rightarrow> linkRing" where
  "joinRing m bs =
     \<lparr>rg_magic = rg_magic m, rg_size = rg_size m, rg_flag = rg_flag m, rg_stride = rg_stride m,
      rg_version = rg_version m, rg_r = rg_r m, rg_w = rg_w m, notEmpty = notEmpty m,
      emptyWaiters = emptyWaiters m, notFull = notFull m, fullWaiters = fullWaiters m,
      slots = map2 (\<lambda>e b. \<lparr>seq = seq e, edata = (edata e, b)\<rparr>) (slots m) bs\<rparr>"

text \<open>The segment as the calls of an open link see it.\<close>

definition imageSegment :: "nat \<Rightarrow> nat \<Rightarrow> segImage \<Rightarrow> segment" where
  "imageSegment cnt sz im =
     \<lparr>sg_sb = im_sb im, sg_ring0 = joinRing (im_ring0 im) (splitBuffers (im_buf0 im) cnt sz),
      sg_ring1 = joinRing (im_ring1 im) (splitBuffers (im_buf1 im) cnt sz)\<rparr>"

section \<open>Attaching to a ring\<close>

definition ringAttachSlice :: nat where [hqq_consts]: "ringAttachSlice = 10000000"

text \<open>
  One round of the loop of \<^verbatim>\<open>attachRing\<close>: the error of the context, the times before and after
  \<^verbatim>\<open>mpmc.Attach\<close> and of the deadline check, and for every poll what others did to the ring and the
  time since the start of \<^verbatim>\<open>mpmc.Attach\<close>.
\<close>

record attachTurn =
  at_ctxErr :: "err option"
  at_start :: int
  at_polls :: "((Packet mring \<Rightarrow> Packet mring) \<times> nat) list"
  at_since :: int
  at_now :: int

fun attachLoop :: "int \<Rightarrow> attachTurn list \<Rightarrow> Packet mring \<Rightarrow> (err + mhandle option) option" where
  "attachLoop limit [] m = None"
| "attachLoop limit (t # ts) m =
     (case at_ctxErr t of
        Some er \<Rightarrow> Some (Inl er)
      | None \<Rightarrow>
        (case Attach packetSlotSize ringAttachSlice (map (\<lambda>(f, el). (f m, el)) (at_polls t)) of
           None \<Rightarrow> None
         | Some (Some h) \<Rightarrow> Some (Inr (Some h))
         | Some None \<Rightarrow>
             if at_since t - at_start t < int ringAttachSlice \<or> \<not> at_now t < limit then Some (Inr None)
             else attachLoop limit ts m))"

definition attachRing :: "int \<Rightarrow> int \<Rightarrow> attachTurn list \<Rightarrow> Packet mring \<Rightarrow> (err + mhandle option) option" where
  "attachRing now timeout ts m = attachLoop (now + timeout) ts m"

section \<open>Opening\<close>

text \<open>
  The inputs of an open. The write phases are numbered: 0 and 1 format the rings, 2 and 3 clear the
  buffers, 4 publishes. \<open>oe_see ph k\<close> is what others do to the superblock before check \<open>k\<close> of
  phase \<open>ph\<close>, \<open>oe_after ph\<close> what they do before the progress that ends it.
\<close>

record openEnv =
  oe_claimNow :: int
  oe_claim :: "claimTurn list"
  oe_ctxErr :: "nat \<Rightarrow> nat \<Rightarrow> err option"
  oe_see :: "nat \<Rightarrow> nat \<Rightarrow> standardSuperblock \<Rightarrow> standardSuperblock"
  oe_after :: "nat \<Rightarrow> standardSuperblock \<Rightarrow> standardSuperblock"
  oe_nanos :: "nat \<Rightarrow> u64"
  oe_attachNow :: "int \<times> int"
  oe_attach0 :: "attachTurn list"
  oe_attach1 :: "attachTurn list"
  oe_peerNow :: int

datatype 'a openRes = OpenErr err | OpenPanic | OpenOk 'a

definition formatPhase :: "openEnv \<Rightarrow> nat \<Rightarrow> claimParams \<Rightarrow> standardSuperblock \<Rightarrow> Packet mring
     \<Rightarrow> unit openRes \<times> standardSuperblock \<times> Packet mring" where
  "formatPhase env ph p sb m =
     (let check = (\<lambda>k. session_check (oe_ctxErr env ph k) (cp_token p) (fold (oe_see env ph) [0..<Suc k] sb)) in
      case FormatGuarded packetSlotSize check zeroPacket (of_int (cp_bufferCount p)) m of
        (FormatPanic, m') \<Rightarrow> (OpenPanic, oe_after env ph sb, m')
      | (FormatErr er, m') \<Rightarrow> (OpenErr er, oe_after env ph sb, m')
      | (FormatOk, m') \<Rightarrow>
          (OpenOk (), session_progress (oe_nanos env ph) (cp_token p) (oe_after env ph sb), m'))"

definition zeroPhase :: "openEnv \<Rightarrow> nat \<Rightarrow> claimParams \<Rightarrow> standardSuperblock \<Rightarrow> bytes
     \<Rightarrow> unit openRes \<times> standardSuperblock \<times> bytes" where
  "zeroPhase env ph p sb b =
     (let check = (\<lambda>(k, s). let s' = oe_see env ph k s in (session_check (oe_ctxErr env ph k) (cp_token p) s', Suc k, s'));
          progress = (\<lambda>(k, s). (k, session_progress (oe_nanos env ph) (cp_token p) s)) in
      case session_zero check progress (0, sb) b of
        (Some er, (_, sb'), b') \<Rightarrow> (OpenErr er, sb', b')
      | (None, (_, sb'), b') \<Rightarrow> (OpenOk (), sb', b'))"

definition openInit :: "openEnv \<Rightarrow> claimParams \<Rightarrow> segImage \<Rightarrow> u64 openRes \<times> segImage" where
  "openInit env p im =
     (case formatPhase env 0 p (im_sb im) (im_ring0 im) of
        (OpenErr er, sb, m) \<Rightarrow> (OpenErr er, im\<lparr>im_sb := sb, im_ring0 := m\<rparr>)
      | (OpenPanic, sb, m) \<Rightarrow> (OpenPanic, im\<lparr>im_sb := sb, im_ring0 := m\<rparr>)
      | (OpenOk _, sb, m) \<Rightarrow>
        let im1 = im\<lparr>im_sb := sb, im_ring0 := m\<rparr> in
        case formatPhase env 1 p (im_sb im1) (im_ring1 im1) of
          (OpenErr er, sb, m) \<Rightarrow> (OpenErr er, im1\<lparr>im_sb := sb, im_ring1 := m\<rparr>)
        | (OpenPanic, sb, m) \<Rightarrow> (OpenPanic, im1\<lparr>im_sb := sb, im_ring1 := m\<rparr>)
        | (OpenOk _, sb, m) \<Rightarrow>
          let im2 = im1\<lparr>im_sb := sb, im_ring1 := m\<rparr> in
          case zeroPhase env 2 p (im_sb im2) (im_buf0 im2) of
            (OpenErr er, sb, b) \<Rightarrow> (OpenErr er, im2\<lparr>im_sb := sb, im_buf0 := b\<rparr>)
          | (OpenPanic, sb, b) \<Rightarrow> (OpenPanic, im2\<lparr>im_sb := sb, im_buf0 := b\<rparr>)
          | (OpenOk _, sb, b) \<Rightarrow>
            let im3 = im2\<lparr>im_sb := sb, im_buf0 := b\<rparr> in
            case zeroPhase env 3 p (im_sb im3) (im_buf1 im3) of
              (OpenErr er, sb, b) \<Rightarrow> (OpenErr er, im3\<lparr>im_sb := sb, im_buf1 := b\<rparr>)
            | (OpenPanic, sb, b) \<Rightarrow> (OpenPanic, im3\<lparr>im_sb := sb, im_buf1 := b\<rparr>)
            | (OpenOk _, sb, b) \<Rightarrow>
              let im4 = im3\<lparr>im_sb := sb, im_buf1 := b\<rparr> in
              case publishSuperblock (oe_see env 4) (\<lambda>k. oe_after env 4) (oe_ctxErr env 4) p (oe_nanos env 4) (im_sb im4) of
                (Inl er, sb) \<Rightarrow> (OpenErr er, im4\<lparr>im_sb := sb\<rparr>)
              | (Inr epoch, sb) \<Rightarrow> (OpenOk epoch, im4\<lparr>im_sb := sb\<rparr>))"

text \<open>The closure \<^verbatim>\<open>detach\<close>: a compare-and-swap of the endpoint's token.\<close>

definition openDetach :: "LinkMode \<Rightarrow> u64 \<Rightarrow> segImage \<Rightarrow> segImage" where
  "openDetach mode token im =
     (let r = endpoints (im_sb im) mode in
      if ep_token r = token then im\<lparr>im_sb := set_endpoint mode (r\<lparr>ep_token := detachedToken\<rparr>) (im_sb im)\<rparr> else im)"

definition ringSetup :: "LinkOptions \<Rightarrow> bool \<Rightarrow> mhandle \<Rightarrow> mhandle" where
  "ringSetup opts parker h =
     (let h1 = SetWaitPolicy (ringPolicy (o_WaitPolicy opts)) h in if parker then SetParker True h1 else h1)"

definition newLink :: "openEnv \<Rightarrow> LinkMode \<Rightarrow> claimParams \<Rightarrow> u64 \<Rightarrow> mhandle \<Rightarrow> mhandle \<Rightarrow> segImage \<Rightarrow> StandardLink" where
  "newLink env mode p epoch h0 h1 im =
     (let opts = cp_opts p;
          l = \<lparr>lk_mode = mode, lk_bufferCount = nat (cp_bufferCount p), lk_bufferSize = nat (cp_bufferSize p), lk_opts = opts,
            lk_token = cp_token p, lk_epoch = epoch, lk_h0 = ringSetup opts (fst (o_parkers opts)) h0,
            lk_h1 = ringSetup opts (snd (o_parkers opts)) h1, lk_recv = newRemainder (nat (cp_bufferSize p)),
            lk_readDeadline = None, lk_writeDeadline = None, lk_closed = False, lk_hb = (HeartbeatInterval opts > 0),
            lk_peer = zeroMonitor, lk_rxActive = 0, lk_txActive = 0,
            lk_txBase = ProducerCursor (if mode = LinkModeSecondary then im_ring1 im else im_ring0 im)\<rparr> in
      if mode = LinkModeSecondary
      then l\<lparr>lk_peer := snd (checkPeer (ident l) (oe_peerNow env) (im_sb im) (lk_peer l))\<rparr> else l)"

definition openAttach :: "openEnv \<Rightarrow> LinkMode \<Rightarrow> claimParams \<Rightarrow> u64 \<Rightarrow> segImage
     \<Rightarrow> (StandardLink openRes \<times> segImage) option" where
  "openAttach env mode p epoch im =
     (let gone = openDetach mode (cp_token p) im; timeout = AttachTimeout (cp_opts p) in
      case attachRing (fst (oe_attachNow env)) timeout (oe_attach0 env) (im_ring0 im) of
        None \<Rightarrow> None
      | Some (Inl er) \<Rightarrow> Some (OpenErr er, gone)
      | Some (Inr r0) \<Rightarrow>
        (case attachRing (snd (oe_attachNow env)) timeout (oe_attach1 env) (im_ring1 im) of
           None \<Rightarrow> None
         | Some (Inl er) \<Rightarrow> Some (OpenErr er, gone)
         | Some (Inr r1) \<Rightarrow>
           (case (r0, r1) of
              (Some h0, Some h1) \<Rightarrow>
                if Size h0 \<noteq> of_int (cp_bufferCount p) \<or> Size h1 \<noteq> of_int (cp_bufferCount p)
                then Some (OpenErr ErrIncompatibleLayout, gone)
                else Some (OpenOk (newLink env mode p epoch h0 h1 im), im)
            | _ \<Rightarrow> Some (OpenErr ErrIncompatibleLayout, gone))))"

definition openStandardLink :: "u64 \<Rightarrow> openEnv \<Rightarrow> int \<Rightarrow> int \<Rightarrow> LinkOptions \<Rightarrow> u64 \<Rightarrow> u64 \<Rightarrow> segImage
     \<Rightarrow> (StandardLink openRes \<times> segImage) option" where
  "openStandardLink ps env bufferCount bufferSize opts token pid im =
     (case computeLayout ps bufferCount bufferSize of
        None \<Rightarrow> Some (OpenErr ErrInvalidSize, im)
      | Some layout \<Rightarrow>
        let p = \<lparr>cp_pageSize = ps, cp_bufferCount = bufferCount, cp_bufferSize = bufferSize, cp_layoutSize = total layout,
                 cp_token = token, cp_pid = pid, cp_opts = normalized opts\<rparr> in
        (case claimSuperblock p (oe_claimNow env) (oe_claim env) (im_sb im) of
           None \<Rightarrow> None
         | Some (ClaimErr er, sb) \<Rightarrow> Some (OpenErr er, im\<lparr>im_sb := sb\<rparr>)
         | Some (Claimed mode mustInit, sb) \<Rightarrow>
           (case (if mustInit then openInit env p (im\<lparr>im_sb := sb\<rparr>) else (OpenOk (sb_epoch sb), im\<lparr>im_sb := sb\<rparr>)) of
              (OpenErr er, im1) \<Rightarrow> Some (OpenErr er, im1)
            | (OpenPanic, im1) \<Rightarrow> Some (OpenPanic, im1)
            | (OpenOk epoch, im1) \<Rightarrow> openAttach env mode p epoch im1)))"

text \<open>\<^verbatim>\<open>NewStandardLink\<close> on \<open>len\<close> bytes of memory at the address \<open>base\<close>.\<close>

definition NewStandardLink :: "u64 \<Rightarrow> openEnv \<Rightarrow> u64 \<Rightarrow> nat \<Rightarrow> int \<Rightarrow> int \<Rightarrow> LinkOptions \<Rightarrow> u64 \<Rightarrow> u64 \<Rightarrow> segImage
     \<Rightarrow> (StandardLink openRes \<times> segImage) option" where
  "NewStandardLink ps env base len bufferCount bufferSize opts token pid im =
     (if len = 0 then Some (OpenErr ErrMemorySmall, im)
      else if base mod ps \<noteq> 0 then Some (OpenErr ErrMemoryAlign, im)
      else
        let size = SizeStandardLink ps bufferCount bufferSize in
        if size = 0 then Some (OpenErr ErrInvalidSize, im)
        else if len < unat size then Some (OpenErr ErrMemorySmall, im)
        else openStandardLink ps env bufferCount bufferSize opts token pid im)"

text \<open>\<^verbatim>\<open>AlignedBuffer\<close> for a backing store at the address \<open>a\<close>: where the result starts in it, and its length.\<close>

definition AlignedBuffer :: "u64 \<Rightarrow> u64 \<Rightarrow> u64 \<Rightarrow> u64 \<times> u64" where
  "AlignedBuffer ps a sz =
     (let off = a mod ps; start = (if off \<noteq> 0 then ps - off else 0) in (start, sz))"

section \<open>Undisturbed phases\<close>

lemma zeroInChunks_quiet:
  assumes "\<And>s. I s \<Longrightarrow> fst (check s) = None \<and> I (progress (snd (check s)))" "I s" "0 < chunk"
  shows "\<exists>s'. zeroInChunks chunk check progress s b = (None, s', replicate (length b) 0) \<and> I s'"
  using assms(2)
proof (induction "length b" arbitrary: b s rule: less_induct)
  case less
  show ?case
  proof (cases "b = []")
    case True
    then show ?thesis using less.prems by (simp add: zeroInChunks.simps)
  next
    case False
    let ?n = "min (length b) chunk"
    obtain s1 where c: "check s = (None, s1)" "I (progress s1)" using assms(1) [OF less.prems] by (metis prod.collapse snd_conv)
    have "length (drop ?n b) < length b" using False assms(3) by simp
    then obtain s' where r: "zeroInChunks chunk check progress (progress s1) (drop ?n b) = (None, s', replicate (length b - ?n) 0)" "I s'"
      using less.hyps [of "drop ?n b" "progress s1"] c(2) by auto
    have "replicate ?n (0::8 word) @ replicate (length b - ?n) 0 = replicate (length b) 0" by (simp flip: replicate_add)
    then show ?thesis using False assms(3) c r by (simp add: zeroInChunks.simps [of chunk check progress s b] Let_def)
  qed
qed

declare zeroInChunks.simps [simp del]

definition quietEnv :: "openEnv \<Rightarrow> bool" where
  "quietEnv env \<longleftrightarrow> (\<forall>ph k. oe_ctxErr env ph k = None) \<and> (\<forall>ph k s. oe_see env ph k s = s) \<and> (\<forall>ph s. oe_after env ph s = s)"

text \<open>The superblock while it is initialized by its owner: only the progress stamp moves.\<close>

definition initOf :: "standardSuperblock \<Rightarrow> standardSuperblock \<Rightarrow> bool" where
  "initOf sb s \<longleftrightarrow> (\<exists>n. s = sb\<lparr>sb_initHeartbeat := n\<rparr>)"

lemma initOf_refl [simp]: "initOf sb sb"
  by (auto simp: initOf_def intro!: exI [of _ "sb_initHeartbeat sb"])

lemma initOf_progress: "initOf sb s \<Longrightarrow> initOf sb (session_progress n tok s)"
  by (auto simp: initOf_def session_progress_def)

lemma initOf_check: "initOf sb s \<Longrightarrow> sb_initToken sb = tok \<Longrightarrow> session_check None tok s = None"
  by (auto simp: initOf_def session_check_def)

lemma formatPhase_quiet:
  assumes q: "quietEnv env" and v: "validRingSize (of_int (cp_bufferCount p))"
    and len: "length (slots m) = unat (of_int (cp_bufferCount p) :: u64)"
    and I: "initOf sb s" "sb_initToken sb = cp_token p"
  shows "\<exists>s' m'. formatPhase env ph p s m = (OpenOk (), s', m') \<and> initOf sb s'
    \<and> (\<exists>check :: nat \<Rightarrow> err option. FormatGuarded packetSlotSize check zeroPacket (of_int (cp_bufferCount p)) m = (FormatOk, m'))"
proof -
  have id: "fold (oe_see env ph) ks s = s" for ks using q by (induction ks) (simp_all add: quietEnv_def)
  let ?c = "\<lambda>k. session_check (oe_ctxErr env ph k) (cp_token p) (fold (oe_see env ph) [0..<Suc k] s)"
  have c: "?c k = None" for k unfolding id using q initOf_check [OF I] by (simp add: quietEnv_def)
  have "fst (FormatGuarded packetSlotSize ?c zeroPacket (of_int (cp_bufferCount p)) m) = FormatOk"
    unfolding FormatGuarded_ok_iff using v c by blast
  then obtain m' where ok: "FormatGuarded packetSlotSize ?c zeroPacket (of_int (cp_bufferCount p)) m = (FormatOk, m')"
    by (cases "FormatGuarded packetSlotSize ?c zeroPacket (of_int (cp_bufferCount p)) m") simp
  then have "formatPhase env ph p s m = (OpenOk (), session_progress (oe_nanos env ph) (cp_token p) s, m')"
    using q by (simp add: formatPhase_def Let_def quietEnv_def)
  then show ?thesis using ok initOf_progress [OF I(1)] by blast
qed

lemma zeroPhase_quiet:
  assumes q: "quietEnv env" and I: "initOf sb s" "sb_initToken sb = cp_token p"
  shows "\<exists>s'. zeroPhase env ph p s b = (OpenOk (), s', replicate (length b) 0) \<and> initOf sb s'"
proof -
  let ?check = "\<lambda>(k, s). let s' = oe_see env ph k s in (session_check (oe_ctxErr env ph k) (cp_token p) s', Suc k, s')"
  let ?prog = "\<lambda>(k :: nat, s). (k, session_progress (oe_nanos env ph) (cp_token p) s)"
  have "\<exists>s'. zeroInChunks zeroSlice ?check ?prog (0, s) b = (None, s', replicate (length b) 0) \<and> initOf sb (snd s')"
    using I q by (intro zeroInChunks_quiet) (auto simp: quietEnv_def initOf_check initOf_progress Let_def zeroSlice_def)
  then obtain k s' where z: "zeroInChunks zeroSlice ?check ?prog (0, s) b = (None, (k, s'), replicate (length b) 0)" "initOf sb s'"
    by auto
  then show ?thesis unfolding zeroPhase_def session_zero_def Let_def by (auto simp: Let_def)
qed

text \<open>A ring as \<^verbatim>\<open>Format\<close> leaves it.\<close>

definition formattedRing :: "u64 \<Rightarrow> Packet mring \<Rightarrow> bool" where
  "formattedRing n m \<longleftrightarrow>
     rg_magic m = mpmc_magic \<and> rg_flag m = mpmc_init \<and> rg_size m = n \<and> rg_stride m = stride packetSlotSize
     \<and> rg_version m = layoutVersion \<and> rg_r m = 0 \<and> rg_w m = 0 \<and> length (slots m) = unat n
     \<and> (\<forall>j < unat n. slots m ! j = \<lparr>seq = of_nat j, edata = zeroPacket\<rparr>)"

lemma formattedRing_Format:
  "FormatGuarded packetSlotSize check zeroPacket n m = (FormatOk, m') \<Longrightarrow> length (slots m) = unat n \<Longrightarrow> formattedRing n m'"
  using FormatGuarded_ok_state [of packetSlotSize check zeroPacket n m m'] by (simp add: formattedRing_def)

lemma openInit_quiet:
  assumes q: "quietEnv env" and v: "validRingSize (of_int (cp_bufferCount p))"
    and len: "length (slots (im_ring0 im)) = unat (of_int (cp_bufferCount p) :: u64)"
      "length (slots (im_ring1 im)) = unat (of_int (cp_bufferCount p) :: u64)"
    and tok: "sb_initToken (im_sb im) = cp_token p"
  shows "\<exists>im' s. openInit env p im = (OpenOk (sb_epoch (im_sb im) + 1), im') \<and> initOf (im_sb im) s
    \<and> im_sb im' = published p (oe_nanos env 4) s
    \<and> formattedRing (of_int (cp_bufferCount p)) (im_ring0 im') \<and> formattedRing (of_int (cp_bufferCount p)) (im_ring1 im')
    \<and> im_buf0 im' = replicate (length (im_buf0 im)) 0 \<and> im_buf1 im' = replicate (length (im_buf1 im)) 0"
proof -
  obtain s1 m0 where f0: "formatPhase env 0 p (im_sb im) (im_ring0 im) = (OpenOk (), s1, m0)" "initOf (im_sb im) s1"
    "formattedRing (of_int (cp_bufferCount p)) m0"
    using formatPhase_quiet [OF q v len(1) initOf_refl tok, of 0] formattedRing_Format [OF _ len(1)] by blast
  obtain s2 m1 where f1: "formatPhase env 1 p s1 (im_ring1 im) = (OpenOk (), s2, m1)" "initOf (im_sb im) s2"
    "formattedRing (of_int (cp_bufferCount p)) m1"
    using formatPhase_quiet [OF q v len(2) f0(2) tok, of 1] formattedRing_Format [OF _ len(2)] by blast
  obtain s3 where z0: "zeroPhase env 2 p s2 (im_buf0 im) = (OpenOk (), s3, replicate (length (im_buf0 im)) 0)" "initOf (im_sb im) s3"
    using zeroPhase_quiet [OF q f1(2) tok] by blast
  obtain s4 where z1: "zeroPhase env 3 p s3 (im_buf1 im) = (OpenOk (), s4, replicate (length (im_buf1 im)) 0)" "initOf (im_sb im) s4"
    using zeroPhase_quiet [OF q z0(2) tok] by blast
  have e: "oe_see env 4 = (\<lambda>k s. s)" "oe_after env 4 = (\<lambda>s. s)" "oe_ctxErr env 4 = (\<lambda>k. None)"
    using q by (auto simp: quietEnv_def intro!: ext)
  have s4: "sb_initToken s4 = cp_token p" "sb_epoch s4 = sb_epoch (im_sb im)" using z1(2) tok by (auto simp: initOf_def)
  have "openInit env p im = (OpenOk (sb_epoch (im_sb im) + 1), im\<lparr>im_sb := published p (oe_nanos env 4) s4, im_ring0 := m0,
      im_ring1 := m1, im_buf0 := replicate (length (im_buf0 im)) 0, im_buf1 := replicate (length (im_buf1 im)) 0\<rparr>)"
    using publish_quiet [OF s4(1), of "oe_nanos env 4"] s4(2) by (simp add: openInit_def f0 f1 [unfolded One_nat_def] z0 z1 e Let_def)
  then show ?thesis using f0(3) f1(3) z1(2) by auto
qed

definition quietAttach :: "attachTurn list \<Rightarrow> bool" where
  "quietAttach ts = (case ts of [] \<Rightarrow> False | t # _ \<Rightarrow>
     at_ctxErr t = None \<and> (case at_polls t of [] \<Rightarrow> False | (f, _) # _ \<Rightarrow> (\<forall>m. f m = m)))"

definition freshHandle :: "u64 \<Rightarrow> mhandle" where
  "freshHandle n = \<lparr>h_mask = n - 1, h_size = n, h_stride = stride packetSlotSize, h_policy = WaitAdaptive, h_parker = False\<rparr>"

lemma attachRing_formatted:
  assumes "quietAttach ts" "formattedRing n m" "validRingSize n"
  shows "attachRing now timeout ts m = Some (Inr (Some (freshHandle n)))"
  using assms by (auto simp: quietAttach_def attachRing_def formattedRing_def freshHandle_def mpmc_init_def Let_def
      split: list.splits prod.splits)

lemma joinRing_fresh:
  assumes h: "handle_ok h" "h_size h = n" and m: "formattedRing n m"
    and bufs: "length bufs = unat n" "\<forall>b \<in> set bufs. length b = sz" "sz < 2 ^ 62"
  shows "chan_inv h sz (joinRing m bufs) \<and> ring_abs h (joinRing m bufs) = []"
proof -
  have len: "length (slots m) = unat n" using m by (simp add: formattedRing_def)
  have nth: "slots (joinRing m bufs) ! j = \<lparr>seq = of_nat j, edata = (zeroPacket, bufs ! j)\<rparr>" if "j < unat n" for j
    using that m bufs(1) by (simp add: joinRing_def formattedRing_def)
  have rl: "ring_len (joinRing m bufs) = 0" using m by (simp add: ring_len_def joinRing_def formattedRing_def)
  have rr: "rg_r (joinRing m bufs) = 0" using m by (simp add: joinRing_def formattedRing_def)
  have sq: "slot_seq h (of_nat j) (joinRing m bufs) = of_nat j" if "j < unat n" for j
    using slot_index_add [OF h(1), of 0 j] that nth [of j] h(2) by (simp add: slot_seq_def)
  have l2: "length (slots (joinRing m bufs)) = unat n" using len bufs(1) by (simp add: joinRing_def)
  have "slots_wf sz (joinRing m bufs)"
    unfolding slots_wf_def all_set_conv_all_nth l2 using nth bufs by (auto simp: all_set_conv_all_nth)
  then show ?thesis using h sq rl rr l2 bufs(3) by (simp add: chan_inv_def ring_inv_def ring_abs_def)
qed

section \<open>A pair of endpoints\<close>

lemma validConfig_ring:
  assumes "validConfig bc bs"
  shows "validRingSize (of_int bc :: u64)" "unat (of_int bc :: u64) = nat bc" "0 < bc" "0 < bs" "nat bs < 2 ^ 62"
proof -
  have "unat (SizeMPMCRing packetSlotSize (of_int bc)) \<noteq> 0" using ring_size [OF assms] by simp
  then show "validRingSize (of_int bc :: u64)" by (auto simp: SizeMPMCRing_def split: if_splits)
  have b: "0 < bc" "bc < 2 ^ 63" "0 < bs" "bs \<le> 2 ^ 30"
    using assms by (auto simp: validConfig_def hqq_consts)
  then show "unat (of_int bc :: u64) = nat bc" "0 < bc" "0 < bs" "nat bs < 2 ^ 62" by (auto simp: unat_of_int_self)
qed

text \<open>Memory of the right size whose first page is zero; the rest may hold anything.\<close>

definition freshImage :: "int \<Rightarrow> int \<Rightarrow> segImage \<Rightarrow> bool" where
  "freshImage bc bs im \<longleftrightarrow> firstPageZero (im_sb im) \<and> length (slots (im_ring0 im)) = nat bc \<and> length (slots (im_ring1 im)) = nat bc
     \<and> length (im_buf0 im) = nat bc * nat bs \<and> length (im_buf1 im) = nat bc * nat bs"

definition quietOpen :: "openEnv \<Rightarrow> claimTurn \<Rightarrow> bool" where
  "quietOpen env t \<longleftrightarrow> quietEnv env \<and> oe_claim env = [t] \<and> quietTurn t \<and> quietAttach (oe_attach0 env) \<and> quietAttach (oe_attach1 env)"

text \<open>Segments whose rings and buffers are as an initialization leaves them.\<close>

definition emptyImage :: "int \<Rightarrow> int \<Rightarrow> segImage \<Rightarrow> bool" where
  "emptyImage bc bs im \<longleftrightarrow> formattedRing (of_int bc) (im_ring0 im) \<and> formattedRing (of_int bc) (im_ring1 im)
     \<and> length (im_buf0 im) = nat bc * nat bs \<and> length (im_buf1 im) = nat bc * nat bs"

lemma openAttach_empty:
  assumes "quietAttach (oe_attach0 env)" "quietAttach (oe_attach1 env)" "validConfig (cp_bufferCount p) (cp_bufferSize p)"
    and "emptyImage (cp_bufferCount p) (cp_bufferSize p) im"
  shows "openAttach env mode p epoch im =
    Some (OpenOk (newLink env mode p epoch (freshHandle (of_int (cp_bufferCount p))) (freshHandle (of_int (cp_bufferCount p))) im), im)"
proof -
  note v = validConfig_ring(1) [OF assms(3)]
  have f: "formattedRing (of_int (cp_bufferCount p)) (im_ring0 im)" "formattedRing (of_int (cp_bufferCount p)) (im_ring1 im)"
    using assms(4) by (simp_all add: emptyImage_def)
  show ?thesis
    unfolding openAttach_def Let_def attachRing_formatted [OF assms(1) f(1) v] attachRing_formatted [OF assms(2) f(2) v]
    by (simp add: Size_def freshHandle_def)
qed

lemma splitBuffers_length: "length region = cnt * sz \<Longrightarrow> b \<in> set (splitBuffers region cnt sz) \<Longrightarrow> length b = sz"
  by (metis in_set_conv_nth length_map length_upt minus_nat.diff_0 splitBuffers_def splitBuffers_nth)

lemma emptyImage_rings:
  assumes "validConfig bc bs" "emptyImage bc bs im" "handle_ok h" "h_size h = of_int bc"
  shows "chan_inv h (nat bs) (sg_ring0 (imageSegment (nat bc) (nat bs) im))"
    "chan_inv h (nat bs) (sg_ring1 (imageSegment (nat bc) (nat bs) im))"
    "ring_abs h (sg_ring0 (imageSegment (nat bc) (nat bs) im)) = []"
    "ring_abs h (sg_ring1 (imageSegment (nat bc) (nat bs) im)) = []"
proof -
  note v = validConfig_ring [OF assms(1)]
  have e: "formattedRing (of_int bc) (im_ring0 im)" "formattedRing (of_int bc) (im_ring1 im)"
    "length (im_buf0 im) = nat bc * nat bs" "length (im_buf1 im) = nat bc * nat bs"
    using assms(2) by (simp_all add: emptyImage_def)
  have "length (splitBuffers x (nat bc) (nat bs)) = unat (of_int bc :: u64)" for x :: bytes by (simp add: splitBuffers_def v)
  then have "chan_inv h (nat bs) (joinRing (im_ring0 im) (splitBuffers (im_buf0 im) (nat bc) (nat bs)))
      \<and> ring_abs h (joinRing (im_ring0 im) (splitBuffers (im_buf0 im) (nat bc) (nat bs))) = []"
    "chan_inv h (nat bs) (joinRing (im_ring1 im) (splitBuffers (im_buf1 im) (nat bc) (nat bs)))
      \<and> ring_abs h (joinRing (im_ring1 im) (splitBuffers (im_buf1 im) (nat bc) (nat bs))) = []"
    using splitBuffers_length e by (intro joinRing_fresh [OF assms(3,4)]; blast intro: v)+
  then show "chan_inv h (nat bs) (sg_ring0 (imageSegment (nat bc) (nat bs) im))"
    "chan_inv h (nat bs) (sg_ring1 (imageSegment (nat bc) (nat bs) im))"
    "ring_abs h (sg_ring0 (imageSegment (nat bc) (nat bs) im)) = []"
    "ring_abs h (sg_ring1 (imageSegment (nat bc) (nat bs) im)) = []"
    by (simp_all add: imageSegment_def)
qed

lemma checkPeer_attached:
  assumes "sb_epoch sb = li_epoch l" "ep_token (endpoints sb (li_self l)) = li_token l"
    and "ep_token (endpoints sb (other (li_self l))) \<noteq> detachedToken"
  shows "PeerState_err (pm_status (snd (checkPeer l now sb zeroMonitor))) = None"
  using assms by (simp add: checkPeer_def zeroMonitor_def PeerState_err_def Let_def)

text \<open>Two links of one session whose segment is empty: each can send to the other.\<close>

lemma newLink_session:
  assumes cfg: "validConfig bc bs" and im: "emptyImage bc bs im2"
    and p: "cp_bufferCount p1 = bc" "cp_bufferSize p1 = bs" "cp_bufferCount p2 = bc" "cp_bufferSize p2 = bs"
    and hb: "HeartbeatInterval (cp_opts p1) > 0" "HeartbeatInterval (cp_opts p2) > 0"
    and sb: "sb_epoch (im_sb im2) = epoch" "ep_token (sb_primary (im_sb im2)) = cp_token p1"
      "ep_token (sb_secondary (im_sb im2)) = cp_token p2" "isOwnerToken (cp_token p1)"
    and l: "l = newLink e1 LinkModePrimary p1 epoch (freshHandle (of_int bc)) (freshHandle (of_int bc)) im1"
    and r: "r = newLink e2 LinkModeSecondary p2 epoch (freshHandle (of_int bc)) (freshHandle (of_int bc)) im2"
  shows "session l r (imageSegment (nat bc) (nat bs) im2)" "session r l (imageSegment (nat bc) (nat bs) im2)"
    "rxStream r (imageSegment (nat bc) (nat bs) im2) = []" "rxStream l (imageSegment (nat bc) (nat bs) im2) = []"
    "lk_bufferSize l = nat bs" "lk_bufferSize r = nat bs"
    "ring_len (txRing l (imageSegment (nat bc) (nat bs) im2)) = 0" "ring_len (txRing r (imageSegment (nat bc) (nat bs) im2)) = 0"
    "unat (h_size (txHandle l)) = nat bc" "unat (h_size (txHandle r)) = nat bc"
proof -
  have ok: "handle_ok (ringSetup o1 b (freshHandle (of_int bc)))" "h_size (ringSetup o1 b (freshHandle (of_int bc))) = of_int bc"
    "h_mask (ringSetup o1 b (freshHandle (of_int bc))) = of_int bc - 1" for o1 b
    using validConfig_ring(1) [OF cfg] by (simp_all add: ringSetup_def SetWaitPolicy_def SetParker_def freshHandle_def handle_ok_def Let_def)
  note rings = emptyImage_rings [OF cfg im ok(1) ok(2)]
  have len: "ring_len (sg_ring0 (imageSegment (nat bc) (nat bs) im2)) = 0" "ring_len (sg_ring1 (imageSegment (nat bc) (nat bs) im2)) = 0"
    using arg_cong [OF rings(3), of length] arg_cong [OF rings(4), of length] by simp_all
  have peer: "PeerState_err (pm_status (lk_peer r)) = None"
    unfolding r newLink_def Let_def using sb by (simp add: ident_def isOwnerToken_def checkPeer_attached endpoints_def other_def detachedToken_def)
  show "session l r (imageSegment (nat bc) (nat bs) im2)" "session r l (imageSegment (nat bc) (nat bs) im2)"
    "rxStream r (imageSegment (nat bc) (nat bs) im2) = []" "rxStream l (imageSegment (nat bc) (nat bs) im2) = []"
    "lk_bufferSize l = nat bs" "lk_bufferSize r = nat bs"
    "ring_len (txRing l (imageSegment (nat bc) (nat bs) im2)) = 0" "ring_len (txRing r (imageSegment (nat bc) (nat bs) im2)) = 0"
    "unat (h_size (txHandle l)) = nat bc" "unat (h_size (txHandle r)) = nat bc"
    using peer rings len rr_inv_new hb p validConfig_ring [OF cfg]
    by (simp_all add: session_def rx_inv_def rxStream_def chanAbs_def l r newLink_def Let_def rxHandle_def txHandle_def
        rxRing_def txRing_def other_def ok zeroMonitor_def PeerState_err_def)
qed

lemma open_primary:
  assumes ps: "0 < ps" "ps \<le> 2 ^ 30" and cfg: "validConfig bc bs" and mem: "freshImage bc bs im" and q: "quietOpen env t"
    and role: "o_role opts \<noteq> roleOpener"
    and p: "p = \<lparr>cp_pageSize = ps, cp_bufferCount = bc, cp_bufferSize = bs, cp_layoutSize = SizeStandardLink ps bc bs,
                 cp_token = token, cp_pid = pid, cp_opts = normalized opts\<rparr>"
  shows "\<exists>im' s. openStandardLink ps env bc bs opts token pid im = Some (OpenOk (newLink env LinkModePrimary p (sb_epoch (im_sb im) + 1)
        (freshHandle (of_int bc)) (freshHandle (of_int bc)) im'), im')
    \<and> emptyImage bc bs im' \<and> im_sb im' = published p (oe_nanos env 4) s \<and> sb_epoch s = sb_epoch (im_sb im)"
proof -
  obtain layout where lay: "computeLayout ps bc bs = Some layout" using computeLayout_Some [OF ps cfg] .
  then have pp: "\<lparr>cp_pageSize = ps, cp_bufferCount = bc, cp_bufferSize = bs, cp_layoutSize = total layout, cp_token = token,
      cp_pid = pid, cp_opts = normalized opts\<rparr> = p" by (simp add: p SizeStandardLink_def)
  have r: "o_role (cp_opts p) \<noteq> roleOpener" using role by (simp add: p normalized_def Let_def)
  have pc: "cp_bufferCount p = bc" "cp_bufferSize p = bs" "cp_token p = token" by (simp_all add: p)
  note q' = q [unfolded quietOpen_def]
  define sb where "sb = (stampLayout (im_sb im))\<lparr>sb_state := superblockStateInitializing, sb_initToken := cp_token p,
       sb_creatorToken := o_creatorToken (cp_opts p), sb_initHeartbeat := of_int (ct_wall t)\<rparr>"
  have c: "claimSuperblock p (oe_claimNow env) (oe_claim env) (im_sb im) = Some (Claimed LinkModePrimary True, sb)"
    using q' mem r by (simp add: claim_empty freshImage_def sb_def)
  have e: "sb_epoch sb = sb_epoch (im_sb im)" by (simp add: sb_def stampLayout_def)
  have "\<exists>im' s. openInit env p (im\<lparr>im_sb := sb\<rparr>) = (OpenOk (sb_epoch (im_sb (im\<lparr>im_sb := sb\<rparr>)) + 1), im') \<and> initOf (im_sb (im\<lparr>im_sb := sb\<rparr>)) s
    \<and> im_sb im' = published p (oe_nanos env 4) s
    \<and> formattedRing (of_int (cp_bufferCount p)) (im_ring0 im') \<and> formattedRing (of_int (cp_bufferCount p)) (im_ring1 im')
    \<and> im_buf0 im' = replicate (length (im_buf0 (im\<lparr>im_sb := sb\<rparr>))) 0 \<and> im_buf1 im' = replicate (length (im_buf1 (im\<lparr>im_sb := sb\<rparr>))) 0"
    using q' mem validConfig_ring [OF cfg] by (intro openInit_quiet) (simp_all add: pc freshImage_def sb_def)
  then obtain im' s where i0: "openInit env p (im\<lparr>im_sb := sb\<rparr>) = (OpenOk (sb_epoch (im_sb im) + 1), im')" "initOf sb s"
    "im_sb im' = published p (oe_nanos env 4) s" "emptyImage bc bs im'"
    using mem by (auto simp: emptyImage_def pc freshImage_def e)
  have "sb_epoch s = sb_epoch (im_sb im)" using i0(2) e by (auto simp: initOf_def)
  note i = i0(1) this i0(3,4)
  have "openAttach env LinkModePrimary p (sb_epoch (im_sb im) + 1) im' = Some (OpenOk (newLink env LinkModePrimary p (sb_epoch (im_sb im) + 1)
        (freshHandle (of_int bc)) (freshHandle (of_int bc)) im'), im')"
    using openAttach_empty [of env p im'] q' cfg i(4) by (simp add: pc)
  then have "openStandardLink ps env bc bs opts token pid im = Some (OpenOk (newLink env LinkModePrimary p (sb_epoch (im_sb im) + 1)
        (freshHandle (of_int bc)) (freshHandle (of_int bc)) im'), im')"
    unfolding openStandardLink_def lay by (simp add: Let_def pp c i(1))
  then show ?thesis using i by blast
qed

lemma open_secondary:
  assumes ps: "0 < ps" "ps \<le> 2 ^ 30" and cfg: "validConfig bc bs" and mem: "emptyImage bc bs im" and q: "quietOpen env t"
    and role: "o_role opts \<noteq> roleCreator"
    and sb: "im_sb im = published p1 (of_int w) s" and tok: "isOwnerToken (cp_token p1)"
    and p1: "wantGeometry p1 = wantGeometry p" "validConfig (cp_bufferCount p1) (cp_bufferSize p1)"
    and clock: "0 \<le> w" "w < 2 ^ 63" "- second < ct_wall t - w" "ct_wall t - w < PeerTimeout (normalized opts)"
    and p: "p = \<lparr>cp_pageSize = ps, cp_bufferCount = bc, cp_bufferSize = bs, cp_layoutSize = SizeStandardLink ps bc bs,
                 cp_token = token, cp_pid = pid, cp_opts = normalized opts\<rparr>"
  shows "\<exists>im'. openStandardLink ps env bc bs opts token pid im = Some (OpenOk (newLink env LinkModeSecondary p (sb_epoch (im_sb im))
        (freshHandle (of_int bc)) (freshHandle (of_int bc)) im'), im')
    \<and> emptyImage bc bs im' \<and> sb_epoch (im_sb im') = sb_epoch (im_sb im) \<and> sb_primary (im_sb im') = sb_primary (im_sb im)
    \<and> ep_token (sb_secondary (im_sb im')) = token"
proof -
  obtain layout where lay: "computeLayout ps bc bs = Some layout" using computeLayout_Some [OF ps cfg] .
  then have pp: "\<lparr>cp_pageSize = ps, cp_bufferCount = bc, cp_bufferSize = bs, cp_layoutSize = total layout, cp_token = token,
      cp_pid = pid, cp_opts = normalized opts\<rparr> = p" by (simp add: p SizeStandardLink_def)
  have r: "o_role (cp_opts p) \<noteq> roleCreator" using role by (simp add: p normalized_def Let_def)
  have pc: "cp_bufferCount p = bc" "cp_bufferSize p = bs" "cp_token p = token" "cp_opts p = normalized opts" by (simp_all add: p)
  note q' = q [unfolded quietOpen_def]
  let ?sb = "im_sb im"
  have g: "geometryOf ?sb = wantGeometry p"
    unfolding sb p1(1) [symmetric] using p1(2) by (intro geometry_published) (simp_all add: validConfig_def hqq_consts)
  have sec: "ep_token (sb_secondary ?sb) = 0" by (simp add: sb published_def clearEndpoint_def)
  have a: "endpointAliveAtOpen (cp_opts p) (ct_wall t) (ct_now t) (ct_prim t) (sb_primary ?sb) = Some (Inr True)"
    using tok clock by (simp add: sb published_def pc alive_fresh)
  have s2: "endpointAliveAtOpen (cp_opts p) (ct_wall t) (ct_now t) (ct_sec t) (sb_secondary ?sb) = Some (Inr False)"
    by (simp add: endpointAliveAtOpen_def sec isOwnerToken_def)
  define sb3 where "sb3 = ?sb\<lparr>sb_secondary := fillEndpoint (cp_pid p) (of_int (ct_wall t)) (cp_opts p)
                    ((sb_secondary ?sb)\<lparr>ep_token := cp_token p\<rparr>)\<rparr>"
  have c: "claimSuperblock p (oe_claimNow env) (oe_claim env) ?sb = Some (Claimed LinkModeSecondary False, sb3)"
    using claim_ready_iter [OF _ _ _ a s2, of "oe_claimNow env"] q' r g sec
    by (simp add: sb3_def sb compat_published) (simp add: published_def)
  have em: "emptyImage bc bs (im\<lparr>im_sb := sb3\<rparr>)" using mem by (simp add: emptyImage_def)
  have "openAttach env LinkModeSecondary p (sb_epoch sb3) (im\<lparr>im_sb := sb3\<rparr>) = Some (OpenOk (newLink env LinkModeSecondary p (sb_epoch sb3)
        (freshHandle (of_int bc)) (freshHandle (of_int bc)) (im\<lparr>im_sb := sb3\<rparr>)), im\<lparr>im_sb := sb3\<rparr>)"
    using openAttach_empty [of env p "im\<lparr>im_sb := sb3\<rparr>"] q' cfg em by (simp add: pc)
  then have "openStandardLink ps env bc bs opts token pid im = Some (OpenOk (newLink env LinkModeSecondary p (sb_epoch sb3)
        (freshHandle (of_int bc)) (freshHandle (of_int bc)) (im\<lparr>im_sb := sb3\<rparr>)), im\<lparr>im_sb := sb3\<rparr>)"
    unfolding openStandardLink_def lay by (simp add: Let_def pp c)
  then show ?thesis using em by (intro exI [of _ "im\<lparr>im_sb := sb3\<rparr>"]) (simp add: sb3_def fillEndpoint_def pc)
qed

text \<open>
  C7: From opening to talking. On memory of the right size whose first page is zero (the rest may
  hold anything), an undisturbed open returns the Primary and a second one with the same
  configuration returns the Secondary. Then every sequence of sends and receives from either
  endpoint to the other with no more sends than the ring has slots returns exactly when the same
  calls on a queue that starts empty do, with the same results; and so does every longer sequence
  that returns.
\<close>

theorem open_then_queue:
  assumes ps: "0 < ps" "ps \<le> 2 ^ 30" and cfg: "validConfig bc bs" and mem: "freshImage bc bs im"
    and q: "quietOpen e1 t1" "quietOpen e2 t2"
    and role: "o_role o1 \<noteq> roleOpener" "o_role o2 \<noteq> roleCreator" and hb: "0 \<le> HeartbeatInterval o1" "0 \<le> HeartbeatInterval o2"
    and tok: "isOwnerToken tok1"
    and clock: "oe_nanos e1 4 = of_int w" "0 \<le> w" "w < 2 ^ 63" "- second < ct_wall t2 - w"
      "ct_wall t2 - w < PeerTimeout (normalized o2)"
  shows "\<exists>l im1 r im2.
    openStandardLink ps e1 bc bs o1 tok1 pid1 im = Some (OpenOk l, im1) \<and> lk_mode l = LinkModePrimary
    \<and> openStandardLink ps e2 bc bs o2 tok2 pid2 im1 = Some (OpenOk r, im2) \<and> lk_mode r = LinkModeSecondary
    \<and> (\<forall>grow now ops. list_all (lop_ok (nat bs)) ops \<and> sum_list (map lop_sends ops) \<le> nat bc \<longrightarrow>
         map_option fst (linkRun grow now ops (l, r, imageSegment (nat bc) (nat bs) im2))
           = map_option fst (specRun (nat bs) ''hqq-primary'' ops [])
         \<and> map_option fst (linkRun grow now ops (r, l, imageSegment (nat bc) (nat bs) im2))
           = map_option fst (specRun (nat bs) ''hqq-secondary'' ops []))
    \<and> (\<forall>grow now ops outs l' r' sg'. list_all (lop_ok (nat bs)) ops \<longrightarrow>
         (linkRun grow now ops (l, r, imageSegment (nat bc) (nat bs) im2) = Some (outs, l', r', sg')
            \<longrightarrow> map_option fst (specRun (nat bs) ''hqq-primary'' ops []) = Some outs)
         \<and> (linkRun grow now ops (r, l, imageSegment (nat bc) (nat bs) im2) = Some (outs, l', r', sg')
            \<longrightarrow> map_option fst (specRun (nat bs) ''hqq-secondary'' ops []) = Some outs))"
proof -
  let ?p = "\<lambda>tok pid opts. \<lparr>cp_pageSize = ps, cp_bufferCount = bc, cp_bufferSize = bs, cp_layoutSize = SizeStandardLink ps bc bs,
                 cp_token = tok, cp_pid = pid, cp_opts = normalized opts\<rparr>"
  let ?h = "freshHandle (of_int bc)"
  obtain im1 s where o1: "openStandardLink ps e1 bc bs o1 tok1 pid1 im = Some (OpenOk (newLink e1 LinkModePrimary (?p tok1 pid1 o1)
        (sb_epoch (im_sb im) + 1) ?h ?h im1), im1)" "emptyImage bc bs im1"
      "im_sb im1 = published (?p tok1 pid1 o1) (of_int w) s" "sb_epoch s = sb_epoch (im_sb im)"
    using open_primary [OF ps cfg mem q(1) role(1) refl, of tok1 pid1] clock(1) by auto
  have ep: "sb_epoch (im_sb im1) = sb_epoch (im_sb im) + 1" using o1(3,4) by (simp add: published_def)
  have pt: "ep_token (sb_primary (im_sb im1)) = tok1" using o1(3) by (simp add: published_def fillEndpoint_def)
  obtain im2 where o2: "openStandardLink ps e2 bc bs o2 tok2 pid2 im1 = Some (OpenOk (newLink e2 LinkModeSecondary (?p tok2 pid2 o2)
        (sb_epoch (im_sb im1)) ?h ?h im2), im2)" "emptyImage bc bs im2" "sb_epoch (im_sb im2) = sb_epoch (im_sb im1)"
      "sb_primary (im_sb im2) = sb_primary (im_sb im1)" "ep_token (sb_secondary (im_sb im2)) = tok2"
    using open_secondary [OF ps cfg o1(2) q(2) role(2) o1(3) _ _ _ clock(2-5) refl, of tok2 pid2] tok cfg
    by (auto simp: wantGeometry_def)
  have hb': "HeartbeatInterval (normalized o1) > 0" "HeartbeatInterval (normalized o2) > 0"
    using hb by (auto simp: normalized_def Let_def hqq_consts)
  define l where "l = newLink e1 LinkModePrimary (?p tok1 pid1 o1) (sb_epoch (im_sb im1)) ?h ?h im1"
  define r where "r = newLink e2 LinkModeSecondary (?p tok2 pid2 o2) (sb_epoch (im_sb im1)) ?h ?h im2"
  note s = newLink_session [OF cfg o2(2) _ _ _ _ _ _ o2(3) _ _ _ l_def r_def, simplified, OF hb' _ o2(5) tok] 
  have m: "lk_mode l = LinkModePrimary" "lk_mode r = LinkModeSecondary" by (simp_all add: l_def r_def newLink_def Let_def)
  show ?thesis
    using o1(1) o2(1) linkRun_refines [OF s(1)] linkRun_refines [OF s(2)] linkRun_returns [OF s(1)] linkRun_returns [OF s(2)]
      s(3-10) o2(4) pt m ep
    by (intro exI [of _ l] exI [of _ im1] exI [of _ r] exI [of _ im2]) (auto simp: l_def r_def peerAddr_def)
qed

definition wit_attach :: "attachTurn list" where
  "wit_attach = [\<lparr>at_ctxErr = None, at_start = 0, at_polls = [(\<lambda>m. m, 0)], at_since = 0, at_now = 0\<rparr>]"

definition wit_env :: "int \<Rightarrow> openEnv" where
  "wit_env w = \<lparr>oe_claimNow = 0, oe_claim = [wit_turn w], oe_ctxErr = (\<lambda>ph k. None), oe_see = (\<lambda>ph k s. s), oe_after = (\<lambda>ph s. s),
     oe_nanos = (\<lambda>ph. of_int w), oe_attachNow = (0, 0), oe_attach0 = wit_attach, oe_attach1 = wit_attach, oe_peerNow = 0\<rparr>"

definition wit_image :: segImage where
  "wit_image = (let m = \<lparr>rg_magic = 9, rg_size = 8, rg_flag = 7, rg_stride = 6, rg_version = 5, rg_r = 4, rg_w = 3, notEmpty = 2,
       emptyWaiters = 1, notFull = 1, fullWaiters = 1, slots = replicate 4 \<lparr>seq = 99, edata = []\<rparr>\<rparr> in
     \<lparr>im_sb = wit_zero, im_ring0 = m, im_ring1 = m, im_buf0 = replicate 256 5, im_buf1 = replicate 256 6\<rparr>)"

theorem open_then_queue_witness:
  "\<exists>l im1 r im2. openStandardLink 4096 (wit_env 1000) 4 64 (wit_opts roleCreator) 5 1 wit_image = Some (OpenOk l, im1)
     \<and> openStandardLink 4096 (wit_env 2000) 4 64 (wit_opts roleOpener) 6 2 im1 = Some (OpenOk r, im2)
     \<and> lk_mode l = LinkModePrimary \<and> lk_mode r = LinkModeSecondary
     \<and> map_option fst (linkRun (\<lambda>n. n) 0 [LWrite [7, 8, 9], LRead 2, LRead 5] (r, l, imageSegment 4 64 im2))
         = Some [OSent 3 None, OGot [7, 8] None, OGot [9] None]"
proof -
  have q: "quietOpen (wit_env w) (wit_turn w)" for w
    by (simp add: quietOpen_def quietEnv_def quietAttach_def wit_env_def wit_attach_def wit_turn_def quietTurn_def)
  have c: "validConfig 4 64" by code_simp
  have im: "freshImage 4 64 wit_image" using wit_zero_empty by (simp add: freshImage_def wit_image_def Let_def)
  let ?ops = "[LWrite [7, 8, 9], LRead 2, LRead 5]"
  have ok: "list_all (lop_ok (nat 64)) ?ops \<and> sum_list (map lop_sends ?ops) \<le> nat 4" by simp
  have sp: "map_option fst (specRun (nat 64) ''hqq-secondary'' ?ops []) = Some [OSent 3 None, OGot [7, 8] None, OGot [9] None]"
    by simp
  obtain l im1 r im2 where o: "openStandardLink 4096 (wit_env 1000) 4 64 (wit_opts roleCreator) 5 1 wit_image = Some (OpenOk l, im1)"
      "lk_mode l = LinkModePrimary"
      "openStandardLink 4096 (wit_env 2000) 4 64 (wit_opts roleOpener) 6 2 im1 = Some (OpenOk r, im2)" "lk_mode r = LinkModeSecondary"
    and run: "\<forall>grow now ops. list_all (lop_ok (nat 64)) ops \<and> sum_list (map lop_sends ops) \<le> nat 4 \<longrightarrow>
         map_option fst (linkRun grow now ops (l, r, imageSegment (nat 4) (nat 64) im2))
           = map_option fst (specRun (nat 64) ''hqq-primary'' ops [])
         \<and> map_option fst (linkRun grow now ops (r, l, imageSegment (nat 4) (nat 64) im2))
           = map_option fst (specRun (nat 64) ''hqq-secondary'' ops [])"
    using open_then_queue [OF _ _ c im q [of 1000] q [of 2000], of 4096 "wit_opts roleCreator" "wit_opts roleOpener" 5 1000 1 6 2]
    by (auto simp: wit_opts_def isOwnerToken_def wit_env_def wit_turn_def normalized_def hqq_consts Let_def)
  have "map_option fst (linkRun (\<lambda>n. n) 0 ?ops (r, l, imageSegment 4 64 im2)) = Some [OSent 3 None, OGot [7, 8] None, OGot [9] None]"
    using conjunct2 [OF run [rule_format, OF ok, of "\<lambda>n. n" 0]] unfolding sp by simp
  then show ?thesis using o by blast
qed

end
