(* ===== verification/Link_Close.thy ===== *)
theory Link_Close
  imports Standard_Link
begin

text \<open>
  \<^verbatim>\<open>Close\<close> against concurrent calls of the same endpoint (\<^verbatim>\<open>enterRx\<close>, \<^verbatim>\<open>enterTx\<close>, \<^verbatim>\<open>exitRx\<close>, \<^verbatim>\<open>exitTx\<close> and
  \<^verbatim>\<open>Close\<close> of \<^verbatim>\<open>src/standard.go\<close>), as a step relation: every atomic access of a call or of the closer
  is a step. A call counts itself before it looks at the flag; the closer sets the flag before it
  looks at the counters, first the receiving one, then the sending one.
\<close>

datatype callDir = RxCall | TxCall

datatype callPc = CallIdle | CallCounted callDir | CallRunning callDir | CallRefused callDir

datatype closePc = CloseIdle | CloseRx | CloseTx | CloseDetach | CloseDone

record closeState =
  cs_closed :: bool
  cs_active :: "callDir \<Rightarrow> int"
  cs_pc :: "nat \<Rightarrow> callPc"
  cs_close :: closePc

definition callTo :: "nat \<Rightarrow> callPc \<Rightarrow> callDir \<Rightarrow> int \<Rightarrow> closeState \<Rightarrow> closeState" where
  "callTo t c d n s = s\<lparr>cs_pc := (cs_pc s)(t := c), cs_active := (cs_active s)(d := cs_active s d + n)\<rparr>"

text \<open>
  A sending call may also be refused because the peer is lost. \<open>use\<close>: an access of a running call
  to the segment. The closer's loop reads the counters in turn and starts over when it sees a call.
\<close>

inductive closeStep :: "closeState \<Rightarrow> closeState \<Rightarrow> bool" where
  count: "cs_pc s t = CallIdle \<Longrightarrow> closeStep s (callTo t (CallCounted d) d 1 s)"
| admit: "cs_pc s t = CallCounted d \<Longrightarrow> \<not> cs_closed s \<Longrightarrow> closeStep s (callTo t (CallRunning d) d 0 s)"
| refuse: "cs_pc s t = CallCounted d \<Longrightarrow> cs_closed s \<or> d = TxCall \<Longrightarrow> closeStep s (callTo t (CallRefused d) d 0 s)"
| back_out: "cs_pc s t = CallRefused d \<Longrightarrow> closeStep s (callTo t CallIdle d (- 1) s)"
| use: "cs_pc s t = CallRunning d \<Longrightarrow> closeStep s s"
| leave: "cs_pc s t = CallRunning d \<Longrightarrow> closeStep s (callTo t CallIdle d (- 1) s)"
| flag: "cs_close s = CloseIdle \<Longrightarrow> closeStep s (s\<lparr>cs_closed := True, cs_close := CloseRx\<rparr>)"
| look_rx: "cs_close s = CloseRx \<Longrightarrow> closeStep s (s\<lparr>cs_close := if cs_active s RxCall \<noteq> 0 then CloseRx else CloseTx\<rparr>)"
| look_tx: "cs_close s = CloseTx \<Longrightarrow> closeStep s (s\<lparr>cs_close := if cs_active s TxCall \<noteq> 0 then CloseRx else CloseDetach\<rparr>)"
| detach: "cs_close s = CloseDetach \<Longrightarrow> closeStep s (s\<lparr>cs_close := CloseDone\<rparr>)"

definition closeInit :: closeState where
  "closeInit = \<lparr>cs_closed = False, cs_active = (\<lambda>_. 0), cs_pc = (\<lambda>_. CallIdle), cs_close = CloseIdle\<rparr>"

inductive closeReach :: "closeState \<Rightarrow> bool" where
  start: "closeReach closeInit"
| step: "closeReach s \<Longrightarrow> closeStep s s' \<Longrightarrow> closeReach s'"

text \<open>The calls a counter counts.\<close>

definition counted :: "callDir \<Rightarrow> (nat \<Rightarrow> callPc) \<Rightarrow> nat set" where
  "counted d pc = {t. pc t \<in> {CallCounted d, CallRunning d, CallRefused d}}"

definition noRunning :: "callDir \<Rightarrow> closeState \<Rightarrow> bool" where
  "noRunning d s \<longleftrightarrow> (\<forall>t. cs_pc s t \<noteq> CallRunning d)"

definition closeInv :: "closeState \<Rightarrow> bool" where
  "closeInv s \<longleftrightarrow>
     (\<forall>d. finite (counted d (cs_pc s)) \<and> cs_active s d = int (card (counted d (cs_pc s))))
     \<and> (cs_closed s \<longleftrightarrow> cs_close s \<noteq> CloseIdle)
     \<and> (cs_close s \<in> {CloseTx, CloseDetach, CloseDone} \<longrightarrow> noRunning RxCall s)
     \<and> (cs_close s \<in> {CloseDetach, CloseDone} \<longrightarrow> noRunning TxCall s)"

lemma counted_upd:
  "counted d (pc(t := c)) = (if c \<in> {CallCounted d, CallRunning d, CallRefused d} then insert t (counted d pc) else counted d pc - {t})"
  by (auto simp: counted_def)

lemma callTo_simps [simp]:
  "cs_closed (callTo t c d n s) = cs_closed s" "cs_close (callTo t c d n s) = cs_close s"
  "cs_pc (callTo t c d n s) = (cs_pc s)(t := c)"
  "cs_active (callTo t c d n s) = (cs_active s)(d := cs_active s d + n)"
  by (simp_all add: callTo_def)

lemma no_calls:
  assumes "closeInv s" "cs_active s d = 0"
  shows "noRunning d s"
proof -
  have "counted d (cs_pc s) = {}" using assms by (metis card_0_eq closeInv_def of_nat_eq_0_iff)
  then show ?thesis by (auto simp: noRunning_def counted_def)
qed

lemma closeInv_call:
  assumes inv: "closeInv s" and s': "s' = callTo t c d n s"
    and dir: "c \<in> {CallCounted d, CallRunning d, CallRefused d, CallIdle}" "cs_pc s t \<in> {CallCounted d, CallRunning d, CallRefused d, CallIdle}"
    and n: "n = of_bool (c \<noteq> CallIdle) - of_bool (cs_pc s t \<noteq> CallIdle)"
    and run: "c = CallRunning d \<Longrightarrow> \<not> cs_closed s"
  shows "closeInv s'"
proof -
  have other: "counted d' ((cs_pc s)(t := c)) = counted d' (cs_pc s)" if "d' \<noteq> d" for d'
    using that dir by (auto simp: counted_def)
  have mem: "t \<in> counted d (cs_pc s) \<longleftrightarrow> cs_pc s t \<noteq> CallIdle" using dir(2) by (auto simp: counted_def)
  have fin: "finite (counted d' (cs_pc s))" "cs_active s d' = int (card (counted d' (cs_pc s)))" for d'
    using inv by (simp_all add: closeInv_def)
  have "finite (counted d ((cs_pc s)(t := c))) \<and> cs_active s d + n = int (card (counted d ((cs_pc s)(t := c))))"
  proof (cases "c = CallIdle")
    case True
    then have eq: "counted d ((cs_pc s)(t := c)) = counted d (cs_pc s) - {t}" by (simp add: counted_upd)
    show ?thesis
    proof (cases "t \<in> counted d (cs_pc s)")
      case t: True
      then have "Suc 0 \<le> card (counted d (cs_pc s))" using fin(1) by (metis Suc_leI card_gt_0_iff empty_iff)
      then show ?thesis using t True n mem fin [of d] unfolding eq by (simp add: card_Diff_singleton of_nat_diff)
    next
      case False
      then show ?thesis using True n mem fin [of d] unfolding eq by simp
    qed
  next
    case False
    then have "counted d ((cs_pc s)(t := c)) = insert t (counted d (cs_pc s))" using dir(1) by (auto simp: counted_upd)
    then show ?thesis using False n mem fin [of d] by (auto simp: card_insert_if)
  qed
  then have cnt: "finite (counted d' (cs_pc s')) \<and> cs_active s' d' = int (card (counted d' (cs_pc s')))" for d'
    using other fin [of d'] by (cases "d' = d") (simp_all add: s')
  have "noRunning d' s \<Longrightarrow> cs_closed s \<Longrightarrow> noRunning d' s'" for d'
    using run dir(1) by (auto simp: noRunning_def s')
  then show ?thesis using inv cnt by (auto simp: closeInv_def s')
qed

lemma closeReach_inv: "closeReach s \<Longrightarrow> closeInv s"
proof (induction rule: closeReach.induct)
  case start
  show ?case by (simp add: closeInv_def closeInit_def counted_def noRunning_def)
next
  case (step s s')
  note inv = step.IH
  from step.hyps(2) show ?case
  proof cases
    case (count t d)
    then show ?thesis by (intro closeInv_call [OF inv count(1)]) simp_all
  next
    case (admit t d)
    then show ?thesis by (intro closeInv_call [OF inv admit(1)]) simp_all
  next
    case (refuse t d)
    then show ?thesis by (intro closeInv_call [OF inv refuse(1)]) simp_all
  next
    case (back_out t d)
    then show ?thesis by (intro closeInv_call [OF inv back_out(1)]) simp_all
  next
    case (leave t d)
    then show ?thesis by (intro closeInv_call [OF inv leave(1)]) simp_all
  next
    case look_rx
    then show ?thesis using inv no_calls [OF inv, of RxCall] by (auto simp: closeInv_def noRunning_def)
  next
    case look_tx
    then show ?thesis using inv no_calls [OF inv, of TxCall] by (auto simp: closeInv_def noRunning_def)
  qed (use inv in \<open>auto simp: closeInv_def noRunning_def\<close>)
qed

text \<open>
  C17: \<^verbatim>\<open>Close\<close> waits for every call in flight. However the calls and the closer interleave, when the
  closer detaches and after it returned no call of the endpoint is using the segment, and none will:
  a call that starts later is refused.
\<close>

theorem close_waits_for_calls:
  assumes "closeReach s" "cs_close s = CloseDetach \<or> cs_close s = CloseDone" "closeStep\<^sup>*\<^sup>* s s'"
  shows "\<forall>t d. cs_pc s' t \<noteq> CallRunning d"
proof -
  have "closeReach s' \<and> (cs_close s' = CloseDetach \<or> cs_close s' = CloseDone)"
    using assms(3,1,2)
  proof (induction rule: rtranclp_induct)
    case (step s1 s2)
    then have r: "closeReach s1" "cs_close s1 = CloseDetach \<or> cs_close s1 = CloseDone" by auto
    then show ?case using step.hyps(2) closeReach.step by (auto elim: closeStep.cases)
  qed auto
  then have "noRunning d s'" for d using closeReach_inv by (cases d) (auto simp: closeInv_def)
  then show ?thesis by (simp add: noRunning_def)
qed

theorem close_waits_for_calls_witness:
  "let s = closeInit\<lparr>cs_closed := True, cs_close := CloseDetach\<rparr>; s' = callTo 7 (CallCounted RxCall) RxCall 1 s in
   closeReach s \<and> closeStep s s' \<and> cs_active s' RxCall = 1 \<and> cs_pc s' 7 \<noteq> CallRunning RxCall"
proof -
  define s where "s = closeInit\<lparr>cs_closed := True, cs_close := CloseDetach\<rparr>"
  have "closeReach (closeInit\<lparr>cs_closed := True, cs_close := CloseRx\<rparr>)"
    using closeReach.step [OF start closeStep.flag [of closeInit]] by (simp add: closeInit_def)
  then have "closeReach (closeInit\<lparr>cs_closed := True, cs_close := CloseTx\<rparr>)"
    using closeReach.step [OF _ closeStep.look_rx [of "closeInit\<lparr>cs_closed := True, cs_close := CloseRx\<rparr>"]] by (simp add: closeInit_def)
  then have r: "closeReach s"
    using closeReach.step [OF _ closeStep.look_tx [of "closeInit\<lparr>cs_closed := True, cs_close := CloseTx\<rparr>"]] by (simp add: closeInit_def s_def)
  have st: "closeStep s (callTo 7 (CallCounted RxCall) RxCall 1 s)" by (rule closeStep.count) (simp add: s_def closeInit_def)
  have "cs_active (callTo 7 (CallCounted RxCall) RxCall 1 s) RxCall = 1" by (simp add: s_def closeInit_def)
  moreover have "cs_pc (callTo 7 (CallCounted RxCall) RxCall 1 s) 7 \<noteq> CallRunning RxCall"
    using close_waits_for_calls [OF r _ r_into_rtranclp, OF _ st] by (simp add: s_def)
  ultimately show ?thesis unfolding Let_def s_def [symmetric] using r st by simp
qed

end
