(* ===== verification/Listener.thy ===== *)
theory Listener
  imports Link_Open
begin

text \<open>
  The listener segment (\<^verbatim>\<open>src/listener.go\<close>, \<^verbatim>\<open>src/listener_layout.go\<close>): its header, the claim of a
  listener name by an acceptor, the initialization, and a client's inspection and watch of it. As for
  the superblock of a link, what other processes do between the accesses, the clocks and the context
  are inputs; the mapping of the segment (\<^verbatim>\<open>internal/shm\<close>, \<^verbatim>\<open>internal/mmap\<close>) is represented by its outcome.
\<close>

section \<open>The header\<close>

definition listenerMagic :: u64 where [hqq_consts]: "listenerMagic = 0x4851515f4c534e31"
definition listenerMajor :: u64 where [hqq_consts]: "listenerMajor = 1"
definition listenerMinor :: u64 where [hqq_consts]: "listenerMinor = 0"
definition listenerKnownRequiredFeatures :: u64 where [hqq_consts]: "listenerKnownRequiredFeatures = 0"
definition listenerStateEmpty :: u64 where "listenerStateEmpty = superblockStateEmpty"
definition listenerStateInitializing :: u64 where "listenerStateInitializing = superblockStateInitializing"
definition listenerStateReady :: u64 where "listenerStateReady = superblockStateReady"
definition listenerHeaderSize :: nat where [hqq_consts]: "listenerHeaderSize = 4096"
definition listenerRecordSize :: u64 where [hqq_consts]: "listenerRecordSize = 248"
definition DefaultAcceptorQueueSize :: int where [hqq_consts]: "DefaultAcceptorQueueSize = 64"
definition hour :: int where [hqq_consts]: "hour = 3600 * second"

lemmas listener_states = listenerStateEmpty_def listenerStateInitializing_def listenerStateReady_def
  superblockStateEmpty_def superblockStateInitializing_def superblockStateReady_def

record listenerHeader =
  lh_magic :: u64
  lh_state :: u64
  lh_major :: u64
  lh_minor :: u64
  lh_ringOffset :: u64
  lh_recordSize :: u64
  lh_capacity :: u64
  lh_layoutSize :: u64
  lh_epoch :: u64
  lh_initToken :: u64
  lh_initHeartbeat :: u64
  lh_requiredFeatures :: u64
  lh_creatorToken :: u64
  lh_serverToken :: u64
  lh_serverPID :: u64
  lh_serverHeartbeat :: u64
  lh_serverInterval :: u64
  lh_maxBufferCount :: u64
  lh_maxBufferSize :: u64
  lh_maxLinkSize :: u64
  lh_features :: u64
  lh_prefixLen :: u64
  lh_prefix :: string      \<comment> \<open>always \<open>listenerMaxPrefixLen\<close> bytes\<close>
  lh_rest :: "u64 list"    \<comment> \<open>the words of the first 4096 bytes without a field\<close>

definition listenerHeaderZero :: "listenerHeader \<Rightarrow> bool" where
  "listenerHeaderZero h \<longleftrightarrow>
     list_all (\<lambda>v. v = 0)
       ([lh_magic h, lh_state h, lh_major h, lh_minor h, lh_ringOffset h, lh_recordSize h, lh_capacity h,
         lh_layoutSize h, lh_epoch h, lh_initToken h, lh_initHeartbeat h, lh_requiredFeatures h,
         lh_creatorToken h, lh_serverToken h, lh_serverPID h, lh_serverHeartbeat h, lh_serverInterval h,
         lh_maxBufferCount h, lh_maxBufferSize h, lh_maxLinkSize h, lh_features h, lh_prefixLen h] @ lh_rest h)
     \<and> list_all (\<lambda>c. c = CHR 0x00) (lh_prefix h)"

definition stampListener :: "listenerHeader \<Rightarrow> listenerHeader" where
  "stampListener h = h\<lparr>lh_major := listenerMajor, lh_minor := listenerMinor, lh_requiredFeatures := 0\<rparr>"

text \<open>\<open>e\<close> is what others do between the stamp and the compare-and-swap.\<close>

definition beginListenerInit ::
    "(listenerHeader \<Rightarrow> listenerHeader) \<Rightarrow> u64 \<Rightarrow> u64 \<Rightarrow> u64 \<Rightarrow> u64 \<Rightarrow> listenerHeader \<Rightarrow> bool \<times> listenerHeader" where
  "beginListenerInit e nanos token expected creator h =
     (let h1 = e (stampListener h) in
      if lh_initToken h1 \<noteq> expected then (False, h1)
      else (True, h1\<lparr>lh_initToken := token, lh_creatorToken := creator, lh_initHeartbeat := nanos\<rparr>))"

definition checkListenerCompat :: "listenerHeader \<Rightarrow> bool \<Rightarrow> err option" where
  "checkListenerCompat h initializing =
     (if lh_requiredFeatures h AND NOT listenerKnownRequiredFeatures \<noteq> 0 then Some ErrIncompatibleLayout
      else if \<not> initializing then
        (if lh_magic h \<noteq> listenerMagic \<or> lh_major h \<noteq> listenerMajor then Some ErrIncompatibleLayout else None)
      else if lh_magic h \<noteq> 0 \<and> lh_magic h \<noteq> listenerMagic then Some ErrIncompatibleLayout
      else if lh_major h \<noteq> listenerMajor \<and> (lh_major h \<noteq> 0 \<or> lh_initToken h \<noteq> 0) then Some ErrIncompatibleLayout
      else None)"

text \<open>
  The decision on an existing object shorter than the requested segment: its size, the outcome of
  mapping its header, and the header.
\<close>

definition listenerSmallObject :: "int \<Rightarrow> err option \<Rightarrow> listenerHeader \<Rightarrow> err" where
  "listenerSmallObject cur mapErr h =
     (if cur < int listenerHeaderSize then ErrIncompatibleLayout
      else case mapErr of
        Some er \<Rightarrow> er
      | None \<Rightarrow> if checkListenerCompat h False \<noteq> None then ErrIncompatibleLayout else ErrInvalidSize)"

section \<open>Liveness of an acceptor\<close>

text \<open>One round of the watch: the clock, the error of the sleep, and the header after it.\<close>

fun serverWatch :: "int \<Rightarrow> u64 \<Rightarrow> u64 \<Rightarrow> (int \<times> err option \<times> listenerHeader) list \<Rightarrow> (err + bool) option" where
  "serverWatch till tok hb [] = None"
| "serverWatch till tok hb ((now, slept, h) # obs) =
     (if \<not> now < till then Some (Inr False)
      else case slept of
        Some er \<Rightarrow> Some (Inl er)
      | None \<Rightarrow>
          if lh_serverHeartbeat h \<noteq> hb \<or> lh_serverToken h \<noteq> tok then Some (Inr (isOwnerToken (lh_serverToken h)))
          else serverWatch till tok hb obs)"

definition listenerServerAlive ::
    "LinkOptions \<Rightarrow> int \<Rightarrow> int \<Rightarrow> (int \<times> err option \<times> listenerHeader) list \<Rightarrow> listenerHeader \<Rightarrow> (err + bool) option" where
  "listenerServerAlive opts wall now obs h =
     (let tok = lh_serverToken h in
      if \<not> isOwnerToken tok then Some (Inr False)
      else
        let interval = sint (lh_serverInterval h) in
        if interval \<le> 0 \<or> interval > hour then Some (Inr True)
        else
          let hb = lh_serverHeartbeat h in
          if hb = 0 \<or> heartbeatFresh wall hb (effectivePeerTimeout opts interval) then Some (Inr True)
          else serverWatch (now + min (3 * interval) (2 * second)) tok hb obs)"

section \<open>Claiming a listener name\<close>

record listenTurn =
  lt_ctxErr :: "err option"
  lt_env :: "nat \<Rightarrow> listenerHeader \<Rightarrow> listenerHeader"
  lt_now :: int
  lt_wall :: int
  lt_alive :: "(int \<times> err option \<times> listenerHeader) list"
  lt_limitNow :: int
  lt_sinceNow :: int
  lt_sleepErr :: "err option"

text \<open>
  The outcome of the switch: \<open>Inl\<close> of what the function returns (\<open>None\<close>: nil), \<open>Inr None\<close> for
  \<^verbatim>\<open>continue\<close>, \<open>Inr (Some stalling)\<close> at its end; \<open>None\<close> while a liveness watch runs.
\<close>

type_synonym listen_out = "(err option + bool option) option"

definition winListener :: "u64 \<Rightarrow> u64 \<Rightarrow> listenTurn \<Rightarrow> listenerHeader \<Rightarrow> listen_out \<times> listenerHeader" where
  "winListener token creator t h =
     (let h1 = lt_env t 3 (h\<lparr>lh_state := listenerStateInitializing\<rparr>) in
      case beginListenerInit (lt_env t 4) (of_int (lt_wall t)) token (lh_initToken h1) creator h1 of
        (ok, h2) \<Rightarrow> (Some (Inl (if ok then None else Some errInitContended)), h2))"

definition listenEmpty :: "u64 \<Rightarrow> u64 \<Rightarrow> listenTurn \<Rightarrow> listenerHeader \<Rightarrow> listen_out \<times> listenerHeader" where
  "listenEmpty token creator t h =
     (if \<not> listenerHeaderZero h then
        (let h1 = lt_env t 1 h in
         if lh_state h1 \<noteq> listenerStateEmpty then (Some (Inr None), h1)
         else (Some (Inl (Some ErrIncompatibleLayout)), h1))
      else
        (let h1 = lt_env t 2 h in
         if lh_state h1 = listenerStateEmpty then winListener token creator t h1
         else (Some (Inr (Some False)), h1)))"

definition listenInitializing :: "u64 \<Rightarrow> u64 \<Rightarrow> LinkOptions \<Rightarrow> listenTurn \<Rightarrow> initWatch \<Rightarrow> listenerHeader
     \<Rightarrow> listen_out \<times> initWatch \<times> listenerHeader" where
  "listenInitializing token creator opts t watch h =
     (let tok = lh_initToken h; hb = lh_initHeartbeat h in
      case checkListenerCompat h True of
        Some er \<Rightarrow> (Some (Inl (Some er)), watch, h)
      | None \<Rightarrow>
          if \<not> iw_active watch \<or> iw_tok watch \<noteq> tok \<or> iw_hb watch \<noteq> hb then
            (Some (Inr (Some True)), \<lparr>iw_active = True, iw_tok = tok, iw_hb = hb, iw_since = lt_now t\<rparr>, h)
          else if lt_now t - iw_since watch \<ge> initStaleWindow opts then
            (case beginListenerInit (lt_env t 4) (of_int (lt_wall t)) token tok creator (lt_env t 3 h) of
               (True, h2) \<Rightarrow> (Some (Inl None), watch, h2)
             | (False, h2) \<Rightarrow> (Some (Inr (Some True)), watch\<lparr>iw_active := False\<rparr>, h2))
          else (Some (Inr (Some True)), watch, h))"

definition listenReady :: "u64 \<Rightarrow> u64 \<Rightarrow> LinkOptions \<Rightarrow> listenTurn \<Rightarrow> listenerHeader \<Rightarrow> listen_out \<times> listenerHeader" where
  "listenReady token creator opts t h =
     (case checkListenerCompat h False of
        Some er \<Rightarrow> (Some (Inl (Some er)), h)
      | None \<Rightarrow>
          (case listenerServerAlive opts (lt_wall t) (lt_now t) (lt_alive t) h of
             None \<Rightarrow> (None, h)
           | Some (Inl er) \<Rightarrow> (Some (Inl (Some er)), h)
           | Some (Inr True) \<Rightarrow> (Some (Inl (Some ErrListenerBusy)), h)
           | Some (Inr False) \<Rightarrow>
               (let h1 = lt_env t 2 h in
                if lh_state h1 = listenerStateReady then winListener token creator t h1
                else (Some (Inr None), h1))))"

definition listenTail :: "int \<Rightarrow> LinkOptions \<Rightarrow> listenTurn \<Rightarrow> bool \<Rightarrow> initWatch \<Rightarrow> err option option" where
  "listenTail limit0 opts t stalling watch =
     (let staleInit = initStaleWindow opts;
          limit = (if stalling \<and> iw_active watch \<and> iw_since watch < limit0
                   then later limit0 (iw_since watch + staleInit) else limit0) in
      if lt_limitNow t > limit then
        (if stalling \<and> iw_active watch \<and> lt_sinceNow t - iw_since watch \<ge> staleInit then None
         else Some (Some errInitContended))
      else (case lt_sleepErr t of Some er \<Rightarrow> Some (Some er) | None \<Rightarrow> None))"

definition listenSwitch :: "u64 \<Rightarrow> u64 \<Rightarrow> LinkOptions \<Rightarrow> listenTurn \<Rightarrow> initWatch \<times> listenerHeader
     \<Rightarrow> listen_out \<times> initWatch \<times> listenerHeader" where
  "listenSwitch token creator opts t = (\<lambda>(watch, h).
     (let st = lh_state h;
          watch1 = (if st \<noteq> listenerStateInitializing then watch\<lparr>iw_active := False\<rparr> else watch) in
      if st = listenerStateEmpty then (case listenEmpty token creator t h of (out, h') \<Rightarrow> (out, watch1, h'))
      else if st = listenerStateInitializing then listenInitializing token creator opts t watch1 h
      else if st = listenerStateReady then (case listenReady token creator opts t h of (out, h') \<Rightarrow> (out, watch1, h'))
      else (Some (Inl (Some ErrIncompatibleLayout)), watch1, h)))"

fun listenLoop :: "u64 \<Rightarrow> u64 \<Rightarrow> LinkOptions \<Rightarrow> int \<Rightarrow> listenTurn list \<Rightarrow> initWatch \<times> listenerHeader
     \<Rightarrow> (err option \<times> listenerHeader) option" where
  "listenLoop token creator opts limit [] s = None"
| "listenLoop token creator opts limit (t # ts) (watch, h0) =
     (let h = lt_env t 0 h0 in
      case lt_ctxErr t of
        Some er \<Rightarrow> Some (Some er, h)
      | None \<Rightarrow>
          (case listenSwitch token creator opts t (watch, h) of
             (None, s) \<Rightarrow> None
           | (Some (Inl out), (w, h')) \<Rightarrow> Some (out, h')
           | (Some (Inr None), s) \<Rightarrow> listenLoop token creator opts limit ts s
           | (Some (Inr (Some stalling)), (w, h')) \<Rightarrow>
               (case listenTail limit opts t stalling w of
                  Some out \<Rightarrow> Some (out, h')
                | None \<Rightarrow> listenLoop token creator opts limit ts (w, h'))))"

definition claimListener :: "u64 \<Rightarrow> u64 \<Rightarrow> LinkOptions \<Rightarrow> int \<Rightarrow> listenTurn list \<Rightarrow> listenerHeader
     \<Rightarrow> (err option \<times> listenerHeader) option" where
  "claimListener token creator opts now ts h =
     listenLoop token creator opts (now + AttachTimeout opts) ts (zeroWatch, h)"

section \<open>Configuration of an acceptor\<close>

definition FeatureNone :: u64 where [hqq_consts]: "FeatureNone = 0"
definition FeatureMessages :: u64 where [hqq_consts]: "FeatureMessages = 1"
definition FeatureRequestResponse :: u64 where [hqq_consts]: "FeatureRequestResponse = 2"
definition FeatureCancel :: u64 where [hqq_consts]: "FeatureCancel = 4"
definition FeatureMetadata :: u64 where [hqq_consts]: "FeatureMetadata = 8"
definition supportedFeatures :: u64 where
  "supportedFeatures = FeatureMessages OR FeatureRequestResponse OR FeatureCancel OR FeatureMetadata"

definition defaultAcceptorMaxBufferCount :: int where [hqq_consts]: "defaultAcceptorMaxBufferCount = 4096"
definition defaultAcceptorMaxBufferSize :: int where [hqq_consts]: "defaultAcceptorMaxBufferSize = 1048576"
definition defaultAcceptorMaxLinkSize :: u64 where [hqq_consts]: "defaultAcceptorMaxLinkSize = 268435456"
definition defaultAcceptorBacklog :: int where [hqq_consts]: "defaultAcceptorBacklog = 16"
definition defaultAcceptorHandshakes :: int where [hqq_consts]: "defaultAcceptorHandshakes = 16"
definition defaultStuckSlotTimeout :: int where [hqq_consts]: "defaultStuckSlotTimeout = 2 * second"

record AcceptorConfig =
  ac_Perm :: nat
  ac_QueueSize :: int
  ac_Features :: u64
  ac_Link :: LinkOptions         \<comment> \<open>\<^verbatim>\<open>Advanced.Link\<close>\<close>
  ac_MaxBufferCount :: int
  ac_MaxBufferSize :: int
  ac_MaxLinkSize :: u64
  ac_Backlog :: int
  ac_MaxHandshakes :: int
  ac_HandshakeTimeout :: int
  ac_StuckSlotTimeout :: int

definition acceptor_normalized :: "u64 \<Rightarrow> AcceptorConfig \<Rightarrow> err + AcceptorConfig" where
  "acceptor_normalized ps c =
     (let perm = (if ac_Perm c = 0 then 384 else ac_Perm c);
          queue = (if ac_QueueSize c = 0 then DefaultAcceptorQueueSize else ac_QueueSize c) in
      if listenerLayoutSize ps queue = 0 then Inl ErrInvalidSize
      else
        let features = (if ac_Features c = FeatureNone then supportedFeatures else ac_Features c);
            count = (if ac_MaxBufferCount c = 0 then defaultAcceptorMaxBufferCount else ac_MaxBufferCount c);
            bsize = (if ac_MaxBufferSize c = 0 then defaultAcceptorMaxBufferSize else ac_MaxBufferSize c);
            lsize = (if ac_MaxLinkSize c = 0 then defaultAcceptorMaxLinkSize else ac_MaxLinkSize c) in
        if count < MinBufferCount \<or> count > maxBufferCount \<or> bsize < MinBufferSize \<or> bsize > maxBufferSize
        then Inl ErrInvalidSize
        else
          Inr (c\<lparr>ac_Perm := perm, ac_QueueSize := queue, ac_Features := features, ac_MaxBufferCount := count,
                 ac_MaxBufferSize := bsize, ac_MaxLinkSize := lsize,
                 ac_Backlog := (if ac_Backlog c \<le> 0 then defaultAcceptorBacklog else ac_Backlog c),
                 ac_MaxHandshakes := (if ac_MaxHandshakes c \<le> 0 then defaultAcceptorHandshakes else ac_MaxHandshakes c),
                 ac_HandshakeTimeout := (if ac_HandshakeTimeout c \<le> 0 then DefaultAttachTimeout else ac_HandshakeTimeout c),
                 ac_StuckSlotTimeout := (if ac_StuckSlotTimeout c = 0 then defaultStuckSlotTimeout else ac_StuckSlotTimeout c)\<rparr>))"

section \<open>Initialization\<close>

definition zeroRecord :: connectRecord where
  "zeroRecord = \<lparr>clientToken = 0, cr_bufferCount = 0, cr_bufferSize = 0, cr_features = 0, cr_flags = 0, nameLen = 0,
     clientPID = 0, cr_reserved = 0, cr_name = replicate listenerMaxNameLen (CHR 0x00)\<rparr>"

text \<open>The closure \<^verbatim>\<open>check\<close> of \<^verbatim>\<open>Acceptor.initialize\<close>.\<close>

definition initCheck :: "err option \<Rightarrow> u64 \<Rightarrow> listenerHeader \<Rightarrow> err option" where
  "initCheck ctxErr token h =
     (case ctxErr of Some er \<Rightarrow> Some er | None \<Rightarrow> if lh_initToken h \<noteq> token then Some errInitContended else None)"

record listenParams =
  lp_cfg :: AcceptorConfig
  lp_opts :: LinkOptions
  lp_prefix :: string
  lp_token :: u64
  lp_size :: u64
  lp_pid :: u64

text \<open>The stores between the second check and the release of the initialization.\<close>

definition listenerStores :: "listenParams \<Rightarrow> u64 \<Rightarrow> listenerHeader \<Rightarrow> listenerHeader" where
  "listenerStores p nanos h =
     (stampListener h)\<lparr>lh_ringOffset := listenerRingOffset, lh_recordSize := listenerRecordSize,
        lh_capacity := of_int (ac_QueueSize (lp_cfg p)), lh_layoutSize := lp_size p,
        lh_maxBufferCount := of_int (ac_MaxBufferCount (lp_cfg p)),
        lh_maxBufferSize := of_int (ac_MaxBufferSize (lp_cfg p)), lh_maxLinkSize := ac_MaxLinkSize (lp_cfg p),
        lh_features := ac_Features (lp_cfg p),
        lh_prefix := take listenerMaxPrefixLen (lp_prefix p @ replicate listenerMaxPrefixLen (CHR 0x00)),
        lh_prefixLen := of_nat (length (lp_prefix p)), lh_serverPID := lp_pid p,
        lh_serverInterval := of_int (HeartbeatInterval (lp_opts p)), lh_serverHeartbeat := nanos,
        lh_serverToken := lp_token p, lh_magic := listenerMagic\<rparr>"

text \<open>
  \<open>li_see k\<close> is what others do before check \<open>k\<close> of the format, \<open>li_after\<close>, \<open>li_check\<close> and \<open>li_mid\<close>
  before the progress stamp, the second check and the stores, \<open>li_commit\<close> before the final swap.
\<close>

record listenEnv =
  li_ctxErr :: "nat \<Rightarrow> err option"
  li_see :: "nat \<Rightarrow> listenerHeader \<Rightarrow> listenerHeader"
  li_after :: "listenerHeader \<Rightarrow> listenerHeader"
  li_check :: "listenerHeader \<Rightarrow> listenerHeader"
  li_ctxErr2 :: "err option"
  li_mid :: "listenerHeader \<Rightarrow> listenerHeader"
  li_commit :: "listenerHeader \<Rightarrow> listenerHeader"
  li_nanos :: "u64 \<times> u64"

definition listener_initialize :: "listenEnv \<Rightarrow> listenParams \<Rightarrow> listenerHeader \<Rightarrow> connectRecord mring
     \<Rightarrow> unit openRes \<times> listenerHeader \<times> connectRecord mring" where
  "listener_initialize env p h m =
     (let check = (\<lambda>k. initCheck (li_ctxErr env k) (lp_token p) (fold (li_see env) [0..<Suc k] h)) in
      case FormatGuarded connectSlotSize check zeroRecord (of_int (ac_QueueSize (lp_cfg p))) m of
        (FormatPanic, m') \<Rightarrow> (OpenPanic, li_after env h, m')
      | (FormatErr er, m') \<Rightarrow> (OpenErr er, li_after env h, m')
      | (FormatOk, m') \<Rightarrow>
          (let h1 = li_check env ((li_after env h)\<lparr>lh_initHeartbeat := fst (li_nanos env)\<rparr>) in
           case initCheck (li_ctxErr2 env) (lp_token p) h1 of
             Some er \<Rightarrow> (OpenErr er, h1, m')
           | None \<Rightarrow>
               (let h2 = li_commit env (listenerStores p (snd (li_nanos env)) (li_mid env h1)) in
                if lh_initToken h2 \<noteq> lp_token p then (OpenErr errInitContended, h2, m')
                else (OpenOk (), h2\<lparr>lh_initToken := 0, lh_epoch := lh_epoch h2 + 1, lh_state := listenerStateReady\<rparr>, m'))))"

text \<open>
  \<^verbatim>\<open>NewAcceptorContext\<close> up to the start of its goroutines. \<open>created\<close> is the outcome of \<^verbatim>\<open>createNamed\<close>
  and \<open>polls\<close> what the attachment to the ring sees.
\<close>

definition acceptorAttachTimeout :: nat where [hqq_consts]: "acceptorAttachTimeout = 50000000"

record acceptorHandle =
  ah_cfg :: AcceptorConfig
  ah_opts :: LinkOptions
  ah_prefix :: string
  ah_token :: u64
  ah_ring :: mhandle

definition NewAcceptorContext :: "u64 \<Rightarrow> string \<Rightarrow> AcceptorConfig \<Rightarrow> u64 \<Rightarrow> u64 \<Rightarrow> u64 \<Rightarrow> bool \<Rightarrow> err option \<Rightarrow> int \<Rightarrow> listenTurn list
     \<Rightarrow> listenEnv \<Rightarrow> ((connectRecord mring \<Rightarrow> connectRecord mring) \<times> nat) list \<Rightarrow> listenerHeader \<Rightarrow> connectRecord mring
     \<Rightarrow> (acceptorHandle openRes \<times> listenerHeader \<times> connectRecord mring) option" where
  "NewAcceptorContext ps name cfg0 token creator pid parker created now turns env polls h m =
     (case acceptor_normalized ps cfg0 of
        Inl er \<Rightarrow> Some (OpenErr er, h, m)
      | Inr cfg \<Rightarrow>
        let opts = normalized (ac_Link cfg); prefix = listenerLinkPrefix name;
            p = \<lparr>lp_cfg = cfg, lp_opts = opts, lp_prefix = prefix, lp_token = token,
                 lp_size = listenerLayoutSize ps (ac_QueueSize cfg), lp_pid = pid\<rparr> in
        if length prefix > listenerMaxPrefixLen then Some (OpenErr ErrInvalidName, h, m)
        else case created of
          Some er \<Rightarrow> Some (OpenErr er, h, m)
        | None \<Rightarrow>
          (case claimListener token creator opts now turns h of
             None \<Rightarrow> None
           | Some (Some er, h1) \<Rightarrow> Some (OpenErr er, h1, m)
           | Some (None, h1) \<Rightarrow>
             (case listener_initialize env p h1 m of
                (OpenErr er, h2, m2) \<Rightarrow> Some (OpenErr er, h2, m2)
              | (OpenPanic, h2, m2) \<Rightarrow> Some (OpenPanic, h2, m2)
              | (OpenOk _, h2, m2) \<Rightarrow>
                (case Attach connectSlotSize acceptorAttachTimeout (map (\<lambda>(f, el). (f m2, el)) polls) of
                   None \<Rightarrow> None
                 | Some None \<Rightarrow> Some (OpenErr ErrIncompatibleLayout, h2, m2)
                 | Some (Some r) \<Rightarrow>
                     Some (OpenOk \<lparr>ah_cfg = cfg, ah_opts = opts, ah_prefix = prefix, ah_token = token,
                             ah_ring = ringSetup opts parker r\<rparr>, h2, m2)))))"

section \<open>A client's view\<close>

definition inspectListener :: "u64 \<Rightarrow> int \<Rightarrow> listenerHeader \<Rightarrow> err + u64" where
  "inspectListener ps cur h =
     (if lh_state h = listenerStateEmpty then
        (if \<not> listenerHeaderZero h then Inl ErrIncompatibleLayout else Inl errListenerNotReady)
      else if lh_state h = listenerStateInitializing then
        (case checkListenerCompat h True of Some er \<Rightarrow> Inl er | None \<Rightarrow> Inl errListenerNotReady)
      else if lh_state h \<noteq> listenerStateReady then Inl ErrIncompatibleLayout
      else case checkListenerCompat h False of
        Some er \<Rightarrow> Inl er
      | None \<Rightarrow>
          if lh_capacity h > of_int maxAcceptorQueueSize \<or> lh_ringOffset h \<noteq> listenerRingOffset
             \<or> lh_recordSize h \<noteq> listenerRecordSize
          then Inl ErrIncompatibleLayout
          else
            let sz = listenerLayoutSize ps (sint (lh_capacity h)) in
            if sz = 0 \<or> lh_layoutSize h \<noteq> sz then Inl ErrIncompatibleLayout
            else if cur < sint sz then Inl ErrIncompatibleLayout
            else Inr sz)"

record listenerWatch =
  lw_creator :: u64
  lw_epoch :: u64
  lw_token :: u64
  lw_hb :: u64
  lw_since :: int
  lw_peerTimeout :: int

definition newListenerWatch :: "listenerHeader \<Rightarrow> int \<Rightarrow> int \<Rightarrow> listenerWatch" where
  "newListenerWatch h now peerTimeout =
     \<lparr>lw_creator = lh_creatorToken h, lw_epoch = lh_epoch h, lw_token = lh_serverToken h,
      lw_hb = lh_serverHeartbeat h, lw_since = now, lw_peerTimeout = peerTimeout\<rparr>"

definition watch_check :: "int \<Rightarrow> listenerHeader \<Rightarrow> listenerWatch \<Rightarrow> err option \<times> listenerWatch" where
  "watch_check now h w =
     (if lh_state h \<noteq> listenerStateReady \<or> lh_creatorToken h \<noteq> lw_creator w \<or> lh_epoch h \<noteq> lw_epoch w
      then (Some ErrListenerGone, w)
      else
        let tok = lh_serverToken h in
        if tok = detachedToken \<or> tok = 0 then (Some ErrListenerClosed, w)
        else if tok \<noteq> lw_token w then (Some ErrListenerGone, w)
        else
          let interval = sint (lh_serverInterval h) in
          if interval \<le> 0 \<or> interval > hour then (None, w)
          else if lh_serverHeartbeat h \<noteq> lw_hb w
          then (None, w\<lparr>lw_hb := lh_serverHeartbeat h, lw_since := now\<rparr>)
          else if now - lw_since w > max (4 * interval) (lw_peerTimeout w) then (Some ErrListenerGone, w)
          else (None, w))"

record listenerClient =
  lc_ring :: mhandle
  lc_prefix :: string
  lc_watch :: listenerWatch
  lc_maxBufferCount :: u64
  lc_maxBufferSize :: u64
  lc_maxLinkSize :: u64

text \<open>
  What \<^verbatim>\<open>openListener\<close> meets: the outcomes of opening, sizing, mapping and unmapping the object, the
  header at the two inspections and afterwards, and what the liveness watch and the attachment see.
\<close>

record openListenerObs =
  ol_open :: "err option"
  ol_cur :: "err + int"
  ol_map1 :: "err option"
  ol_h1 :: listenerHeader
  ol_unmap :: "err option"
  ol_map2 :: "err option"
  ol_base :: u64
  ol_h2 :: listenerHeader
  ol_wall :: int
  ol_now :: int
  ol_alive :: "(int \<times> err option \<times> listenerHeader) list"
  ol_polls :: "(connectRecord mring \<times> nat) list"
  ol_parker :: bool
  ol_h3 :: listenerHeader

definition openListener :: "u64 \<Rightarrow> LinkOptions \<Rightarrow> openListenerObs \<Rightarrow> (err + listenerClient) option" where
  "openListener ps opts ob =
     (case ol_open ob of Some er \<Rightarrow> Some (Inl er) | None \<Rightarrow>
      case ol_cur ob of Inl er \<Rightarrow> Some (Inl er) | Inr cur \<Rightarrow>
      if cur = 0 then Some (Inl errSegmentNotReady)
      else if cur < int listenerHeaderSize then Some (Inl ErrIncompatibleLayout)
      else
      case ol_map1 ob of Some er \<Rightarrow> Some (Inl er) | None \<Rightarrow>
      case inspectListener ps cur (ol_h1 ob) of Inl er \<Rightarrow> Some (Inl er) | Inr layoutSize \<Rightarrow>
      case ol_unmap ob of Some er \<Rightarrow> Some (Inl er) | None \<Rightarrow>
      case ol_map2 ob of Some er \<Rightarrow> Some (Inl er) | None \<Rightarrow>
      if ol_base ob mod ps \<noteq> 0 then Some (Inl ErrMemoryAlign)
      else
      case inspectListener ps cur (ol_h2 ob) of Inl er \<Rightarrow> Some (Inl er) | Inr got \<Rightarrow>
      if got \<noteq> layoutSize then Some (Inl errListenerNotReady)
      else
      case listenerServerAlive opts (ol_wall ob) (ol_now ob) (ol_alive ob) (ol_h2 ob) of
        None \<Rightarrow> None
      | Some (Inl er) \<Rightarrow> Some (Inl er)
      | Some (Inr False) \<Rightarrow> Some (Inl errListenerDead)
      | Some (Inr True) \<Rightarrow>
        (case Attach connectSlotSize acceptorAttachTimeout (ol_polls ob) of
           None \<Rightarrow> None
         | Some None \<Rightarrow> Some (Inl ErrIncompatibleLayout)
         | Some (Some r) \<Rightarrow>
             let h = ol_h3 ob; plen = lh_prefixLen h in
             if plen = 0 \<or> unat plen > listenerMaxPrefixLen then Some (Inl ErrIncompatibleLayout)
             else Some (Inr \<lparr>lc_ring = ringSetup opts (ol_parker ob) r, lc_prefix = take (unat plen) (lh_prefix h),
                    lc_watch = newListenerWatch h (ol_now ob) (PeerTimeout opts),
                    lc_maxBufferCount = lh_maxBufferCount h, lc_maxBufferSize = lh_maxBufferSize h,
                    lc_maxLinkSize = lh_maxLinkSize h\<rparr>)))"

definition admits :: "u64 \<Rightarrow> int \<Rightarrow> int \<Rightarrow> listenerClient \<Rightarrow> err option" where
  "admits ps bufferCount bufferSize lc =
     (if \<not> validConfig bufferCount bufferSize then Some ErrInvalidSize
      else
        let tot = SizeStandardLink ps bufferCount bufferSize in
        if of_int bufferCount > lc_maxBufferCount lc \<or> of_int bufferSize > lc_maxBufferSize lc \<or> tot > lc_maxLinkSize lc
        then Some (Wrapped ErrInvalidSize) else None)"

section \<open>Validation of a record\<close>

definition validate :: "u64 \<Rightarrow> AcceptorConfig \<Rightarrow> string \<Rightarrow> connectRecord \<Rightarrow> err + string" where
  "validate ps cfg prefix rec =
     (if cr_flags rec \<noteq> 0 then Inl errBadRecord
      else case recordName rec of
        None \<Rightarrow> Inl errBadRecord
      | Some name \<Rightarrow>
          if \<not> validLinkName prefix name then Inl errBadRecord
          else if \<not> isOwnerToken (clientToken rec) then Inl errBadRecord
          else if cr_bufferCount rec > of_int (ac_MaxBufferCount cfg) \<or> cr_bufferSize rec > of_int (ac_MaxBufferSize cfg)
          then Inl errBadRecord
          else
            case computeLayout ps (sint (cr_bufferCount rec)) (sint (cr_bufferSize rec)) of
              None \<Rightarrow> Inl errBadRecord
            | Some layout \<Rightarrow> if total layout > ac_MaxLinkSize cfg then Inl errBadRecord else Inr name)"

end
