(* ===== verification/Listener_Session.thy ===== *)
theory Listener_Session
  imports Listener
begin

text \<open>
  What the model of the listener segment guarantees: who may initialize it, what a client finds after
  an initialization, and that acceptor and client agree on which requests are admitted.
\<close>

section \<open>Admission\<close>

text \<open>What a client reads from the header that \<open>listenerStores\<close> wrote.\<close>

definition clientOf :: "listenParams \<Rightarrow> listenerClient \<Rightarrow> bool" where
  "clientOf p lc \<longleftrightarrow> lc_prefix lc = lp_prefix p \<and> lc_maxBufferCount lc = of_int (ac_MaxBufferCount (lp_cfg p))
     \<and> lc_maxBufferSize lc = of_int (ac_MaxBufferSize (lp_cfg p)) \<and> lc_maxLinkSize lc = ac_MaxLinkSize (lp_cfg p)"

lemma take_prefix_pad:
  "length prefix \<le> n \<Longrightarrow> take (length prefix) (take n (prefix @ replicate n c)) = prefix"
  by (simp add: min_def)

lemma sint_validConfig:
  assumes "validConfig bc bs"
  shows "sint (of_int bc :: u64) = bc" "sint (of_int bs :: u64) = bs"
proof -
  have "0 < bc" "bc < 2 ^ 63" "0 < bs" "bs < 2 ^ 63" using assms by (auto simp: validConfig_def hqq_consts)
  then show "sint (of_int bc :: u64) = bc" "sint (of_int bs :: u64) = bs" by (auto intro!: sint_of_int_self)
qed

lemma validate_client_record:
  assumes ps: "0 < ps" "ps \<le> 2 ^ 30" and lc: "clientOf p lc" and prefix: "lp_prefix p = listenerLinkPrefix name"
    and tok: "isOwnerToken tok" and cfg: "validConfig bc bs"
    and rec: "setName (newLinkName (lc_prefix lc) rnd) \<lparr>clientToken = tok, cr_bufferCount = of_int bc, cr_bufferSize = of_int bs,
       cr_features = feat, cr_flags = 0, nameLen = 0, clientPID = pid, cr_reserved = 0,
       cr_name = replicate listenerMaxNameLen (CHR 0x00)\<rparr> = Some rec"
  shows "validate ps (lp_cfg p) (lp_prefix p) rec
    = (if admits ps bc bs lc = None then Inr (newLinkName (lc_prefix lc) rnd) else Inl errBadRecord)"
proof -
  let ?n = "newLinkName (lc_prefix lc) rnd"
  have pre: "lc_prefix lc = listenerLinkPrefix name" using lc prefix by (simp add: clientOf_def)
  have nm: "recordName rec = Some ?n" using rec by (auto intro: setName_recordName)
  have f: "cr_flags rec = 0" "clientToken rec = tok" "cr_bufferCount rec = of_int bc" "cr_bufferSize rec = of_int bs"
    using rec by (auto simp: setName_def split: if_splits)
  obtain layout where lay: "computeLayout ps bc bs = Some layout" using computeLayout_Some [OF ps cfg] .
  then have "SizeStandardLink ps bc bs = total layout" by (simp add: SizeStandardLink_def)
  then show ?thesis using lc cfg tok
    by (simp add: validate_def admits_def f nm newLinkName_valid sint_validConfig [OF cfg] lay clientOf_def Let_def)
qed

text \<open>
  C19: A client's request is never dropped for its form. For a record that a client built from the
  header of the listener (the published prefix and limits, a fresh name, its instance token), the
  client's check and the acceptor's validation decide alike: \<^verbatim>\<open>admits\<close> accepts the geometry exactly when
  \<^verbatim>\<open>validate\<close> accepts the record, and then validation returns the announced name.
\<close>

theorem admission_agrees:
  assumes ps: "0 < ps" "ps \<le> 2 ^ 30" and lc: "clientOf p lc" and prefix: "lp_prefix p = listenerLinkPrefix name"
    and tok: "isOwnerToken tok" and cfg: "validConfig bc bs"
    and rec: "setName (newLinkName (lc_prefix lc) rnd) \<lparr>clientToken = tok, cr_bufferCount = of_int bc, cr_bufferSize = of_int bs,
       cr_features = feat, cr_flags = 0, nameLen = 0, clientPID = pid, cr_reserved = 0,
       cr_name = replicate listenerMaxNameLen (CHR 0x00)\<rparr> = Some rec"
  shows "validate ps (lp_cfg p) (lp_prefix p) rec
    = (if admits ps bc bs lc = None then Inr (newLinkName (lc_prefix lc) rnd) else Inl errBadRecord)"
  using validate_client_record [OF assms] .

section \<open>Claiming\<close>

definition quietListen :: "listenTurn \<Rightarrow> bool" where
  "quietListen t \<longleftrightarrow> (\<forall>k h. lt_env t k h = h)"

text \<open>The header of an initialization that was granted.\<close>

definition listenGranted :: "u64 \<Rightarrow> u64 \<Rightarrow> listenerHeader \<Rightarrow> bool" where
  "listenGranted token creator h \<longleftrightarrow> lh_initToken h = token \<and> lh_creatorToken h = creator"

text \<open>When a claim may be granted: the header is blank, its initializer stalls, or its acceptor is not alive.\<close>

definition listenEligible :: "LinkOptions \<Rightarrow> listenTurn set \<Rightarrow> listenTurn \<Rightarrow> listenerHeader \<Rightarrow> bool" where
  "listenEligible opts seen t h \<longleftrightarrow>
     listenerHeaderZero h
     \<or> (lh_state h = listenerStateInitializing \<and> checkListenerCompat h True = None
        \<and> (\<exists>t0 \<in> seen. initStaleWindow opts \<le> lt_now t - lt_now t0))
     \<or> (lh_state h = listenerStateReady \<and> checkListenerCompat h False = None
        \<and> listenerServerAlive opts (lt_wall t) (lt_now t) (lt_alive t) h = Some (Inr False))"

definition watchedBy :: "listenTurn set \<Rightarrow> initWatch \<Rightarrow> bool" where
  "watchedBy seen w \<longleftrightarrow> (iw_active w \<longrightarrow> (\<exists>t0 \<in> seen. iw_since w = lt_now t0))"

lemma begin_granted:
  "beginListenerInit e nanos token expected creator h = (True, h') \<Longrightarrow> listenGranted token creator h'"
  by (auto simp: beginListenerInit_def listenGranted_def Let_def split: if_splits)

lemma win_granted:
  "winListener token creator t h = (Some (Inl None), h') \<Longrightarrow> listenGranted token creator h'"
  by (auto simp: winListener_def Let_def split: prod.splits if_splits dest: begin_granted)

lemma switch_granted:
  assumes "listenSwitch token creator opts t (w, h) = (Some (Inl None), w', h')"
  shows "listenGranted token creator h'"
  using assms by (auto simp: listenSwitch_def listenEmpty_def listenInitializing_def listenReady_def Let_def
      split: if_splits option.splits sum.splits prod.splits bool.splits dest: begin_granted win_granted)

lemma claim_granted:
  "listenLoop token creator opts limit ts s = Some (None, h') \<Longrightarrow> listenGranted token creator h'"
proof (induction token creator opts limit ts s arbitrary: h' rule: listenLoop.induct)
  case (2 token creator opts limit t ts watch h0)
  then show ?case
    by (auto simp: Let_def listenTail_def split: option.splits sum.splits prod.splits if_splits dest: switch_granted)
qed simp

lemma begin_quiet:
  assumes "quietListen t" "beginListenerInit (lt_env t 4) nanos token (lh_initToken h) creator h = (ok, h')"
  shows "ok"
  using assms by (simp add: beginListenerInit_def quietListen_def stampListener_def Let_def)

lemma win_quiet: "quietListen t \<Longrightarrow> fst (winListener token creator t h) = Some (Inl None)"
  by (auto simp: winListener_def Let_def quietListen_def beginListenerInit_def stampListener_def split: prod.splits)

lemma switch_quiet:
  assumes q: "quietListen t" and sw: "listenSwitch token creator opts t (w, h) = (out, w', h')" and w: "watchedBy seen w"
  shows "(out = Some (Inl None) \<longrightarrow> listenEligible opts (insert t seen) t h) \<and> (out \<noteq> Some (Inl None) \<longrightarrow> h' = h)
    \<and> watchedBy (insert t seen) w'"
proof -
  have id: "lt_env t k x = x" for k x using q by (simp add: quietListen_def)
  have bq: "fst (beginListenerInit (\<lambda>x. x) nanos token (lh_initToken h) creator h)" for nanos
    by (simp add: beginListenerInit_def stampListener_def Let_def)
  have wq: "fst (winListener token creator t x) = Some (Inl None)" for x using win_quiet [OF q] .
  have ee: "lt_env t k = (\<lambda>x. x)" for k using id by auto
  show ?thesis
  proof (cases "lh_state h = listenerStateEmpty")
    case True
    then show ?thesis using sw wq [of h] w
      by (auto simp: listenSwitch_def listenEmpty_def Let_def id listenEligible_def watchedBy_def listener_states split: if_splits prod.splits)
  next
    case ne: False
    show ?thesis
    proof (cases "lh_state h = listenerStateInitializing")
      case True
      then show ?thesis using sw ne bq [of "of_int (lt_wall t)"] w
        by (auto simp: watchedBy_def listenSwitch_def listenInitializing_def Let_def ee listenEligible_def split: if_splits prod.splits option.splits bool.splits)
    next
      case False
      then show ?thesis using sw ne wq [of h] w
        by (auto simp: watchedBy_def listenSwitch_def listenReady_def Let_def id listenEligible_def split: if_splits prod.splits option.splits bool.splits sum.splits)
    qed
  qed
qed

lemma claim_quiet:
  "list_all quietListen ts \<Longrightarrow> watchedBy seen w \<Longrightarrow> listenLoop token creator opts limit ts (w, h) = Some (r, h') \<Longrightarrow>
   (r = None \<longrightarrow> (\<exists>t \<in> set ts. listenEligible opts (seen \<union> set ts) t h)) \<and> (r \<noteq> None \<longrightarrow> h' = h)"
proof (induction ts arbitrary: w seen)
  case (Cons t ts)
  have q: "quietListen t" "list_all quietListen ts" using Cons.prems(1) by simp_all
  have id: "lt_env t 0 h = h" using q(1) by (simp add: quietListen_def)
  obtain out w1 h1 where sw: "listenSwitch token creator opts t (w, h) = (out, w1, h1)" by (metis prod_cases3)
  note quiet = switch_quiet [OF q(1) sw Cons.prems(2)]
  show ?case
  proof (cases "lt_ctxErr t")
    case (Some er)
    then show ?thesis using Cons.prems(3) id by auto
  next
    case None
    note eq = Cons.prems(3) [unfolded listenLoop.simps id Let_def None sw, simplified]
    have tail: "listenTail limit opts t b w1 \<noteq> Some None" for b by (auto simp: listenTail_def Let_def split: if_splits option.splits)
    have mono: "listenEligible opts (insert t seen) t h \<Longrightarrow> listenEligible opts (insert t (seen \<union> set ts)) t h"
      by (auto simp: listenEligible_def)
    show ?thesis
      using eq quiet Cons.IH [OF q(2), of "insert t seen" w1] tail mono by (auto split: option.splits sum.splits)
  qed
qed simp

text \<open>
  C29: Claiming a listener name. A claim that succeeds makes the caller the owner of the
  initialization and records its instance, whatever other processes do meanwhile. Without
  interference it succeeds only on a blank header, over an initializer it watched for the whole stall window, or when the
  recorded acceptor is found not alive; and when it fails it leaves the segment as it was.
\<close>

theorem listener_claim:
  assumes "claimListener token creator opts now ts h = Some (r, h')"
  shows "(r = None \<longrightarrow> lh_initToken h' = token \<and> lh_creatorToken h' = creator)
    \<and> (list_all quietListen ts \<longrightarrow>
         (if r = None then \<exists>t \<in> set ts. listenEligible opts (set ts) t h else h' = h))"
  using assms claim_granted [of token creator opts "now + AttachTimeout opts" ts "(zeroWatch, h)" h']
    claim_quiet [of ts "{}" zeroWatch token creator opts "now + AttachTimeout opts" h r h']
  by (auto simp: claimListener_def listenGranted_def watchedBy_def zeroWatch_def)

section \<open>From an acceptor to a client\<close>

definition quietListenEnv :: "listenEnv \<Rightarrow> bool" where
  "quietListenEnv env \<longleftrightarrow> (\<forall>k. li_ctxErr env k = None) \<and> li_ctxErr2 env = None \<and> (\<forall>k h. li_see env k h = h)
     \<and> (\<forall>h. li_after env h = h) \<and> (\<forall>h. li_check env h = h) \<and> (\<forall>h. li_mid env h = h) \<and> (\<forall>h. li_commit env h = h)"

text \<open>The header of a listener that an acceptor published.\<close>

definition publishedBy :: "listenParams \<Rightarrow> u64 \<Rightarrow> listenerHeader \<Rightarrow> listenerHeader \<Rightarrow> bool" where
  "publishedBy p nanos h h' \<longleftrightarrow>
     (\<exists>n. h' = (listenerStores p nanos (h\<lparr>lh_initHeartbeat := n\<rparr>))\<lparr>lh_initToken := 0, lh_epoch := lh_epoch h + 1,
                 lh_state := listenerStateReady\<rparr>)"

lemma listenerStores_frame [simp]:
  "lh_initToken (listenerStores p n h) = lh_initToken h" "lh_epoch (listenerStores p n h) = lh_epoch h"
  by (simp_all add: listenerStores_def stampListener_def)

lemma initialize_quiet:
  assumes q: "quietListenEnv env" and v: "validRingSize (of_int (ac_QueueSize (lp_cfg p)))"
    and len: "length (slots m) = unat (of_int (ac_QueueSize (lp_cfg p)) :: u64)" and tok: "lh_initToken h = lp_token p"
  shows "\<exists>h' m' (check :: nat \<Rightarrow> err option). listener_initialize env p h m = (OpenOk (), h', m') \<and> publishedBy p (snd (li_nanos env)) h h'
    \<and> FormatGuarded connectSlotSize check zeroRecord (of_int (ac_QueueSize (lp_cfg p))) m = (FormatOk, m')"
proof -
  have id: "fold (li_see env) ks h = h" for ks using q by (induction ks) (simp_all add: quietListenEnv_def)
  let ?c = "\<lambda>k. initCheck (li_ctxErr env k) (lp_token p) (fold (li_see env) [0..<Suc k] h)"
  have c: "?c k = None" for k unfolding id using q tok by (simp add: quietListenEnv_def initCheck_def)
  have "fst (FormatGuarded connectSlotSize ?c zeroRecord (of_int (ac_QueueSize (lp_cfg p))) m) = FormatOk"
    unfolding FormatGuarded_ok_iff using v c by blast
  then obtain m' where ok: "FormatGuarded connectSlotSize ?c zeroRecord (of_int (ac_QueueSize (lp_cfg p))) m = (FormatOk, m')"
    by (cases "FormatGuarded connectSlotSize ?c zeroRecord (of_int (ac_QueueSize (lp_cfg p))) m") simp
  have "listener_initialize env p h m = (OpenOk (), (listenerStores p (snd (li_nanos env)) (h\<lparr>lh_initHeartbeat := fst (li_nanos env)\<rparr>))
      \<lparr>lh_initToken := 0, lh_epoch := lh_epoch h + 1, lh_state := listenerStateReady\<rparr>, m')"
    using ok q tok by (simp add: listener_initialize_def Let_def quietListenEnv_def initCheck_def)
  then show ?thesis using ok by (auto simp: publishedBy_def)
qed

lemma queue_size:
  assumes "listenerLayoutSize ps q \<noteq> 0"
  shows "validRingSize (of_int q :: u64)" "unat (of_int q :: u64) = nat q" "2 \<le> q" "q \<le> 65536" "sint (of_int q :: u64) = q"
proof -
  have q: "2 \<le> q" "q \<le> 65536" "SizeMPMCRing connectSlotSize (of_int q) \<noteq> 0"
    using assms by (auto simp: listenerLayoutSize_def Let_def hqq_consts split: if_splits)
  then show "2 \<le> q" "q \<le> 65536" "validRingSize (of_int q :: u64)" by (auto simp: SizeMPMCRing_def split: if_splits)
  show "unat (of_int q :: u64) = nat q" "sint (of_int q :: u64) = q" using q by (auto simp: unat_of_int_self intro!: sint_of_int_self)
qed

lemma published_fields:
  assumes "publishedBy p nanos h h'"
  shows "lh_state h' = listenerStateReady" "lh_magic h' = listenerMagic" "lh_major h' = listenerMajor" "lh_requiredFeatures h' = 0"
    "lh_capacity h' = of_int (ac_QueueSize (lp_cfg p))" "lh_ringOffset h' = listenerRingOffset" "lh_recordSize h' = listenerRecordSize"
    "lh_layoutSize h' = lp_size p" "lh_serverToken h' = lp_token p" "lh_serverHeartbeat h' = nanos"
    "lh_serverInterval h' = of_int (HeartbeatInterval (lp_opts p))" "lh_prefixLen h' = of_nat (length (lp_prefix p))"
    "lh_prefix h' = take listenerMaxPrefixLen (lp_prefix p @ replicate listenerMaxPrefixLen (CHR 0x00))"
    "lh_maxBufferCount h' = of_int (ac_MaxBufferCount (lp_cfg p))" "lh_maxBufferSize h' = of_int (ac_MaxBufferSize (lp_cfg p))"
    "lh_maxLinkSize h' = ac_MaxLinkSize (lp_cfg p)"
  using assms by (auto simp: publishedBy_def listenerStores_def stampListener_def)

lemma inspect_published:
  assumes "publishedBy p nanos h h'" "lp_size p = listenerLayoutSize ps (ac_QueueSize (lp_cfg p))" "lp_size p \<noteq> 0"
    and "sint (lp_size p) \<le> cur"
  shows "inspectListener ps cur h' = Inr (lp_size p)"
proof -
  note f = published_fields [OF assms(1)]
  note q = queue_size [of ps "ac_QueueSize (lp_cfg p)", folded assms(2), OF assms(3)]
  have "\<not> of_int (ac_QueueSize (lp_cfg p)) > (of_int maxAcceptorQueueSize :: u64)"
    using q by (simp add: word_less_nat_alt hqq_consts)
  then show ?thesis using assms f q
    by (simp add: inspectListener_def checkListenerCompat_def Let_def listener_states)
qed

lemma server_alive_fresh:
  assumes "isOwnerToken (lh_serverToken h)" "lh_serverHeartbeat h = of_int w" "0 \<le> w" "w < 2 ^ 63"
    and "- second < wall - w" "wall - w < PeerTimeout opts"
  shows "listenerServerAlive opts wall now obs h = Some (Inr True)"
proof -
  have "sint (of_int w :: u64) = w" using assms(3,4) by (intro sint_of_int_self) simp_all
  moreover have "PeerTimeout opts \<le> effectivePeerTimeout opts i" for i by (simp add: effectivePeerTimeout_def Let_def)
  then have "wall - w < effectivePeerTimeout opts i" for i using assms(6) by (meson less_le_trans)
  ultimately show ?thesis
    using assms by (simp add: listenerServerAlive_def heartbeatFresh_def wallAge_def heartbeatFutureSlack_def Let_def)
qed

lemma normalized_queue:
  assumes "acceptor_normalized ps c = Inr c'"
  shows "listenerLayoutSize ps (ac_QueueSize c') \<noteq> 0"
proof -
  define queue where "queue = (if ac_QueueSize c = 0 then DefaultAcceptorQueueSize else ac_QueueSize c)"
  have sz: "listenerLayoutSize ps queue \<noteq> 0"
    using assms by (cases "listenerLayoutSize ps queue = 0") (simp_all add: acceptor_normalized_def queue_def)
  have pick: "x = y" if "(if a then Inl e else if b then Inl e else Inr x) = Inr y" for a b and e :: err and x y :: AcceptorConfig
    using that by (simp split: if_split_asm)
  have "ac_QueueSize c' = queue"
    unfolding pick [OF assms [unfolded acceptor_normalized_def Let_def], symmetric] queue_def by simp
  then show ?thesis using sz by simp
qed

lemma openListener_published:
  assumes pub: "publishedBy p (of_int w) h0 h" and sz: "lp_size p = listenerLayoutSize ps (ac_QueueSize (lp_cfg p))" "lp_size p \<noteq> 0"
    and tok: "isOwnerToken (lp_token p)" and plen: "length (lp_prefix p) \<le> listenerMaxPrefixLen" "lp_prefix p \<noteq> []"
    and clock: "0 \<le> w" "w < 2 ^ 63" "- second < ol_wall ob - w" "ol_wall ob - w < PeerTimeout (normalized o1)"
    and ob: "ol_open ob = None" "ol_cur ob = Inr cur" "sint (lp_size p) \<le> cur" "4096 \<le> cur"
      "ol_map1 ob = None" "ol_unmap ob = None" "ol_map2 ob = None" "ol_base ob mod ps = 0"
      "ol_h1 ob = h" "ol_h2 ob = h" "ol_h3 ob = h" "Attach connectSlotSize acceptorAttachTimeout (ol_polls ob) = Some (Some r)"
  shows "openListener ps (normalized o1) ob = Some (Inr \<lparr>lc_ring = ringSetup (normalized o1) (ol_parker ob) r, lc_prefix = lp_prefix p,
      lc_watch = newListenerWatch h (ol_now ob) (PeerTimeout (normalized o1)),
      lc_maxBufferCount = of_int (ac_MaxBufferCount (lp_cfg p)), lc_maxBufferSize = of_int (ac_MaxBufferSize (lp_cfg p)),
      lc_maxLinkSize = ac_MaxLinkSize (lp_cfg p)\<rparr>)"
    and "fst (watch_check (ol_now ob) h (newListenerWatch h (ol_now ob) (PeerTimeout (normalized o1)))) = None"
proof -
  note f = published_fields [OF pub]
  have ins: "inspectListener ps cur h = Inr (lp_size p)" using sz ob(3) by (intro inspect_published [OF pub])
  have alive: "listenerServerAlive (normalized o1) (ol_wall ob) (ol_now ob) obs h = Some (Inr True)" for obs
    using tok clock by (intro server_alive_fresh) (simp_all add: f)
  have pl: "unat (of_nat (length (lp_prefix p)) :: u64) = length (lp_prefix p)"
    using plen(1) by (intro unat_of_nat_self) (simp add: hqq_consts)
  have nz: "(of_nat (length (lp_prefix p)) :: u64) \<noteq> 0" using pl plen(2) by (metis length_0_conv unat_0)
  have pt: "0 \<le> PeerTimeout (normalized o1)" by (simp add: normalized_def hqq_consts Let_def)
  show "openListener ps (normalized o1) ob = Some (Inr \<lparr>lc_ring = ringSetup (normalized o1) (ol_parker ob) r, lc_prefix = lp_prefix p,
      lc_watch = newListenerWatch h (ol_now ob) (PeerTimeout (normalized o1)),
      lc_maxBufferCount = of_int (ac_MaxBufferCount (lp_cfg p)), lc_maxBufferSize = of_int (ac_MaxBufferSize (lp_cfg p)),
      lc_maxLinkSize = ac_MaxLinkSize (lp_cfg p)\<rparr>)"
    using ob ins alive plen pl nz by (simp add: openListener_def f hqq_consts Let_def min_def)
  show "fst (watch_check (ol_now ob) h (newListenerWatch h (ol_now ob) (PeerTimeout (normalized o1)))) = None"
    using tok pt by (auto simp: watch_check_def newListenerWatch_def f isOwnerToken_def Let_def)
qed

text \<open>
  C18: A client finds the listener an acceptor made. On memory whose header is zero, an undisturbed
  \<^verbatim>\<open>NewAcceptor\<close> with a valid configuration succeeds; a client that opens the listener then, while the
  heartbeat is fresh, gets a handle on an empty queue, exactly the acceptor's prefix and limits, and
  its watch finds the acceptor alive.
\<close>

theorem listener_discovery:
  assumes cfg: "acceptor_normalized ps cfg0 = Inr cfg" and nm: "listenerLinkPrefix name = prefix"
    and mem: "listenerHeaderZero h0" "length (slots m0) = nat (ac_QueueSize cfg)"
    and q: "quietListen t" "lt_ctxErr t = None" "quietListenEnv env" "snd (li_nanos env) = of_int w"
    and tok: "isOwnerToken token" and clock: "0 \<le> w" "w < 2 ^ 63" "- second < ol_wall ob - w" "ol_wall ob - w < PeerTimeout (normalized o1)"
    and ob: "ol_open ob = None" "ol_cur ob = Inr cur" "sint (listenerLayoutSize ps (ac_QueueSize cfg)) \<le> cur" "4096 \<le> cur"
      "ol_map1 ob = None" "ol_unmap ob = None" "ol_map2 ob = None" "ol_base ob mod ps = 0"
  shows "\<exists>a h m. NewAcceptorContext ps name cfg0 token creator pid pk None now [t] env [(\<lambda>x. x, 0)] h0 m0 = Some (OpenOk a, h, m)
    \<and> ah_cfg a = cfg \<and> ah_prefix a = prefix
    \<and> (ol_h1 ob = h \<and> ol_h2 ob = h \<and> ol_h3 ob = h \<and> ol_polls ob = [(m, 0)] \<longrightarrow>
         (\<exists>lc. openListener ps (normalized o1) ob = Some (Inr lc) \<and> h_size (lc_ring lc) = of_int (ac_QueueSize cfg)
            \<and> ring_inv (lc_ring lc) m \<and> ring_abs (lc_ring lc) m = []
            \<and> lc_prefix lc = prefix \<and> lc_maxBufferCount lc = of_int (ac_MaxBufferCount cfg)
            \<and> lc_maxBufferSize lc = of_int (ac_MaxBufferSize cfg) \<and> lc_maxLinkSize lc = ac_MaxLinkSize cfg
            \<and> fst (watch_check (ol_now ob) h (lc_watch lc)) = None))"
proof -
  define p where "p = \<lparr>lp_cfg = cfg, lp_opts = normalized (ac_Link cfg), lp_prefix = prefix, lp_token = token,
    lp_size = listenerLayoutSize ps (ac_QueueSize cfg), lp_pid = pid\<rparr>"
  have pp: "lp_cfg p = cfg" "lp_token p = token" "lp_prefix p = prefix" "lp_size p = listenerLayoutSize ps (ac_QueueSize cfg)"
    by (simp_all add: p_def)
  have sz: "listenerLayoutSize ps (ac_QueueSize cfg) \<noteq> 0"
    using cfg by (rule normalized_queue)
  note qs = queue_size [OF sz]
  have plen: "length prefix \<le> listenerMaxPrefixLen" "prefix \<noteq> []"
    using listenerLinkPrefix_length [of name] nm by (auto simp: hqq_consts listenerLinkPrefix_def split: prod.splits)
  define h1 where "h1 = (stampListener (h0\<lparr>lh_state := listenerStateInitializing\<rparr>))\<lparr>lh_initToken := token, lh_creatorToken := creator,
    lh_initHeartbeat := of_int (lt_wall t)\<rparr>"
  have st: "lh_state h0 = listenerStateEmpty" using mem(1) by (simp add: listenerHeaderZero_def listener_states)
  have claim: "claimListener token creator (normalized (ac_Link cfg)) now [t] h0 = Some (None, h1)"
    using q st mem(1) by (simp add: claimListener_def listenSwitch_def listenEmpty_def winListener_def beginListenerInit_def
        quietListen_def h1_def Let_def stampListener_def listener_states)
  have t1: "lh_initToken h1 = lp_token p" by (simp add: h1_def pp)
  have "\<exists>h' m' (check :: nat \<Rightarrow> err option). listener_initialize env p h1 m0 = (OpenOk (), h', m') \<and> publishedBy p (snd (li_nanos env)) h1 h'
    \<and> FormatGuarded connectSlotSize check zeroRecord (of_int (ac_QueueSize (lp_cfg p))) m0 = (FormatOk, m')"
    using qs mem(2) by (intro initialize_quiet [OF q(3) _ _ t1]) (simp_all add: pp)
  then obtain h m and check :: "nat \<Rightarrow> err option" where init: "listener_initialize env p h1 m0 = (OpenOk (), h, m)" "publishedBy p (of_int w) h1 h"
    "FormatGuarded connectSlotSize check zeroRecord (of_int (ac_QueueSize cfg)) m0 = (FormatOk, m)" using q(4) pp by auto
  have len: "length (slots m0) = unat (of_int (ac_QueueSize cfg) :: u64)" using mem(2) qs(2) by simp
  note st = FormatGuarded_ok_state [OF init(3) len] and emp = format_empty_ring [OF init(3) len]
  define r where "r = \<lparr>h_mask = (of_int (ac_QueueSize cfg) :: u64) - 1, h_size = of_int (ac_QueueSize cfg), h_stride = stride connectSlotSize,
    h_policy = WaitAdaptive, h_parker = False\<rparr>"
  have att: "Attach connectSlotSize acceptorAttachTimeout [(m, 0)] = Some (Some r)"
    using st qs(1) by (simp add: mpmc_init_def Let_def r_def)
  have rs: "ringSetup o2 b r = \<lparr>h_mask = of_int (ac_QueueSize cfg) - 1, h_size = of_int (ac_QueueSize cfg), h_stride = stride connectSlotSize,
    h_policy = ringPolicy (o_WaitPolicy o2), h_parker = b\<rparr>" for o2 b
    by (simp add: ringSetup_def SetWaitPolicy_def SetParker_def r_def Let_def)
  have new: "NewAcceptorContext ps name cfg0 token creator pid pk None now [t] env [(\<lambda>x. x, 0)] h0 m0
      = Some (OpenOk \<lparr>ah_cfg = cfg, ah_opts = normalized (ac_Link cfg), ah_prefix = prefix, ah_token = token,
          ah_ring = ringSetup (normalized (ac_Link cfg)) pk r\<rparr>, h, m)"
    using cfg nm plen claim init(1) att by (simp add: NewAcceptorContext_def Let_def flip: p_def)
  have opn: "openListener ps (normalized o1) ob = Some (Inr \<lparr>lc_ring = ringSetup (normalized o1) (ol_parker ob) r, lc_prefix = prefix,
      lc_watch = newListenerWatch h (ol_now ob) (PeerTimeout (normalized o1)),
      lc_maxBufferCount = of_int (ac_MaxBufferCount cfg), lc_maxBufferSize = of_int (ac_MaxBufferSize cfg),
      lc_maxLinkSize = ac_MaxLinkSize cfg\<rparr>)"
    "fst (watch_check (ol_now ob) h (newListenerWatch h (ol_now ob) (PeerTimeout (normalized o1)))) = None"
    if "ol_h1 ob = h" "ol_h2 ob = h" "ol_h3 ob = h" "ol_polls ob = [(m, 0)]"
    using openListener_published [OF init(2), of ps ob o1 cur r] that sz tok plen clock ob att by (simp_all add: pp)
  show ?thesis
    using new opn emp by (intro exI conjI impI) (auto simp: rs)
qed

section \<open>Witnesses\<close>

definition wit_acfg :: AcceptorConfig where
  "wit_acfg = \<lparr>ac_Perm = 384, ac_QueueSize = 64, ac_Features = 15, ac_Link = wit_opts roleAny, ac_MaxBufferCount = 4096,
     ac_MaxBufferSize = 1048576, ac_MaxLinkSize = - 1, ac_Backlog = 16, ac_MaxHandshakes = 16,
     ac_HandshakeTimeout = 5 * second, ac_StuckSlotTimeout = 2 * second\<rparr>"

definition wit_lparams :: listenParams where
  "wit_lparams = \<lparr>lp_cfg = wit_acfg, lp_opts = wit_opts roleAny, lp_prefix = listenerLinkPrefix ''svc'', lp_token = 5,
     lp_size = listenerLayoutSize 4096 64, lp_pid = 1\<rparr>"

definition wit_client :: listenerClient where
  "wit_client = \<lparr>lc_ring = wit_h, lc_prefix = listenerLinkPrefix ''svc'',
     lc_watch = \<lparr>lw_creator = 0, lw_epoch = 0, lw_token = 0, lw_hb = 0, lw_since = 0, lw_peerTimeout = 0\<rparr>,
     lc_maxBufferCount = 4096, lc_maxBufferSize = 1048576, lc_maxLinkSize = - 1\<rparr>"

definition wit_record :: "int \<Rightarrow> connectRecord" where
  "wit_record bc = the (setName (newLinkName (listenerLinkPrefix ''svc'') 77) \<lparr>clientToken = 9, cr_bufferCount = of_int bc,
     cr_bufferSize = 4096, cr_features = 15, cr_flags = 0, nameLen = 0, clientPID = 2, cr_reserved = 0,
     cr_name = replicate listenerMaxNameLen (CHR 0x00)\<rparr>)"

lemma wit_client_record:
  "setName (newLinkName (lc_prefix wit_client) 77) \<lparr>clientToken = 9, cr_bufferCount = of_int bc,
     cr_bufferSize = of_int 4096, cr_features = 15, cr_flags = 0, nameLen = 0, clientPID = 2, cr_reserved = 0,
     cr_name = replicate listenerMaxNameLen (CHR 0x00)\<rparr> = Some (wit_record bc)"
  "clientOf wit_lparams wit_client" "lp_cfg wit_lparams = wit_acfg" "lp_prefix wit_lparams = listenerLinkPrefix ''svc''"
  "lc_prefix wit_client = listenerLinkPrefix ''svc''" "validConfig 64 4096" "validConfig 8192 4096"
  "admits 4096 64 4096 wit_client = None" "admits 4096 8192 4096 wit_client \<noteq> None"
proof -
  show v: "validConfig 64 4096" "validConfig 8192 4096" by code_simp+
  have nl: "length (newLinkName (listenerLinkPrefix ''svc'') 77) \<le> 184" "newLinkName (listenerLinkPrefix ''svc'') 77 \<noteq> []"
    by code_simp+
  then show "setName (newLinkName (lc_prefix wit_client) 77) \<lparr>clientToken = 9, cr_bufferCount = of_int bc,
     cr_bufferSize = of_int 4096, cr_features = 15, cr_flags = 0, nameLen = 0, clientPID = 2, cr_reserved = 0,
     cr_name = replicate listenerMaxNameLen (CHR 0x00)\<rparr> = Some (wit_record bc)"
    by (simp add: wit_record_def wit_client_def setName_def hqq_consts)
  show "clientOf wit_lparams wit_client" by (simp add: clientOf_def wit_lparams_def wit_client_def wit_acfg_def)
  show "admits 4096 64 4096 wit_client = None" "admits 4096 8192 4096 wit_client \<noteq> None"
    using v by (simp_all add: admits_def wit_client_def Let_def)
qed (simp_all add: wit_lparams_def wit_client_def)

lemma wit_record_valid:
  "validate 4096 wit_acfg (listenerLinkPrefix ''svc'') (wit_record 64) = Inr (newLinkName (listenerLinkPrefix ''svc'') 77)"
  using validate_client_record [OF _ _ wit_client_record(2,4) _ wit_client_record(6,1), of 4096] wit_client_record
  by (simp add: isOwnerToken_def hqq_consts)

theorem admission_agrees_witness:
  "validate 4096 wit_acfg (listenerLinkPrefix ''svc'') (wit_record 64) = Inr (newLinkName (listenerLinkPrefix ''svc'') 77)
   \<and> validate 4096 wit_acfg (listenerLinkPrefix ''svc'') (wit_record 8192) = Inl errBadRecord"
  using admission_agrees [OF _ _ wit_client_record(2,4) _ wit_client_record(6,1), of 4096]
    admission_agrees [OF _ _ wit_client_record(2,4) _ wit_client_record(7,1), of 4096] wit_client_record
  by (simp add: isOwnerToken_def hqq_consts)

definition wit_header :: listenerHeader where
  "wit_header = \<lparr>lh_magic = 0, lh_state = 0, lh_major = 0, lh_minor = 0, lh_ringOffset = 0, lh_recordSize = 0, lh_capacity = 0,
     lh_layoutSize = 0, lh_epoch = 0, lh_initToken = 0, lh_initHeartbeat = 0, lh_requiredFeatures = 0, lh_creatorToken = 0,
     lh_serverToken = 0, lh_serverPID = 0, lh_serverHeartbeat = 0, lh_serverInterval = 0, lh_maxBufferCount = 0,
     lh_maxBufferSize = 0, lh_maxLinkSize = 0, lh_features = 0, lh_prefixLen = 0, lh_prefix = replicate 32 (CHR 0x00), lh_rest = [0]\<rparr>"

definition wit_lturn :: listenTurn where
  "wit_lturn = \<lparr>lt_ctxErr = None, lt_env = (\<lambda>k h. h), lt_now = 0, lt_wall = 1000, lt_alive = [], lt_limitNow = 0, lt_sinceNow = 0,
     lt_sleepErr = None\<rparr>"

theorem listener_claim_witness:
  "let foreign = wit_header\<lparr>lh_magic := 7\<rparr> in
   claimListener 5 6 (wit_opts roleAny) 0 [wit_lturn] foreign = Some (Some ErrIncompatibleLayout, foreign)"
proof -
  define f where "f = wit_header\<lparr>lh_magic := 7\<rparr>"
  have "lh_state f = listenerStateEmpty" "\<not> listenerHeaderZero f" by (simp_all add: f_def wit_header_def listener_states listenerHeaderZero_def)
  then obtain h' where c: "claimListener 5 6 (wit_opts roleAny) 0 [wit_lturn] f = Some (Some ErrIncompatibleLayout, h')"
    by (simp add: claimListener_def listenSwitch_def listenEmpty_def wit_lturn_def Let_def)
  have "list_all quietListen [wit_lturn]" by (simp add: quietListen_def wit_lturn_def)
  then have "h' = f" using listener_claim [OF c] by simp
  then show ?thesis using c by (simp add: f_def)
qed

definition wit_lenv :: listenEnv where
  "wit_lenv = \<lparr>li_ctxErr = (\<lambda>k. None), li_see = (\<lambda>k h. h), li_after = (\<lambda>h. h), li_check = (\<lambda>h. h), li_ctxErr2 = None,
     li_mid = (\<lambda>h. h), li_commit = (\<lambda>h. h), li_nanos = (1500, of_int 2000)\<rparr>"

definition wit_lobs :: "listenerHeader \<Rightarrow> connectRecord mring \<Rightarrow> openListenerObs" where
  "wit_lobs h m = \<lparr>ol_open = None, ol_cur = Inr (2 ^ 40), ol_map1 = None, ol_h1 = h, ol_unmap = None, ol_map2 = None, ol_base = 8192,
     ol_h2 = h, ol_wall = 3000, ol_now = 10, ol_alive = [], ol_polls = [(m, 0)], ol_parker = False, ol_h3 = h\<rparr>"

definition wit_queue :: "connectRecord mring" where
  "wit_queue = \<lparr>rg_magic = 9, rg_size = 8, rg_flag = 7, rg_stride = 6, rg_version = 5, rg_r = 4, rg_w = 3, notEmpty = 2,
       emptyWaiters = 1, notFull = 1, fullWaiters = 1, slots = replicate 64 \<lparr>seq = 99, edata = wit_record 2\<rparr>\<rparr>"

lemma wit_layout: "listenerLayoutSize 4096 64 \<noteq> 0" "sint (listenerLayoutSize 4096 64) \<le> 2 ^ 40"
proof -
  have ring: "unat (SizeMPMCRing connectSlotSize 64) = 16896"
    using SizeMPMCRing_eq [of 64 6 connectSlotSize 8] by (simp add: stride_connect)
  have off: "unat listenerRingOffset = 4096" by (simp add: hqq_consts)
  obtain s where s: "alignedSum 4096 listenerRingOffset (SizeMPMCRing connectSlotSize 64) = Some s"
    by (rule alignedSum_fits [of 4096 listenerRingOffset "SizeMPMCRing connectSlotSize 64"]) (simp_all add: ring off)
  have b: "20992 \<le> unat s" "unat s < 25088" using alignedSum_bounds [OF s] by (simp_all add: ring off)
  have "SizeMPMCRing connectSlotSize 64 \<noteq> 0" using ring by auto
  moreover have "isPowerOfTwo 64" by code_simp
  ultimately have l: "listenerLayoutSize 4096 64 = s" by (simp add: listenerLayoutSize_def maxAcceptorQueueSize_def s Let_def)
  show "listenerLayoutSize 4096 64 \<noteq> 0" using l b by auto
  obtain n where n: "unat s = n" "n < 25088" using b by simp
  then have "s = of_int (int n)" by (metis of_int_of_nat_eq of_nat_unat_self)
  moreover have "sint (of_int (int n) :: u64) = int n" using n by (intro sint_of_int_self) simp_all
  ultimately have "sint s = int n" by simp
  then show "sint (listenerLayoutSize 4096 64) \<le> 2 ^ 40" using l n by simp
qed

theorem listener_discovery_witness:
  "\<exists>a h m lc. NewAcceptorContext 4096 ''svc'' wit_acfg 5 6 1 False None 0 [wit_lturn] wit_lenv [(\<lambda>x. x, 0)] wit_header wit_queue
       = Some (OpenOk a, h, m)
     \<and> openListener 4096 (normalized (wit_opts roleAny)) (wit_lobs h m) = Some (Inr lc)
     \<and> ring_abs (lc_ring lc) m = [] \<and> lc_maxBufferCount lc = 4096"
proof -
  note lay = wit_layout
  have cfg: "acceptor_normalized 4096 wit_acfg = Inr wit_acfg"
    by (simp add: acceptor_normalized_def wit_acfg_def lay hqq_consts Let_def)
  have q: "quietListen wit_lturn" "lt_ctxErr wit_lturn = None" "quietListenEnv wit_lenv" "snd (li_nanos wit_lenv) = of_int 2000"
    by (simp_all add: quietListen_def wit_lturn_def quietListenEnv_def wit_lenv_def)
  have z: "listenerHeaderZero wit_header" by (simp add: listenerHeaderZero_def wit_header_def list_all_iff)
  have len: "length (slots wit_queue) = nat (ac_QueueSize wit_acfg)" by (simp add: wit_queue_def wit_acfg_def)
  have pt: "PeerTimeout (normalized (wit_opts roleAny)) = 5 * second" by (simp add: normalized_def wit_opts_def hqq_consts Let_def)
  let ?P = "\<lambda>ob a h m. NewAcceptorContext 4096 ''svc'' wit_acfg 5 6 1 False None 0 [wit_lturn] wit_lenv [(\<lambda>x. x, 0)] wit_header wit_queue
       = Some (OpenOk a, h, m)"
  have disc: "\<exists>a h m. ?P ob a h m
    \<and> (ol_h1 ob = h \<and> ol_h2 ob = h \<and> ol_h3 ob = h \<and> ol_polls ob = [(m, 0)] \<longrightarrow>
         (\<exists>lc. openListener 4096 (normalized (wit_opts roleAny)) ob = Some (Inr lc)
            \<and> ring_abs (lc_ring lc) m = [] \<and> lc_maxBufferCount lc = 4096))" if "ob = wit_lobs h0 m0" for ob h0 m0
    using listener_discovery [OF cfg refl z len q, where name = "''svc''" and token = 5 and ob = ob and ?o1.0 = "wit_opts roleAny"
        and cur = "2 ^ 40" and creator = 6 and pid = 1 and pk = False and now = 0] lay
    by (auto simp: that wit_lobs_def isOwnerToken_def pt hqq_consts wit_acfg_def)
  obtain a h m where p: "?P ob a h m" for ob using disc [OF refl] by blast
  have "\<exists>lc. openListener 4096 (normalized (wit_opts roleAny)) (wit_lobs h m) = Some (Inr lc)
            \<and> ring_abs (lc_ring lc) m = [] \<and> lc_maxBufferCount lc = 4096"
    using disc [OF refl, of h m] p by (auto simp: wit_lobs_def)
  then show ?thesis using p by blast
qed

end
