(* ===== verification/Acceptor.thy ===== *)
theory Acceptor
  imports Listener_Session
begin

text \<open>
  The running acceptor (\<^verbatim>\<open>src/listener.go\<close>: \<^verbatim>\<open>recoverStuckSlot\<close>, \<^verbatim>\<open>housekeeping\<close>, \<^verbatim>\<open>dispatch\<close>, \<^verbatim>\<open>handshake\<close>,
  \<^verbatim>\<open>Accept\<close>, \<^verbatim>\<open>Close\<close>) and the client side of a connection (\<^verbatim>\<open>Connect\<close>, and \<^verbatim>\<open>Dial\<close> of \<^verbatim>\<open>src/connect.go\<close>).
  Opening a link segment and negotiating on it are represented by their outcomes. The goroutines
  of the acceptor are a step relation.
\<close>

section \<open>Stuck slots\<close>

record stuckState =
  ss_seen :: bool
  ss_pos :: u64
  ss_since :: int

text \<open>
  \<open>e\<close> is what others do between the decision and the compare-and-swap. The result tells whether
  the slot was published on behalf of its producer.
\<close>

definition recoverStuckSlot :: "AcceptorConfig \<Rightarrow> mhandle \<Rightarrow> int \<Rightarrow> (connectRecord mring \<Rightarrow> connectRecord mring)
     \<Rightarrow> stuckState \<Rightarrow> connectRecord mring \<Rightarrow> bool \<times> stuckState \<times> connectRecord mring \<times> wake_event list" where
  "recoverStuckSlot cfg h now e st m =
     (if ac_StuckSlotTimeout cfg \<le> 0 then (False, st, m, [])
      else
        let r = rg_r m; w = rg_w m in
        if sint (w - r) \<le> 0 \<or> slot_seq h r m \<noteq> r then (False, st\<lparr>ss_seen := False\<rparr>, m, [])
        else if \<not> ss_seen st \<or> ss_pos st \<noteq> r then (False, \<lparr>ss_seen = True, ss_pos = r, ss_since = now\<rparr>, m, [])
        else if now - ss_since st < ac_StuckSlotTimeout cfg then (False, st, m, [])
        else
          let m1 = e m in
          if slot_seq h r m1 = r
          then (case WakeAll h (set_seq h r (r + 1) m1) of (m2, ev) \<Rightarrow> (True, st\<lparr>ss_seen := False\<rparr>, m2, ev))
          else (False, st\<lparr>ss_seen := False\<rparr>, m1, []))"

text \<open>The period of the housekeeping ticker.\<close>

definition housePeriod :: "AcceptorConfig \<Rightarrow> LinkOptions \<Rightarrow> int" where
  "housePeriod cfg opts =
     (let tick = (if HeartbeatInterval opts \<le> 0 then 100 * ms else HeartbeatInterval opts);
          t = ac_StuckSlotTimeout cfg in
      if t > 0 then max (min tick (t div 4)) ms else tick)"

text \<open>
  One tick: the heartbeat, at most once per interval (\<open>lastBeat\<close> is \<open>None\<close> before the first one, an
  infinitely distant past), then the look at the slot.
\<close>

definition houseBeat :: "LinkOptions \<Rightarrow> u64 \<Rightarrow> int \<Rightarrow> u64 \<Rightarrow> int option \<Rightarrow> listenerHeader \<Rightarrow> int option \<times> listenerHeader" where
  "houseBeat opts token now nanos lastBeat h =
     (let interval = HeartbeatInterval opts in
      if interval > 0 \<and> (case lastBeat of None \<Rightarrow> True | Some b \<Rightarrow> now - b \<ge> interval)
      then (Some now, if lh_serverToken h = token then h\<lparr>lh_serverHeartbeat := nanos\<rparr> else h)
      else (lastBeat, h))"

section \<open>Records, handshakes and Accept\<close>

text \<open>
  The dispatcher between two records (\<open>DLoop\<close>), with a record it counted (\<open>DGot\<close>), waiting for a free
  handshake (\<open>DSem\<close>) or stopped; a handshake while it opens the link, negotiates, waits for room in the
  backlog, or gives its place back. The counters are 64-bit words. The ghosts \<open>x_dropped\<close> and
  \<open>x_drained\<close> count the records given up without being counted, because the acceptor was closed, and
  the links \<^verbatim>\<open>Close\<close> took from the backlog.
\<close>

datatype dispatchPc = DLoop | DGot connectRecord | DSem connectRecord string | DStopped

datatype shakePc = HFree | HOpen connectRecord string | HNegotiate connectRecord string | HDeliver string | HLeave

record acceptorState =
  x_done :: bool
  x_canceled :: bool
  x_disp :: dispatchPc
  x_shake :: "nat \<Rightarrow> shakePc"
  x_sem :: nat
  x_ready :: "string list"
  st_records :: u64
  st_accepted :: u64
  st_malformed :: u64
  st_unreachable :: u64
  st_handshakeFailed :: u64
  x_dropped :: nat
  x_drained :: nat

text \<open>
  The steps, one per atomic action of a goroutine. A handshake that fails to open its link or to
  negotiate counts the failure unless the acceptor was closed meanwhile.
\<close>

inductive astep :: "u64 \<Rightarrow> AcceptorConfig \<Rightarrow> string \<Rightarrow> acceptorState \<Rightarrow> acceptorState \<Rightarrow> bool" for ps cfg prefix where
  dequeue: "x_disp s = DLoop \<Longrightarrow> astep ps cfg prefix s (s\<lparr>x_disp := DGot rec, st_records := st_records s + 1\<rparr>)"
| malformed: "x_disp s = DGot rec \<Longrightarrow> validate ps cfg prefix rec = Inl er \<Longrightarrow>
     astep ps cfg prefix s (s\<lparr>x_disp := DLoop, st_malformed := st_malformed s + 1\<rparr>)"
| wellformed: "x_disp s = DGot rec \<Longrightarrow> validate ps cfg prefix rec = Inr name \<Longrightarrow>
     astep ps cfg prefix s (s\<lparr>x_disp := DSem rec name\<rparr>)"
| acquire: "x_disp s = DSem rec name \<Longrightarrow> x_sem s < nat (ac_MaxHandshakes cfg) \<Longrightarrow> x_shake s i = HFree \<Longrightarrow>
     astep ps cfg prefix s (s\<lparr>x_disp := DLoop, x_sem := Suc (x_sem s), x_shake := (x_shake s)(i := HOpen rec name)\<rparr>)"
| stop: "x_disp s = DLoop \<Longrightarrow> x_done s \<Longrightarrow> astep ps cfg prefix s (s\<lparr>x_disp := DStopped\<rparr>)"
| stop_waiting: "x_disp s = DSem rec name \<Longrightarrow> x_done s \<Longrightarrow>
     astep ps cfg prefix s (s\<lparr>x_disp := DStopped, x_dropped := Suc (x_dropped s)\<rparr>)"
| opened: "x_shake s i = HOpen rec name \<Longrightarrow> astep ps cfg prefix s (s\<lparr>x_shake := (x_shake s)(i := HNegotiate rec name)\<rparr>)"
| unreachable: "x_shake s i = HOpen rec name \<Longrightarrow> \<not> x_canceled s \<Longrightarrow>
     astep ps cfg prefix s (s\<lparr>x_shake := (x_shake s)(i := HLeave), st_unreachable := st_unreachable s + 1\<rparr>)"
| open_canceled: "x_shake s i = HOpen rec name \<Longrightarrow> x_canceled s \<Longrightarrow>
     astep ps cfg prefix s (s\<lparr>x_shake := (x_shake s)(i := HLeave), x_dropped := Suc (x_dropped s)\<rparr>)"
| negotiated: "x_shake s i = HNegotiate rec name \<Longrightarrow>
     astep ps cfg prefix s (s\<lparr>x_shake := (x_shake s)(i := HDeliver name)\<rparr>)"
| rejected: "x_shake s i = HNegotiate rec name \<Longrightarrow> \<not> x_canceled s \<Longrightarrow>
     astep ps cfg prefix s (s\<lparr>x_shake := (x_shake s)(i := HLeave), st_handshakeFailed := st_handshakeFailed s + 1\<rparr>)"
| negotiate_canceled: "x_shake s i = HNegotiate rec name \<Longrightarrow> x_canceled s \<Longrightarrow>
     astep ps cfg prefix s (s\<lparr>x_shake := (x_shake s)(i := HLeave), x_dropped := Suc (x_dropped s)\<rparr>)"
| deliver: "x_shake s i = HDeliver name \<Longrightarrow> length (x_ready s) < nat (ac_Backlog cfg) \<Longrightarrow>
     astep ps cfg prefix s (s\<lparr>x_shake := (x_shake s)(i := HLeave), x_ready := x_ready s @ [name]\<rparr>)"
| deliver_closed: "x_shake s i = HDeliver name \<Longrightarrow> x_done s \<Longrightarrow>
     astep ps cfg prefix s (s\<lparr>x_shake := (x_shake s)(i := HLeave), x_dropped := Suc (x_dropped s)\<rparr>)"
| leave: "x_shake s i = HLeave \<Longrightarrow> astep ps cfg prefix s (s\<lparr>x_shake := (x_shake s)(i := HFree), x_sem := x_sem s - 1\<rparr>)"
| accept: "x_ready s = name # names \<Longrightarrow>
     astep ps cfg prefix s (s\<lparr>x_ready := names, st_accepted := st_accepted s + 1\<rparr>)"
| close_done: "\<not> x_done s \<Longrightarrow> astep ps cfg prefix s (s\<lparr>x_done := True\<rparr>)"
| close_cancel: "x_done s \<Longrightarrow> astep ps cfg prefix s (s\<lparr>x_canceled := True\<rparr>)"
| close_drain: "x_done s \<Longrightarrow> x_disp s = DStopped \<Longrightarrow> \<forall>i. x_shake s i = HFree \<Longrightarrow> x_ready s = name # names \<Longrightarrow>
     astep ps cfg prefix s (s\<lparr>x_ready := names, x_drained := Suc (x_drained s)\<rparr>)"

definition ainit :: acceptorState where
  "ainit = \<lparr>x_done = False, x_canceled = False, x_disp = DLoop, x_shake = (\<lambda>_. HFree), x_sem = 0, x_ready = [],
     st_records = 0, st_accepted = 0, st_malformed = 0, st_unreachable = 0, st_handshakeFailed = 0,
     x_dropped = 0, x_drained = 0\<rparr>"

inductive areach :: "u64 \<Rightarrow> AcceptorConfig \<Rightarrow> string \<Rightarrow> acceptorState \<Rightarrow> bool" for ps cfg prefix where
  start: "areach ps cfg prefix ainit"
| step: "areach ps cfg prefix s \<Longrightarrow> astep ps cfg prefix s s' \<Longrightarrow> areach ps cfg prefix s'"

text \<open>Handshakes that still hold a record, handshakes that hold a place, and the record of the dispatcher.\<close>

definition shaking :: "(nat \<Rightarrow> shakePc) \<Rightarrow> nat set" where
  "shaking sh = {i. sh i \<noteq> HFree \<and> sh i \<noteq> HLeave}"

definition placed :: "(nat \<Rightarrow> shakePc) \<Rightarrow> nat set" where
  "placed sh = {i. sh i \<noteq> HFree}"

definition held :: "dispatchPc \<Rightarrow> nat" where
  "held d = (case d of DGot _ \<Rightarrow> 1 | DSem _ _ \<Rightarrow> 1 | _ \<Rightarrow> 0)"

definition inProgress :: "acceptorState \<Rightarrow> nat" where
  "inProgress s = held (x_disp s) + card (shaking (x_shake s)) + length (x_ready s)"

definition ainv :: "AcceptorConfig \<Rightarrow> acceptorState \<Rightarrow> bool" where
  "ainv cfg s \<longleftrightarrow>
     finite (placed (x_shake s)) \<and> x_sem s = card (placed (x_shake s)) \<and> x_sem s \<le> nat (ac_MaxHandshakes cfg)
     \<and> length (x_ready s) \<le> nat (ac_Backlog cfg)
     \<and> st_records s = st_accepted s + st_malformed s + st_unreachable s + st_handshakeFailed s
         + of_nat (inProgress s + x_dropped s + x_drained s)
     \<and> (\<not> x_done s \<longrightarrow> x_dropped s = 0 \<and> x_drained s = 0) \<and> (x_canceled s \<longrightarrow> x_done s)"

lemma held_simps [simp]: "held DLoop = 0" "held (DGot r) = 1" "held (DSem r n) = 1" "held DStopped = 0"
  by (simp_all add: held_def)

lemma placed_upd: "placed (sh(i := c)) = (if c = HFree then placed sh - {i} else insert i (placed sh))"
  by (auto simp: placed_def)

lemma shaking_upd: "shaking (sh(i := c)) = (if c = HFree \<or> c = HLeave then shaking sh - {i} else insert i (shaking sh))"
  by (auto simp: shaking_def)

lemma shaking_placed: "shaking sh \<subseteq> placed sh"
  by (auto simp: shaking_def placed_def)

text \<open>How a move of one handshake changes the two counts.\<close>

lemma shake_cards:
  assumes "finite (placed sh)"
  shows "sh i = HFree \<Longrightarrow> c \<noteq> HFree \<Longrightarrow> c \<noteq> HLeave \<Longrightarrow>
      card (placed (sh(i := c))) = Suc (card (placed sh)) \<and> card (shaking (sh(i := c))) = Suc (card (shaking sh))"
    and "sh i \<noteq> HFree \<Longrightarrow> sh i \<noteq> HLeave \<Longrightarrow> c \<noteq> HFree \<Longrightarrow> c \<noteq> HLeave \<Longrightarrow>
      card (placed (sh(i := c))) = card (placed sh) \<and> card (shaking (sh(i := c))) = card (shaking sh)"
    and "sh i \<noteq> HFree \<Longrightarrow> sh i \<noteq> HLeave \<Longrightarrow>
      card (placed (sh(i := HLeave))) = card (placed sh) \<and> card (shaking sh) = Suc (card (shaking (sh(i := HLeave))))"
    and "sh i = HLeave \<Longrightarrow>
      card (placed sh) = Suc (card (placed (sh(i := HFree)))) \<and> card (shaking (sh(i := HFree))) = card (shaking sh)"
proof -
  have fin: "finite (shaking sh)" using assms shaking_placed finite_subset by blast
  have mem: "i \<in> placed sh \<longleftrightarrow> sh i \<noteq> HFree" "i \<in> shaking sh \<longleftrightarrow> sh i \<noteq> HFree \<and> sh i \<noteq> HLeave"
    by (simp_all add: placed_def shaking_def)
  show "sh i = HFree \<Longrightarrow> c \<noteq> HFree \<Longrightarrow> c \<noteq> HLeave \<Longrightarrow>
      card (placed (sh(i := c))) = Suc (card (placed sh)) \<and> card (shaking (sh(i := c))) = Suc (card (shaking sh))"
    using assms fin mem by (simp add: placed_upd shaking_upd)
  show "sh i \<noteq> HFree \<Longrightarrow> sh i \<noteq> HLeave \<Longrightarrow> c \<noteq> HFree \<Longrightarrow> c \<noteq> HLeave \<Longrightarrow>
      card (placed (sh(i := c))) = card (placed sh) \<and> card (shaking (sh(i := c))) = card (shaking sh)"
    using mem by (simp add: placed_upd shaking_upd insert_absorb)
  show "sh i \<noteq> HFree \<Longrightarrow> sh i \<noteq> HLeave \<Longrightarrow>
      card (placed (sh(i := HLeave))) = card (placed sh) \<and> card (shaking sh) = Suc (card (shaking (sh(i := HLeave))))"
    using mem fin card.remove [of "shaking sh" i] by (simp add: placed_upd shaking_upd insert_absorb del: card_Diff_insert)
  show "sh i = HLeave \<Longrightarrow>
      card (placed sh) = Suc (card (placed (sh(i := HFree)))) \<and> card (shaking (sh(i := HFree))) = card (shaking sh)"
    using mem assms card.remove [of "placed sh" i] by (simp add: placed_upd shaking_upd del: card_Diff_insert)
qed

lemma placed_finite [simp]: "finite (placed sh) \<Longrightarrow> finite (placed (sh(i := c)))"
  by (simp add: placed_upd)

lemma ainv_step:
  assumes "astep ps cfg prefix s s'" "ainv cfg s"
  shows "ainv cfg s'"
proof -
  have fin: "finite (placed (x_shake s))" using assms(2) by (simp add: ainv_def)
  note cards = shake_cards [OF fin]
  from assms(1) show ?thesis
  proof cases
    case (acquire rec name i)
    then show ?thesis using assms(2) cards(1) [of i "HOpen rec name"] by (auto simp: ainv_def inProgress_def)
  next
    case (opened i rec name)
    then show ?thesis using assms(2) cards(2) [of i "HNegotiate rec name"] by (auto simp: ainv_def inProgress_def)
  next
    case (negotiated i rec name)
    then show ?thesis using assms(2) cards(2) [of i "HDeliver name"] by (auto simp: ainv_def inProgress_def)
  next
    case (unreachable i rec name)
    then show ?thesis using assms(2) cards(3) [of i] by (auto simp: ainv_def inProgress_def algebra_simps)
  next
    case (open_canceled i rec name)
    then show ?thesis using assms(2) cards(3) [of i] by (auto simp: ainv_def inProgress_def algebra_simps)
  next
    case (rejected i rec name)
    then show ?thesis using assms(2) cards(3) [of i] by (auto simp: ainv_def inProgress_def algebra_simps)
  next
    case (negotiate_canceled i rec name)
    then show ?thesis using assms(2) cards(3) [of i] by (auto simp: ainv_def inProgress_def algebra_simps)
  next
    case (deliver i name)
    then show ?thesis using assms(2) cards(3) [of i] by (auto simp: ainv_def inProgress_def algebra_simps)
  next
    case (deliver_closed i name)
    then show ?thesis using assms(2) cards(3) [of i] by (auto simp: ainv_def inProgress_def algebra_simps)
  next
    case (leave i)
    then show ?thesis using assms(2) cards(4) [of i] by (auto simp: ainv_def inProgress_def)
  qed (use assms(2) in \<open>auto simp: ainv_def inProgress_def algebra_simps\<close>)
qed

lemma areach_inv: "areach ps cfg prefix s \<Longrightarrow> ainv cfg s"
proof (induction rule: areach.induct)
  case start
  show ?case by (simp add: ainv_def ainit_def placed_def shaking_def inProgress_def)
next
  case (step s s')
  then show ?case by (blast intro: ainv_step)
qed

text \<open>
  C20: Every record is accounted for, whatever the interleaving of the dispatcher, the handshakes, the
  callers of \<^verbatim>\<open>Accept\<close> and \<^verbatim>\<open>Close\<close>: until the acceptor is closed, the records taken from the queue are
  exactly the accepted, malformed, unreachable and failed ones and those still in progress; after
  that, additionally the ones given up or drained. At no time do more than \<^verbatim>\<open>MaxHandshakes\<close>
  handshakes run or more than \<^verbatim>\<open>Backlog\<close> links wait.
\<close>

theorem acceptor_accounting:
  assumes "areach ps cfg prefix s"
  shows "st_records s = st_accepted s + st_malformed s + st_unreachable s + st_handshakeFailed s
           + of_nat (inProgress s + x_dropped s + x_drained s)
    \<and> (\<not> x_done s \<longrightarrow> x_dropped s = 0 \<and> x_drained s = 0)
    \<and> card {i. x_shake s i \<noteq> HFree} \<le> nat (ac_MaxHandshakes cfg) \<and> length (x_ready s) \<le> nat (ac_Backlog cfg)"
  using areach_inv [OF assms] by (auto simp: ainv_def placed_def)

section \<open>Recovery of a stuck slot\<close>

text \<open>The ticks of the housekeeping goroutine at the given times; how many slots they published.\<close>

fun recoverRun :: "AcceptorConfig \<Rightarrow> mhandle \<Rightarrow> int list \<Rightarrow> stuckState \<Rightarrow> connectRecord mring
     \<Rightarrow> nat \<times> stuckState \<times> connectRecord mring" where
  "recoverRun cfg h [] st m = (0, st, m)"
| "recoverRun cfg h (t # ts) st m =
     (case recoverStuckSlot cfg h t (\<lambda>x. x) st m of
        (ok, st1, m1, ev) \<Rightarrow> (case recoverRun cfg h ts st1 m1 of (n, st2, m2) \<Rightarrow> (of_bool ok + n, st2, m2)))"

definition stuckAt :: "mhandle \<Rightarrow> connectRecord mring \<Rightarrow> bool" where
  "stuckAt h m \<longleftrightarrow> 0 < sint (rg_w m - rg_r m) \<and> slot_seq h (rg_r m) m = rg_r m"

lemma recover_wait:
  assumes "stuckAt h m" "0 < ac_StuckSlotTimeout cfg" "ss_seen st" "ss_pos st = rg_r m"
    and "\<forall>t \<in> set ts. t - ss_since st < ac_StuckSlotTimeout cfg"
  shows "recoverRun cfg h (ts @ us) st m = recoverRun cfg h us st m"
  using assms
proof (induction ts)
  case (Cons t ts)
  have "recoverStuckSlot cfg h t (\<lambda>x. x) st m = (False, st, m, [])"
    using Cons.prems by (auto simp: recoverStuckSlot_def stuckAt_def Let_def)
  then show ?case using Cons by simp
qed simp

lemma WakeAll_frame:
  "rg_r (fst (WakeAll h m)) = rg_r m" "rg_w (fst (WakeAll h m)) = rg_w m" "slots (fst (WakeAll h m)) = slots m"
  by (auto simp: WakeAll_def wakeAll_def wakeWord_def Let_def split: prod.splits if_splits)

lemma sint_minus_size:
  assumes "handle_ok h"
  shows "sint (- h_size h) < 0"
proof -
  define x where "x = unat (h_size h)"
  have x: "2 \<le> x" "x \<le> 2 ^ 63" using handle_size_bounds [OF assms] by (simp_all add: x_def)
  have "sint (of_int (- int x) :: u64) = - int x"
    using x by (intro sint_of_int_self) simp_all
  moreover have "(of_int (- int x) :: u64) = - h_size h" by (simp add: x_def)
  ultimately show ?thesis using x by simp
qed

text \<open>
  A slot whose sequence lies behind a position: a claim of that position waits for ever, unless its
  context ends, as long as nobody writes the sequence.
\<close>

lemma claim_behind:
  assumes "sint (q - p) < 0" "slot_seq h p m = q" "\<forall>(f, er) \<in> set turns. \<forall>y. slot_seq h p y = q \<longrightarrow> slot_seq h p (f y) = q"
  shows "rg_w m = p \<Longrightarrow> claimProducer h turns m \<noteq> Some (Inr pos, m')"
    and "sint (q - (p + 1)) < 0 \<Longrightarrow> rg_r m = p \<Longrightarrow> claimConsumer h turns m \<noteq> Some (Inr pos, m')"
proof -
  have P: "claimProducerSlow h turns p m \<noteq> Some (Inr pos, m')"
    using assms
  proof (induction turns arbitrary: m)
    case Nil
    then show ?case by (subst claimProducerSlow.simps) simp
  next
    case (Cons t turns)
    obtain f er where t: "t = (f, er)" by (cases t)
    have "slot_seq h p (f m) = q" using Cons.prems(2,3) t by auto
    moreover have "claimProducerSlow h turns p (f m) \<noteq> Some (Inr pos, m')" if "slot_seq h p (f m) = q"
      by (rule Cons.IH [OF Cons.prems(1) that]) (use Cons.prems(3) in auto)
    ultimately show ?case using Cons.prems(1,2) t by (subst claimProducerSlow.simps) (auto split: option.split)
  qed
  show "claimProducer h turns m \<noteq> Some (Inr pos, m')" if "rg_w m = p"
    unfolding claimProducer_def that using P assms(1,2) by (subst claimProducerLoop.simps) auto
  assume c: "sint (q - (p + 1)) < 0" "rg_r m = p"
  have C: "claimConsumerSlow h turns p m \<noteq> Some (Inr pos, m')"
    using assms
  proof (induction turns arbitrary: m)
    case Nil
    then show ?case using c(1) by (subst claimConsumerSlow.simps) simp
  next
    case (Cons t turns)
    obtain f er where t: "t = (f, er)" by (cases t)
    have "slot_seq h p (f m) = q" using Cons.prems(2,3) t by auto
    moreover have "claimConsumerSlow h turns p (f m) \<noteq> Some (Inr pos, m')" if "slot_seq h p (f m) = q"
      by (rule Cons.IH [OF Cons.prems(1) that]) (use Cons.prems(3) in auto)
    ultimately show ?case using Cons.prems(1,2) c(1) t by (subst claimConsumerSlow.simps) (auto split: option.split)
  qed
  show "claimConsumer h turns m \<noteq> Some (Inr pos, m')"
    unfolding claimConsumer_def c(2) using C assms(2) c(1) by (subst claimConsumerLoop.simps) auto
qed

text \<open>
  C21: A client that dies between claiming a queue slot and publishing it does not block the queue. If
  the slot at the head stays claimed and unpublished, the first tick at least \<^verbatim>\<open>StuckSlotTimeout\<close> after
  the one that first saw it publishes the slot, exactly once and no earlier; the consumer then gets
  it, with what the slot held. If the client was only slow, its commit is a plain store that does not
  fail. Before the consumer takes the slot it changes no sequence. After the consumer released the
  slot, it overwrites the sequence: from then on, as long as no call writes that sequence, a producer
  that comes round to the slot finds the queue full and never gets it, a consumer that comes round to
  it finds the queue empty, and the recovery does nothing.
\<close>

theorem stuck_slot_recovered:
  assumes ok: "handle_ok h" "length (slots m) = unat (h_size h)" and stuck: "stuckAt h m"
    and cfg: "0 < ac_StuckSlotTimeout cfg" and st: "\<not> ss_seen st"
    and mid: "\<forall>t \<in> set ts. t - t0 < ac_StuckSlotTimeout cfg" and t: "ac_StuckSlotTimeout cfg \<le> t1 - t0"
  shows "fst (recoverRun cfg h (t0 # ts) st m) = 0 \<and> snd (snd (recoverRun cfg h (t0 # ts) st m)) = m
    \<and> (\<exists>st' m'. recoverRun cfg h (t0 # ts @ [t1]) st m = (1, st', m')
         \<and> claimConsumer h turns m' = Some (Inr (rg_r m), m'\<lparr>rg_r := rg_r m + 1\<rparr>)
         \<and> slot_data h (rg_r m) m' = slot_data h (rg_r m) m
         \<and> (\<forall>p rec. slot_seq h p (fst (publish h (rg_r m) (set_data h (rg_r m) rec m'))) = slot_seq h p m')
         \<and> slot_seq h (rg_r m + h_size h) (fst (release h (rg_r m) (m'\<lparr>rg_r := rg_r m + 1\<rparr>))) = rg_r m + h_size h
         \<and> (\<forall>rec. slot_seq h (rg_r m + h_size h) (fst (publish h (rg_r m) (set_data h (rg_r m) rec
               (fst (release h (rg_r m) (m'\<lparr>rg_r := rg_r m + 1\<rparr>)))))) = rg_r m + 1))
    \<and> (\<forall>x (ts' :: (connectRecord, 'f) turn list). slot_seq h (rg_r m + h_size h) x = rg_r m + 1 \<and>
         (\<forall>(f, er) \<in> set ts'. \<forall>y. slot_seq h (rg_r m + h_size h) y = rg_r m + 1 \<longrightarrow> slot_seq h (rg_r m + h_size h) (f y) = rg_r m + 1) \<longrightarrow>
           (rg_w x = rg_r m + h_size h \<longrightarrow> (\<nexists>pos y. claimProducer h ts' x = Some (Inr pos, y)))
         \<and> (rg_r x = rg_r m + h_size h \<longrightarrow> (\<nexists>pos y. claimConsumer h ts' x = Some (Inr pos, y))
              \<and> (\<forall>t st e. recoverStuckSlot cfg h t e st x = (False, st\<lparr>ss_seen := False\<rparr>, x, []))))"
proof -
  let ?r = "rg_r m" and ?st = "\<lparr>ss_seen = True, ss_pos = rg_r m, ss_since = t0\<rparr>" and ?n = "h_size h"
  have first: "recoverStuckSlot cfg h t0 (\<lambda>x. x) st m = (False, ?st, m, [])"
    using stuck cfg st by (auto simp: recoverStuckSlot_def stuckAt_def Let_def)
  have w: "recoverRun cfg h (ts @ us) ?st m = recoverRun cfg h us ?st m" for us
    using stuck cfg mid by (intro recover_wait) simp_all
  obtain m' ev where wake: "WakeAll h (set_seq h ?r (?r + 1) m) = (m', ev)" by (metis prod.collapse)
  have last: "recoverStuckSlot cfg h t1 (\<lambda>x. x) ?st m = (True, ?st\<lparr>ss_seen := False\<rparr>, m', ev)"
    using stuck cfg t wake by (auto simp: recoverStuckSlot_def stuckAt_def Let_def)
  have m': "rg_r m' = ?r" "slots m' = slots (set_seq h ?r (?r + 1) m)"
    using WakeAll_frame [of h "set_seq h ?r (?r + 1) m"] wake by (simp_all add: set_seq_def Let_def)
  have idx: "slot_index h ?r < length (slots m)" using slot_index_less [OF ok(1)] ok(2) by simp
  have seq: "slot_seq h ?r m' = ?r + 1" "slot_data h ?r m' = slot_data h ?r m"
    using idx by (simp_all add: slot_seq_def slot_data_def m'(2) set_seq_def Let_def)
  have idx': "slot_index h ?r < length (slots m')" using idx by (simp add: m'(2) set_seq_def Let_def)
  have pub: "slot_seq h p (fst (publish h ?r (set_data h ?r rec x))) = (if slot_index h p = slot_index h ?r then ?r + 1 else slot_seq h p x)"
    if "slot_index h ?r < length (slots x)" for p rec and x :: "connectRecord mring"
    using that slot_seq_set_seq [of h ?r "set_data h ?r rec x" p "?r + 1"]
    by (simp add: publish_def slot_seq_def set_data_def Let_def)
  let ?mr = "fst (release h ?r (m'\<lparr>rg_r := ?r + 1\<rparr>))"
  have len: "slot_index h ?r < length (slots ?mr)" using idx' by (simp add: release_def set_seq_def Let_def)
  have rel: "slot_seq h (?r + ?n) ?mr = ?r + ?n"
    using idx' ok(1) slot_index_add_size [OF ok(1), of ?r]
    by (simp add: release_def slot_seq_def set_seq_def Let_def handle_ok_def)
  have "claimConsumer h turns m' = Some (Inr ?r, m'\<lparr>rg_r := ?r + 1\<rparr>)"
    by (simp add: claimConsumer_def claimConsumerLoop.simps m'(1) seq)
  moreover have "recoverRun cfg h (t0 # ts @ [t1]) st m = (1, ?st\<lparr>ss_seen := False\<rparr>, m')"
    using w [of "[t1]"] by (simp add: first last)
  moreover have "slot_seq h p (fst (publish h ?r (set_data h ?r rec m'))) = slot_seq h p m'" for p rec
    using pub [OF idx'] seq(1) by (simp add: slot_seq_def)
  moreover have "slot_seq h (?r + ?n) (fst (publish h ?r (set_data h ?r rec ?mr))) = ?r + 1" for rec
    using pub [OF len] slot_index_add_size [OF ok(1), of ?r] by simp
  ultimately have late: "\<exists>st' m'. recoverRun cfg h (t0 # ts @ [t1]) st m = (1, st', m')
         \<and> claimConsumer h turns m' = Some (Inr ?r, m'\<lparr>rg_r := ?r + 1\<rparr>)
         \<and> slot_data h ?r m' = slot_data h ?r m
         \<and> (\<forall>p rec. slot_seq h p (fst (publish h ?r (set_data h ?r rec m'))) = slot_seq h p m')
         \<and> slot_seq h (?r + ?n) (fst (release h ?r (m'\<lparr>rg_r := ?r + 1\<rparr>))) = ?r + ?n
         \<and> (\<forall>rec. slot_seq h (?r + ?n) (fst (publish h ?r (set_data h ?r rec (fst (release h ?r (m'\<lparr>rg_r := ?r + 1\<rparr>)))))) = ?r + 1)"
    using seq(2) rel by blast
  have neg: "sint (?r + 1 - (?r + ?n)) < 0" "sint (?r + 1 - (?r + ?n + 1)) < 0"
    using sint_one_minus_size [OF ok(1)] sint_minus_size [OF ok(1)] by (simp_all add: algebra_simps)
  have wedge: "(rg_w x = ?r + ?n \<longrightarrow> (\<nexists>pos y. claimProducer h ts' x = Some (Inr pos, y)))
       \<and> (rg_r x = ?r + ?n \<longrightarrow> (\<nexists>pos y. claimConsumer h ts' x = Some (Inr pos, y))
            \<and> (\<forall>t st e. recoverStuckSlot cfg h t e st x = (False, st\<lparr>ss_seen := False\<rparr>, x, [])))"
    if x: "slot_seq h (?r + ?n) x = ?r + 1"
      "\<forall>(f, er) \<in> set ts'. \<forall>y. slot_seq h (?r + ?n) y = ?r + 1 \<longrightarrow> slot_seq h (?r + ?n) (f y) = ?r + 1"
    for x :: "connectRecord mring" and ts' :: "(connectRecord, 'f) turn list"
  proof -
    note b = claim_behind [OF neg(1) x]
    have "?r + 1 \<noteq> ?r + ?n" using neg(1) by auto
    then show ?thesis using b(1) b(2) [OF neg(2)] x(1) cfg by (auto simp: recoverStuckSlot_def Let_def)
  qed
  have run: "recoverRun cfg h (t0 # ts) st m = (0, ?st, m)" using w [of "[]"] by (simp add: first)
  show ?thesis
  proof (intro conjI)
    show "fst (recoverRun cfg h (t0 # ts) st m) = 0" "snd (snd (recoverRun cfg h (t0 # ts) st m)) = m"
      unfolding run by simp_all
  qed (rule late, intro allI impI, elim conjE, rule wedge)
qed

text \<open>
  C39: The published slot is not always an empty record, and not always dropped as malformed. In a
  queue of two slots a client is served and dequeued, a second one too; a third producer claims the
  next slot, which is the first one again, and dies. The recovery then delivers the first client's
  record a second time, and it passes the validation it passed before.
\<close>

theorem recovered_record_is_stale:
  assumes h: "h = \<lparr>h_mask = 1, h_size = 2, h_stride = st, h_policy = po, h_parker = False\<rparr>"
    and m0: "slots m0 = [\<lparr>seq = 0, edata = zeroRecord\<rparr>, \<lparr>seq = 1, edata = zeroRecord\<rparr>]" "rg_r m0 = 0" "rg_w m0 = 0"
      "emptyWaiters m0 = 0" "fullWaiters m0 = 0"
    and cfg: "0 < ac_StuckSlotTimeout cfg" and v: "validate ps cfg prefix a = Inr name"
  shows "\<exists>m1 m2 m3 m4 m5 ss m6 m7.
    Enqueue h [] a m0 = Some (m1, []) \<and> Dequeue h [] m1 = Some (a, m2, [])
    \<and> Enqueue h [] b m2 = Some (m3, []) \<and> Dequeue h [] m3 = Some (b, m4, [])
    \<and> claimProducer h [] m4 = Some (Inr 2, m5)
    \<and> recoverRun cfg h [0, ac_StuckSlotTimeout cfg] \<lparr>ss_seen = False, ss_pos = 0, ss_since = 0\<rparr> m5 = (1, ss, m6)
    \<and> Dequeue h [] m6 = Some (a, m7, []) \<and> validate ps cfg prefix a = Inr name"
proof -
  let ?s = "\<lambda>x y. m0\<lparr>slots := [x, y]\<rparr>"
  define m1 where "m1 = ?s \<lparr>seq = 1, edata = a\<rparr> \<lparr>seq = 1, edata = zeroRecord\<rparr>\<lparr>rg_w := 1\<rparr>"
  define m2 where "m2 = ?s \<lparr>seq = 2, edata = a\<rparr> \<lparr>seq = 1, edata = zeroRecord\<rparr>\<lparr>rg_w := 1, rg_r := 1\<rparr>"
  define m3 where "m3 = ?s \<lparr>seq = 2, edata = a\<rparr> \<lparr>seq = 2, edata = b\<rparr>\<lparr>rg_w := 2, rg_r := 1\<rparr>"
  define m4 where "m4 = ?s \<lparr>seq = 2, edata = a\<rparr> \<lparr>seq = 3, edata = b\<rparr>\<lparr>rg_w := 2, rg_r := 2\<rparr>"
  define m5 where "m5 = ?s \<lparr>seq = 2, edata = a\<rparr> \<lparr>seq = 3, edata = b\<rparr>\<lparr>rg_w := 3, rg_r := 2\<rparr>"
  note ops = Enqueue_def Dequeue_def claimProducer_def claimConsumer_def claimProducerLoop.simps claimConsumerLoop.simps
    publish_def release_def notifyConsumers_def notifyProducers_def set_seq_def set_data_def slot_seq_def slot_data_def slot_index_def Let_def
  have "Enqueue h [] a m0 = Some (m1, [])" using m0 by (simp add: ops h m1_def)
  moreover have "Dequeue h [] m1 = Some (a, m2, [])" using m0 by (simp add: ops h m1_def m2_def)
  moreover have "Enqueue h [] b m2 = Some (m3, [])" using m0 by (simp add: ops h m3_def m2_def)
  moreover have "Dequeue h [] m3 = Some (b, m4, [])" using m0 by (simp add: ops h m3_def m4_def)
  moreover have "claimProducer h [] m4 = Some (Inr 2, m5)" using m0 by (simp add: ops h m5_def m4_def)
  moreover have "\<exists>ss m6 m7. recoverRun cfg h [0, ac_StuckSlotTimeout cfg] \<lparr>ss_seen = False, ss_pos = 0, ss_since = 0\<rparr> m5 = (1, ss, m6)
      \<and> Dequeue h [] m6 = Some (a, m7, [])"
    using m0 cfg by (simp add: ops h m5_def recoverStuckSlot_def WakeAll_def wakeAll_def wakeWord_def)
  ultimately show ?thesis using v by blast
qed

section \<open>Witnesses\<close>

theorem acceptor_accounting_witness:
  "\<exists>s. areach 4096 wit_acfg (listenerLinkPrefix ''svc'') s \<and> st_records s = 1 \<and> st_malformed s = 0 \<and> inProgress s = 1
     \<and> length (x_ready s) \<le> 16"
proof -
  let ?p = "listenerLinkPrefix ''svc''" and ?r = "wit_record 64"
  define s1 where "s1 = ainit\<lparr>x_disp := DGot ?r, st_records := 1\<rparr>"
  define s2 where "s2 = s1\<lparr>x_disp := DSem ?r (newLinkName ?p 77)\<rparr>"
  have "areach 4096 wit_acfg ?p s1"
    using areach.step [OF start astep.dequeue [of ainit]] by (simp add: s1_def ainit_def)
  then have r: "areach 4096 wit_acfg ?p s2"
    using areach.step [OF _ astep.wellformed [of s1 ?r 4096 wit_acfg ?p]] wit_record_valid by (simp add: s1_def s2_def)
  have "st_records s2 = 1" "st_malformed s2 = 0" by (simp_all add: s2_def s1_def ainit_def)
  moreover have "inProgress s2 = 1" by (simp add: s2_def s1_def ainit_def inProgress_def shaking_def)
  ultimately show ?thesis using acceptor_accounting [OF r] r by (intro exI [of _ s2]) (simp add: wit_acfg_def)
qed

definition wit_stuck :: "connectRecord mring" where
  "wit_stuck = \<lparr>rg_magic = mpmc_magic, rg_size = 2, rg_flag = mpmc_init, rg_stride = 256,
     rg_version = layoutVersion, rg_r = 0, rg_w = 1, notEmpty = 0, emptyWaiters = 0,
     notFull = 0, fullWaiters = 0, slots = [\<lparr>seq = 0, edata = zeroRecord\<rparr>, \<lparr>seq = 1, edata = zeroRecord\<rparr>]\<rparr>"

text \<open>
  A queue of two slots wedged by a late commit: the slot is recovered and taken, the slow client
  commits, another client is served from the second slot, and then no call returns.
\<close>

theorem stuck_slot_recovered_witness:
  "\<exists>st m' m1 m2 m3 m4. recoverRun wit_acfg wit_h [0, 500000000, 2000000000] \<lparr>ss_seen = False, ss_pos = 0, ss_since = 0\<rparr> wit_stuck = (1, st, m')
     \<and> Dequeue wit_h [] m' = Some (zeroRecord, m1, [])
     \<and> publish wit_h 0 (set_data wit_h 0 (wit_record 64) m1) = (m2, [])
     \<and> Enqueue wit_h [] (wit_record 64) m2 = Some (m3, []) \<and> Dequeue wit_h [] m3 = Some (wit_record 64, m4, [])
     \<and> claimProducer wit_h [(\<lambda>x. x, None :: unit option)] m4 = None \<and> claimConsumer wit_h [(\<lambda>x. x, None :: unit option)] m4 = None
     \<and> (\<forall>t st e. recoverStuckSlot wit_acfg wit_h t e st m4 = (False, st\<lparr>ss_seen := False\<rparr>, m4, []))"
proof -
  let ?st = "\<lparr>ss_seen = False, ss_pos = 0, ss_since = 0\<rparr>" and ?q = "[(\<lambda>x. x, None)] :: (connectRecord, unit) turn list"
  let ?m = "\<lambda>a b r w. wit_stuck\<lparr>slots := [a, b], rg_r := r, rg_w := w, notEmpty := 1, notFull := 1\<rparr>"
  let ?c = "wit_record 64"
  define m' where "m' = ?m \<lparr>seq = 1, edata = zeroRecord\<rparr> \<lparr>seq = 1, edata = zeroRecord\<rparr> 0 1"
  define m1 where "m1 = ?m \<lparr>seq = 2, edata = zeroRecord\<rparr> \<lparr>seq = 1, edata = zeroRecord\<rparr> 1 1"
  define m2 where "m2 = ?m \<lparr>seq = 1, edata = ?c\<rparr> \<lparr>seq = 1, edata = zeroRecord\<rparr> 1 1"
  define m3 where "m3 = ?m \<lparr>seq = 1, edata = ?c\<rparr> \<lparr>seq = 2, edata = ?c\<rparr> 1 2"
  define m4 where "m4 = ?m \<lparr>seq = 1, edata = ?c\<rparr> \<lparr>seq = 3, edata = ?c\<rparr> 2 2"
  note ops = Enqueue_def Dequeue_def claimProducer_def claimConsumer_def claimProducerLoop.simps claimConsumerLoop.simps
    claimProducerSlow.simps claimConsumerSlow.simps
    publish_def release_def notifyConsumers_def notifyProducers_def set_seq_def set_data_def slot_seq_def slot_data_def slot_index_def Let_def
    wit_stuck_def wit_h_def
  have hyps: "handle_ok wit_h" "length (slots wit_stuck) = unat (h_size wit_h)" "stuckAt wit_h wit_stuck" "0 < ac_StuckSlotTimeout wit_acfg"
    "\<not> ss_seen ?st" "\<forall>t \<in> set [500000000]. t - 0 < ac_StuckSlotTimeout wit_acfg" "ac_StuckSlotTimeout wit_acfg \<le> 2000000000 - 0"
    by (code_simp, simp_all add: wit_stuck_def wit_h_def stuckAt_def slot_seq_def slot_index_def wit_acfg_def hqq_consts)
  note g = stuck_slot_recovered [OF hyps]
  have wedged: "slot_seq wit_h (rg_r wit_stuck + h_size wit_h) m4 = rg_r wit_stuck + 1"
    "rg_w m4 = rg_r wit_stuck + h_size wit_h" "rg_r m4 = rg_r wit_stuck + h_size wit_h"
    by (simp_all add: m4_def ops)
  have "recoverRun wit_acfg wit_h [0, 500000000, 2000000000] ?st wit_stuck = (1, \<lparr>ss_seen = False, ss_pos = 0, ss_since = 0\<rparr>, m')"
    by (simp add: m'_def ops recoverStuckSlot_def WakeAll_def wakeAll_def wakeWord_def wit_acfg_def hqq_consts)
  moreover have "Dequeue wit_h [] m' = Some (zeroRecord, m1, [])" by (simp add: ops m'_def m1_def)
  moreover have "publish wit_h 0 (set_data wit_h 0 ?c m1) = (m2, [])" by (simp add: ops m1_def m2_def)
  moreover have "Enqueue wit_h [] ?c m2 = Some (m3, [])" by (simp add: ops m2_def m3_def)
  moreover have "Dequeue wit_h [] m3 = Some (?c, m4, [])" by (simp add: ops m3_def m4_def)
  moreover have "claimProducer wit_h ?q m4 = None \<and> claimConsumer wit_h ?q m4 = None" by (simp add: ops m4_def)
  moreover have "\<forall>t st e. recoverStuckSlot wit_acfg wit_h t e st m4 = (False, st\<lparr>ss_seen := False\<rparr>, m4, [])"
    using spec [OF spec [OF conjunct2 [OF conjunct2 [OF conjunct2 [OF g]]], of m4], of "[]"] wedged by auto
  ultimately show ?thesis by blast
qed

theorem recovered_record_is_stale_witness:
  "\<exists>m1 m2 m3 m4 m5 st m6 m7.
    Enqueue wit_h [] (wit_record 64) (wit_stuck\<lparr>rg_w := 0\<rparr>) = Some (m1, []) \<and> Dequeue wit_h [] m1 = Some (wit_record 64, m2, [])
    \<and> Enqueue wit_h [] zeroRecord m2 = Some (m3, []) \<and> Dequeue wit_h [] m3 = Some (zeroRecord, m4, [])
    \<and> claimProducer wit_h [] m4 = Some (Inr 2, m5)
    \<and> recoverRun wit_acfg wit_h [0, 2000000000] \<lparr>ss_seen = False, ss_pos = 0, ss_since = 0\<rparr> m5 = (1, st, m6)
    \<and> Dequeue wit_h [] m6 = Some (wit_record 64, m7, [])"
proof -
  have t: "ac_StuckSlotTimeout wit_acfg = 2000000000" by (simp add: wit_acfg_def hqq_consts)
  have st: "wit_h = \<lparr>h_mask = 1, h_size = 2, h_stride = 64, h_policy = WaitAdaptive, h_parker = False\<rparr>" by (simp add: wit_h_def)
  let ?m = "wit_stuck\<lparr>rg_w := 0\<rparr>"
  have m: "slots ?m = [\<lparr>seq = 0, edata = zeroRecord\<rparr>, \<lparr>seq = 1, edata = zeroRecord\<rparr>]" "rg_r ?m = 0" "rg_w ?m = 0"
    "emptyWaiters ?m = 0" "fullWaiters ?m = 0" by (simp_all add: wit_stuck_def)
  have pos: "0 < ac_StuckSlotTimeout wit_acfg" by (simp add: t)
  show ?thesis
    using recovered_record_is_stale [OF st m pos wit_record_valid, of zeroRecord] unfolding t by blast
qed

end
