(* ===== verification/Connect.thy ===== *)
theory Connect
  imports Acceptor
begin

text \<open>
  Connecting (\<^verbatim>\<open>src/connect.go\<close> and the client side of \<^verbatim>\<open>src/listener.go\<close>): the configuration, the retry
  loops of \<^verbatim>\<open>Dial\<close> and \<^verbatim>\<open>Connect\<close>, one attempt of \<^verbatim>\<open>Connect\<close> against a listener, and the handshake the
  acceptor runs for it. Opening a named link and negotiating are inputs, by their outcomes.
\<close>

section \<open>Configuration\<close>

definition DefaultBufferCount :: int where [hqq_consts]: "DefaultBufferCount = 256"
definition DefaultBufferSize :: int where [hqq_consts]: "DefaultBufferSize = 4096"

record Config =
  cg_BufferCount :: int
  cg_BufferSize :: int
  cg_Perm :: nat
  cg_Features :: u64
  cg_Link :: LinkOptions      \<comment> \<open>\<^verbatim>\<open>Advanced.Link\<close>\<close>

definition config_normalized :: "Config \<Rightarrow> Config" where
  "config_normalized c =
     c\<lparr>cg_BufferCount := (if cg_BufferCount c = 0 then DefaultBufferCount else cg_BufferCount c),
       cg_BufferSize := (if cg_BufferSize c = 0 then DefaultBufferSize else cg_BufferSize c),
       cg_Perm := (if cg_Perm c = 0 then 384 else cg_Perm c),
       cg_Features := (if cg_Features c = FeatureNone then supportedFeatures else cg_Features c)\<rparr>"

section \<open>Retrying\<close>

definition dialRetryable :: "err \<Rightarrow> bool" where
  "dialRetryable er \<longleftrightarrow> Is er OsErrNotExist \<or> Is er errSegmentNotReady \<or> Is er errInitContended \<or> Is er errNoLiveEndpoint"

definition connectRetryable :: "err \<Rightarrow> bool" where
  "connectRetryable er \<longleftrightarrow>
     Is er OsErrNotExist \<or> Is er errSegmentNotReady \<or> Is er errListenerNotReady \<or> Is er errListenerDead"

text \<open>
  \<^verbatim>\<open>Listen\<close> and one attempt of \<^verbatim>\<open>Dial\<close>: the outcome of opening and, for an open link, of negotiating. An
  attempt is \<open>Inl\<close> of an error that may be retried or \<open>Inr\<close> of what the call returns.
\<close>

definition Listen_link :: "err + 'l \<Rightarrow> err option \<Rightarrow> err + 'l" where
  "Listen_link opened neg =
     (case opened of Inl er \<Rightarrow> Inl er | Inr l \<Rightarrow> (case neg of Some er \<Rightarrow> Inl er | None \<Rightarrow> Inr l))"

text \<open>
  The loops: one element per attempt, its outcome (for \<^verbatim>\<open>Dial\<close> with the outcome of the negotiation)
  and the error of the context when it is done before the pause ends. The result lists the pauses;
  \<open>None\<close>: still trying.
\<close>

fun connectLoop :: "int \<Rightarrow> ((err + 'l) \<times> err option) list \<Rightarrow> ((err + 'l) \<times> int list) option" where
  "connectLoop backoff [] = None"
| "connectLoop backoff ((Inr l, c) # atts) = Some (Inr l, [])"
| "connectLoop backoff ((Inl er, c) # atts) =
     (if \<not> connectRetryable er then Some (Inl er, [])
      else case c of
        Some ce \<Rightarrow> Some (Inl ce, [backoff])
      | None \<Rightarrow> map_option (\<lambda>(r, ps). (r, backoff # ps)) (connectLoop (min (backoff * 2) (100 * ms)) atts))"

fun dialLoop :: "int \<Rightarrow> ((err + 'l) \<times> err option \<times> err option) list \<Rightarrow> ((err + 'l) \<times> int list) option" where
  "dialLoop backoff [] = None"
| "dialLoop backoff ((Inr l, neg, c) # atts) = Some (case neg of Some er \<Rightarrow> Inl er | None \<Rightarrow> Inr l, [])"
| "dialLoop backoff ((Inl er, neg, c) # atts) =
     (if \<not> dialRetryable er then Some (Inl er, [])
      else case c of
        Some ce \<Rightarrow> Some (Inl ce, [backoff])
      | None \<Rightarrow> map_option (\<lambda>(r, ps). (r, backoff # ps)) (dialLoop (min (backoff * 2) (100 * ms)) atts))"

definition Connect_link :: "Config \<Rightarrow> ((err + 'l) \<times> err option) list \<Rightarrow> ((err + 'l) \<times> int list) option" where
  "Connect_link cfg atts =
     (let c = config_normalized cfg in
      if \<not> validConfig (cg_BufferCount c) (cg_BufferSize c) then Some (Inl ErrInvalidSize, [])
      else connectLoop ms atts)"

definition Dial_link :: "((err + 'l) \<times> err option \<times> err option) list \<Rightarrow> ((err + 'l) \<times> int list) option" where
  "Dial_link atts = dialLoop ms atts"

section \<open>One attempt to connect\<close>

definition mapCtxErr :: "err option \<Rightarrow> err \<Rightarrow> err werr \<Rightarrow> err" where
  "mapCtxErr ctxErr canceled er =
     (if er = ErrCanceled then (case ctxErr of Some ce \<Rightarrow> ce | None \<Rightarrow> canceled) else mapWaitErr er)"

definition connectTimeoutError :: err where
  "connectTimeoutError = Wrapped Errors.ErrTimeout"

text \<open>
  The loop that opens the client's segment under a fresh random name: the random words, and the
  outcome of each open (the instance token of the link). The result also lists the segments
  opened, by name.
\<close>

fun openFresh :: "string \<Rightarrow> nat \<Rightarrow> (u64 \<times> (err + u64)) list \<Rightarrow> (err + string \<times> u64) option" where
  "openFresh prefix attempt [] = None"
| "openFresh prefix attempt ((rnd, res) # rest) =
     (case res of
        Inl er \<Rightarrow> if Is er ErrLinkBusy \<and> attempt < 8 then openFresh prefix (Suc attempt) rest else Some (Inl er)
      | Inr inst \<Rightarrow> Some (Inr (newLinkName prefix rnd, inst)))"

text \<open>
  The goroutine that watches the listener while the client waits: every tick sees the state of the
  peer, the clock and header of the watch, and the clock of the deadline. \<open>Some er\<close>: it canceled the
  wait with \<open>er\<close>.
\<close>

fun watchAttach :: "int \<Rightarrow> (PeerState \<times> int \<times> listenerHeader \<times> int) list \<Rightarrow> listenerWatch \<Rightarrow> err option" where
  "watchAttach limit [] w = None"
| "watchAttach limit ((peer, now, h, now2) # ticks) w =
     (if peer \<noteq> PeerNotConnected then None
      else case watch_check now h w of
        (Some er, w') \<Rightarrow> Some er
      | (None, w') \<Rightarrow> if now2 > limit then Some connectTimeoutError else watchAttach limit ticks w')"

record connectObs =
  co_listener :: openListenerObs
  co_opens :: "(u64 \<times> (err + u64)) list"
  co_pid :: u64
  co_turns :: "(connectRecord, err werr) turn list"
  co_ctxErr :: "err option"       \<comment> \<open>\<^verbatim>\<open>ctx.Err()\<close> after a failed enqueue\<close>
  co_canceled :: err              \<comment> \<open>\<^verbatim>\<open>context.Canceled\<close>\<close>
  co_now :: int
  co_ticks :: "(PeerState \<times> int \<times> listenerHeader \<times> int) list"
  co_neg :: "err option"
  co_ctxErr2 :: "err option"      \<comment> \<open>\<^verbatim>\<open>ctx.Err()\<close> after a failed negotiation\<close>

text \<open>
  \<^verbatim>\<open>connectOnce\<close>. The second component is the name of the segment the attempt closed again, if any; the
  third the queue of the listener. The wait is bounded by the attach timeout of the normalized link
  options.
\<close>

definition connectOnce :: "u64 \<Rightarrow> Config \<Rightarrow> connectObs \<Rightarrow> connectRecord mring
     \<Rightarrow> ((err + string \<times> u64) \<times> string option \<times> connectRecord mring) option" where
  "connectOnce ps cfg ob m =
     (let lopts = normalized (cg_Link cfg) in
      case openListener ps lopts (co_listener ob) of
        None \<Rightarrow> None
      | Some (Inl er) \<Rightarrow> Some (Inl er, None, m)
      | Some (Inr lc) \<Rightarrow>
      (case admits ps (cg_BufferCount cfg) (cg_BufferSize cfg) lc of
        Some er \<Rightarrow> Some (Inl er, None, m)
      | None \<Rightarrow>
      (case openFresh (lc_prefix lc) 0 (co_opens ob) of
        None \<Rightarrow> None
      | Some (Inl er) \<Rightarrow> Some (Inl er, None, m)
      | Some (Inr (name, inst)) \<Rightarrow>
      (case setName name \<lparr>clientToken = inst, cr_bufferCount = of_int (cg_BufferCount cfg),
                cr_bufferSize = of_int (cg_BufferSize cfg), cr_features = cg_Features cfg, cr_flags = 0, nameLen = 0,
                clientPID = co_pid ob, cr_reserved = 0, cr_name = replicate listenerMaxNameLen (CHR 0x00)\<rparr> of
        None \<Rightarrow> Some (Inl ErrInvalidName, Some name, m)
      | Some rec \<Rightarrow>
      (case EnqueueZeroCopyCancel (lc_ring lc) (co_turns ob) zeroRecord (\<lambda>_ _. (rec, True)) m of
        None \<Rightarrow> None
      | Some (ZcErr er, m1, ev) \<Rightarrow> Some (Inl (mapCtxErr (co_ctxErr ob) (co_canceled ob) er), Some name, m1)
      | Some (_, m1, ev) \<Rightarrow>
        let cause = watchAttach (co_now ob + AttachTimeout lopts) (co_ticks ob) (lc_watch lc) in
        (case co_neg ob of
           None \<Rightarrow> Some (Inr (name, inst), None, m1)
         | Some er \<Rightarrow>
             Some (Inl (case co_ctxErr2 ob of Some ce \<Rightarrow> ce | None \<Rightarrow> (case cause of Some ce \<Rightarrow> ce | None \<Rightarrow> er)),
                   Some name, m1)))))))"

section \<open>The handshake of the acceptor\<close>

text \<open>
  What a handshake ends with: nothing (the acceptor was closed), a count of \<^verbatim>\<open>Unreachable\<close> or
  \<^verbatim>\<open>HandshakeFailed\<close> (with or without removing the segment of a dead client), or a link to deliver.
\<close>

datatype shakeOut = ShakeClosed | ShakeUnreachable bool | ShakeFailed bool | ShakeLink

definition handshake :: "err + unit \<Rightarrow> bool \<Rightarrow> err option \<Rightarrow> bool \<Rightarrow> shakeOut" where
  "handshake opened closed1 neg closed2 =
     (case opened of
        Inl er \<Rightarrow> if closed1 then ShakeClosed else ShakeUnreachable (Is er errNoLiveEndpoint)
      | Inr _ \<Rightarrow>
          (case neg of
             None \<Rightarrow> ShakeLink
           | Some er \<Rightarrow> if closed2 then ShakeClosed else ShakeFailed (Is er ErrPeerGone)))"

text \<open>\<open>peek\<close>: the creator token of the segment the name refers to now, if it was found.\<close>

definition reapDeadSegment :: "bool \<Rightarrow> err + u64 option \<Rightarrow> u64 \<Rightarrow> bool" where
  "reapDeadSegment namesPersist peek token \<longleftrightarrow> namesPersist \<and> peek = Inr (Some token)"

text \<open>\<^verbatim>\<open>Accept\<close> when its selects see the closed channel, the first waiting link, or the done context.\<close>

datatype acceptSees = SeesLink string | SeesClosed | SeesDone err

definition Accept_link :: "bool \<Rightarrow> acceptSees \<Rightarrow> err + string" where
  "Accept_link closedFirst sees =
     (if closedFirst then Inl ErrAcceptorClosed
      else case sees of SeesLink l \<Rightarrow> Inr l | SeesClosed \<Rightarrow> Inl ErrAcceptorClosed | SeesDone er \<Rightarrow> Inl er)"

section \<open>Properties\<close>

text \<open>An attempt after which the loop of \<^verbatim>\<open>Connect\<close> ends, and what it returns.\<close>

definition attemptEnds :: "(err + 'l) \<times> err option \<Rightarrow> (err + 'l) option" where
  "attemptEnds a =
     (case a of
        (Inr l, c) \<Rightarrow> Some (Inr l)
      | (Inl er, c) \<Rightarrow> if \<not> connectRetryable er then Some (Inl er) else map_option Inl c)"

text \<open>After such an attempt the loop waits, for the pause or for the context.\<close>

definition pausesAfter :: "(err + 'l) \<times> err option \<Rightarrow> bool" where
  "pausesAfter a \<longleftrightarrow> (case fst a of Inl er \<Rightarrow> connectRetryable er | Inr l \<Rightarrow> False)"

lemma connectLoop_pauses:
  assumes "connectLoop (min (2 ^ k * ms) (100 * ms)) atts = Some (r, pauses)"
  shows "\<exists>i < length atts. attemptEnds (atts ! i) = Some r \<and> (\<forall>j < i. attemptEnds (atts ! j) = None)
    \<and> pauses = map (\<lambda>j. min (2 ^ (k + j) * ms) (100 * ms)) [0..<if pausesAfter (atts ! i) then Suc i else i]"
  using assms
proof (induction atts arbitrary: k pauses)
  case (Cons a atts)
  obtain res c where a: "a = (res, c)" by fastforce
  show ?case
  proof (cases "attemptEnds a")
    case (Some r')
    then show ?thesis using Cons.prems
      by (intro exI [of _ 0]) (auto simp: a attemptEnds_def pausesAfter_def split: sum.splits if_splits option.splits)
  next
    case None
    then obtain er where er: "res = Inl er" "connectRetryable er" "c = None"
      by (auto simp: a attemptEnds_def split: sum.splits if_splits)
    have step: "min (min (2 ^ k * ms) (100 * ms) * 2) (100 * ms) = min (2 ^ Suc k * ms) (100 * ms)"
      by (simp add: ms_def min_def)
    obtain ps where ps: "connectLoop (min (2 ^ Suc k * ms) (100 * ms)) atts = Some (r, ps)"
      "pauses = min (2 ^ k * ms) (100 * ms) # ps"
      using Cons.prems er step by (auto simp: a)
    obtain i where i: "i < length atts" "attemptEnds (atts ! i) = Some r" "\<forall>j < i. attemptEnds (atts ! j) = None"
      "ps = map (\<lambda>j. min (2 ^ (Suc k + j) * ms) (100 * ms)) [0..<if pausesAfter (atts ! i) then Suc i else i]"
      using Cons.IH [OF ps(1)] by blast
    have "pauses = map (\<lambda>j. min (2 ^ (k + j) * ms) (100 * ms)) [0..<if pausesAfter ((a # atts) ! Suc i) then Suc (Suc i) else Suc i]"
      unfolding ps(2) i(4) by (simp add: upt_conv_Cons del: upt_Suc) (simp add: map_Suc_upt [symmetric] o_def del: upt_Suc)
    then show ?thesis
      using i(1-3) None by (intro exI [of _ "Suc i"]) (auto simp: nth_Cons split: nat.splits)
  qed
qed simp

lemma connectLoop_ends: "connectLoop b atts \<noteq> None \<longleftrightarrow> (\<exists>a \<in> set atts. attemptEnds a \<noteq> None)"
  by (induction b atts rule: connectLoop.induct)
    (auto simp: attemptEnds_def split: option.splits if_splits)

text \<open>
  C34: The retry loop of \<^verbatim>\<open>Connect\<close> ends as soon as it can: it returns if and only if some attempt succeeds,
  fails for good, or is followed by the end of the context, and then with the result of the first
  such attempt. It pauses after every attempt before that one, and after that one only if it was
  the context that ended the loop; the pauses double from one millisecond up to 100 milliseconds.
\<close>

theorem connect_loop_ends:
  assumes "validConfig (cg_BufferCount (config_normalized cfg)) (cg_BufferSize (config_normalized cfg))"
  shows "(Connect_link cfg atts \<noteq> None \<longleftrightarrow> (\<exists>a \<in> set atts. attemptEnds a \<noteq> None))
    \<and> (\<forall>r pauses. Connect_link cfg atts = Some (r, pauses) \<longrightarrow>
         (\<exists>i < length atts. attemptEnds (atts ! i) = Some r \<and> (\<forall>j < i. attemptEnds (atts ! j) = None)
            \<and> pauses = map (\<lambda>j. min (2 ^ j * ms) (100 * ms)) [0..<if pausesAfter (atts ! i) then Suc i else i]))"
proof -
  have c: "Connect_link cfg atts = connectLoop (min (2 ^ 0 * ms) (100 * ms)) atts"
    using assms by (simp add: Connect_link_def ms_def Let_def)
  show ?thesis unfolding c using connectLoop_ends connectLoop_pauses [of 0 atts] by simp
qed

lemma enqueue_record:
  assumes "ring_inv h m" "ring_len m < unat (h_size h)"
  shows "\<exists>ev. EnqueueZeroCopyCancel h turns z (\<lambda>_ _. (rec, True)) m = Some (ZcOk, enq_state h rec m, ev)"
  by (cases "publish h (rg_w m) (set_data h (rg_w m) rec (m\<lparr>rg_w := rg_w m + 1\<rparr>))")
    (simp add: EnqueueZeroCopyCancel_def claimProducer_free [OF assms] enq_state_def)

text \<open>
  C22: An attempt to connect queues a request that the acceptor admits, or leaves nothing behind. For a
  client that read the header of the acceptor and finds room in the queue: as soon as it has opened
  its segment, exactly one record is appended to the queue, and the acceptor's validation accepts it
  and returns the name of that segment; if the attempt fails after that, the segment is closed
  again, and if it succeeds, the segment is kept.
\<close>

theorem connect_request_valid:
  assumes ps: "0 < ps" "ps \<le> 2 ^ 30" and lc: "clientOf p lc" "lp_prefix p = listenerLinkPrefix lname"
    and opn: "openListener ps (normalized (cg_Link cfg)) (co_listener ob) = Some (Inr lc)"
    and adm: "admits ps (cg_BufferCount cfg) (cg_BufferSize cfg) lc = None"
    and fresh: "openFresh (lc_prefix lc) 0 (co_opens ob) = Some (Inr (name, inst))" "isOwnerToken inst"
    and ring: "ring_inv (lc_ring lc) m" "ring_len m < unat (h_size (lc_ring lc))"
  shows "\<exists>res closed m' rec. connectOnce ps cfg ob m = Some (res, closed, m')
    \<and> ring_abs (lc_ring lc) m' = ring_abs (lc_ring lc) m @ [rec]
    \<and> validate ps (lp_cfg p) (lp_prefix p) rec = Inr name \<and> clientToken rec = inst
    \<and> (case res of Inl er \<Rightarrow> closed = Some name | Inr l \<Rightarrow> l = (name, inst) \<and> closed = None)"
proof -
  have nm: "\<exists>rnd. name = newLinkName (lc_prefix lc) rnd" if "openFresh (lc_prefix lc) k xs = Some (Inr (name, inst))" for k xs
    using that by (induction xs arbitrary: k) (auto split: sum.splits if_splits)
  then obtain rnd where name: "name = newLinkName (lc_prefix lc) rnd" using fresh(1) by blast
  have pre: "lc_prefix lc = listenerLinkPrefix lname" using lc by (simp add: clientOf_def)
  have "length name = length (lc_prefix lc) + 16" by (simp add: name newLinkName_def length_hexDigits hqq_consts)
  then have len: "length name \<le> 184" "name \<noteq> []" using listenerLinkPrefix_length [of lname] by (auto simp: pre)
  let ?r = "\<lparr>clientToken = inst, cr_bufferCount = of_int (cg_BufferCount cfg), cr_bufferSize = of_int (cg_BufferSize cfg),
      cr_features = cg_Features cfg, cr_flags = 0, nameLen = 0, clientPID = co_pid ob, cr_reserved = 0,
      cr_name = replicate listenerMaxNameLen (CHR 0x00)\<rparr>"
  obtain rec where rec: "setName name ?r = Some rec" using len by (simp add: setName_def hqq_consts)
  have cfg: "validConfig (cg_BufferCount cfg) (cg_BufferSize cfg)" using adm by (simp add: admits_def split: if_splits)
  have val: "validate ps (lp_cfg p) (lp_prefix p) rec = Inr name"
    using validate_client_record [OF ps lc fresh(2) cfg rec [unfolded name]] adm by (simp add: name)
  have tok: "clientToken rec = inst" using rec by (auto simp: setName_def split: if_splits)
  obtain ev where enq: "EnqueueZeroCopyCancel (lc_ring lc) (co_turns ob) zeroRecord (\<lambda>_ _. (rec, True)) m
      = Some (ZcOk, enq_state (lc_ring lc) rec m, ev)" using enqueue_record [OF ring] by blast
  have "\<exists>res closed. connectOnce ps cfg ob m = Some (res, closed, enq_state (lc_ring lc) rec m)
      \<and> (case res of Inl er \<Rightarrow> closed = Some name | Inr l \<Rightarrow> l = (name, inst) \<and> closed = None)"
    unfolding connectOnce_def Let_def using opn adm fresh(1) rec enq by (cases "co_neg ob") simp_all
  then show ?thesis using val tok enq_state_refines(2) [OF ring, of rec] by blast
qed

section \<open>Witnesses\<close>

definition wit_config :: Config where
  "wit_config = \<lparr>cg_BufferCount = 64, cg_BufferSize = 4096, cg_Perm = 384, cg_Features = 15, cg_Link = wit_opts roleAny\<rparr>"

theorem connect_loop_ends_witness:
  "\<exists>r pauses. Connect_link wit_config [(Inl errListenerNotReady, None), (Inl OsErrNotExist, None), (Inr ''link'', None)] = Some (r, pauses)
     \<and> pauses = [ms, 2 * ms]"
proof -
  let ?atts = "[(Inl errListenerNotReady, None), (Inl OsErrNotExist, None), (Inr ''link'', None)] :: ((err + string) \<times> err option) list"
  have "cg_BufferCount (config_normalized wit_config) = 64" "cg_BufferSize (config_normalized wit_config) = 4096"
    by (simp_all add: config_normalized_def wit_config_def)
  moreover have "validConfig 64 4096" by code_simp
  ultimately have v: "validConfig (cg_BufferCount (config_normalized wit_config)) (cg_BufferSize (config_normalized wit_config))" by simp
  have "\<exists>a \<in> set ?atts. attemptEnds a \<noteq> None" by (simp add: attemptEnds_def)
  then have "Connect_link wit_config ?atts \<noteq> None" using connect_loop_ends [OF v] by blast
  then obtain r pauses where c: "Connect_link wit_config ?atts = Some (r, pauses)" by auto
  have "\<exists>i < length ?atts. attemptEnds (?atts ! i) = Some r \<and> (\<forall>j < i. attemptEnds (?atts ! j) = None)
      \<and> pauses = map (\<lambda>j. min (2 ^ j * ms) (100 * ms)) [0..<if pausesAfter (?atts ! i) then Suc i else i]"
    by (rule conjunct2 [OF connect_loop_ends [OF v], rule_format, OF c])
  then obtain i where i: "i < length ?atts" "attemptEnds (?atts ! i) = Some r"
    "pauses = map (\<lambda>j. min (2 ^ j * ms) (100 * ms)) [0..<if pausesAfter (?atts ! i) then Suc i else i]" by blast
  have retry: "connectRetryable errListenerNotReady" "connectRetryable OsErrNotExist" by code_simp+
  have "i = 0 \<or> i = 1 \<or> i = 2" using i(1) by auto
  then have "i = 2" using i(2) retry by (auto simp: attemptEnds_def)
  then show ?thesis using c i(3) by (simp add: pausesAfter_def ms_def upt_conv_Cons)
qed

definition wit_published :: listenerHeader where
  "wit_published = (listenerStores wit_lparams (of_int 2000) wit_header)\<lparr>lh_initToken := 0, lh_epoch := 1, lh_state := listenerStateReady\<rparr>"

definition wit_cobs :: connectObs where
  "wit_cobs = \<lparr>co_listener = wit_lobs wit_published (wit_stuck\<lparr>rg_w := 0\<rparr>), co_opens = [(1, Inl ErrLinkBusy), (77, Inr 9)], co_pid = 2,
     co_turns = [], co_ctxErr = None, co_canceled = ExtErr 0, co_now = 0, co_ticks = [], co_neg = Some Errors.ErrTimeout, co_ctxErr2 = None\<rparr>"

lemma wit_queue_ring:
  "ring_inv \<lparr>h_mask = 1, h_size = 2, h_stride = 256, h_policy = WaitAdaptive, h_parker = False\<rparr> (wit_stuck\<lparr>rg_w := 0\<rparr>)"
  by code_simp

theorem connect_request_valid_witness:
  "\<exists>res closed m' rec. connectOnce 4096 wit_config wit_cobs (wit_stuck\<lparr>rg_w := 0\<rparr>) = Some (res, closed, m')
     \<and> validate 4096 wit_acfg (listenerLinkPrefix ''svc'') rec = Inr (newLinkName (listenerLinkPrefix ''svc'') 77) \<and> clientToken rec = 9"
proof -
  let ?m = "wit_stuck\<lparr>rg_w := 0\<rparr>" and ?o = "normalized (wit_opts roleAny)" and ?ob = "wit_lobs wit_published (wit_stuck\<lparr>rg_w := 0\<rparr>)"
  let ?n = "newLinkName (listenerLinkPrefix ''svc'') 77"
  have pub: "publishedBy wit_lparams (of_int 2000) wit_header wit_published"
    unfolding publishedBy_def by (intro exI [of _ 0]) (simp add: wit_published_def wit_header_def)
  have pp: "lp_size wit_lparams = listenerLayoutSize 4096 64" "lp_prefix wit_lparams = listenerLinkPrefix ''svc''"
    "ac_QueueSize wit_acfg = 64" "lp_token wit_lparams = 5" "lp_cfg wit_lparams = wit_acfg"
    by (simp_all add: wit_lparams_def wit_acfg_def)
  have plen: "length (listenerLinkPrefix ''svc'') \<le> listenerMaxPrefixLen" "listenerLinkPrefix ''svc'' \<noteq> []" by code_simp+
  have att: "Attach connectSlotSize acceptorAttachTimeout [(?m, 0)] = Some (Some \<lparr>h_mask = 1, h_size = 2, h_stride = 256, h_policy = WaitAdaptive, h_parker = False\<rparr>)"
    by (simp add: wit_stuck_def stride_connect mpmc_init_def validRingSize_def Let_def)
  have pt: "PeerTimeout ?o = 5 * second" by (simp add: normalized_def wit_opts_def hqq_consts Let_def)
  define lc where "lc = \<lparr>lc_ring = ringSetup ?o False \<lparr>h_mask = 1, h_size = 2, h_stride = 256, h_policy = WaitAdaptive, h_parker = False\<rparr>,
      lc_prefix = listenerLinkPrefix ''svc'', lc_watch = newListenerWatch wit_published (ol_now ?ob) (PeerTimeout ?o),
      lc_maxBufferCount = of_int (ac_MaxBufferCount wit_acfg), lc_maxBufferSize = of_int (ac_MaxBufferSize wit_acfg),
      lc_maxLinkSize = ac_MaxLinkSize wit_acfg\<rparr>"
  have opn: "openListener 4096 ?o ?ob = Some (Inr lc)"
    using openListener_published(1) [OF pub, of 4096 ?ob "wit_opts roleAny" "2 ^ 40"
        "\<lparr>h_mask = 1, h_size = 2, h_stride = 256, h_policy = WaitAdaptive, h_parker = False\<rparr>"] plen wit_layout att
    by (simp add: pp lc_def wit_lobs_def isOwnerToken_def pt hqq_consts del: Attach.simps)
  have lcc: "clientOf wit_lparams lc" by (simp add: clientOf_def lc_def pp)
  have cfg: "cg_BufferCount wit_config = 64" "cg_BufferSize wit_config = 4096" "cg_Link wit_config = wit_opts roleAny"
    "co_listener wit_cobs = ?ob" "co_neg wit_cobs = Some Errors.ErrTimeout" "co_opens wit_cobs = [(1, Inl ErrLinkBusy), (77, Inr 9)]"
    by (simp_all add: wit_config_def wit_cobs_def)
  have adm: "admits 4096 64 4096 lc = None" using wit_client_record(6) by (simp add: admits_def lc_def wit_acfg_def Let_def)
  have fresh: "openFresh (lc_prefix lc) 0 (co_opens wit_cobs) = Some (Inr (?n, 9))"
    unfolding cfg by (simp add: lc_def)
  have rs: "ringSetup ?o False \<lparr>h_mask = 1, h_size = 2, h_stride = 256, h_policy = WaitAdaptive, h_parker = False\<rparr>
      = \<lparr>h_mask = 1, h_size = 2, h_stride = 256, h_policy = WaitAdaptive, h_parker = False\<rparr>"
    by (simp add: ringSetup_def SetWaitPolicy_def ringPolicy_def normalized_def wit_opts_def Let_def)
  have inv: "ring_inv (lc_ring lc) ?m" "ring_len ?m < unat (h_size (lc_ring lc))"
    using wit_queue_ring by (simp_all add: lc_def rs wit_stuck_def ring_len_def)
  have "\<exists>res closed m' rec. connectOnce 4096 wit_config wit_cobs ?m = Some (res, closed, m')
    \<and> ring_abs (lc_ring lc) m' = ring_abs (lc_ring lc) ?m @ [rec]
    \<and> validate 4096 (lp_cfg wit_lparams) (lp_prefix wit_lparams) rec = Inr ?n \<and> clientToken rec = 9
    \<and> (case res of Inl er \<Rightarrow> closed = Some ?n | Inr l \<Rightarrow> l = (?n, 9) \<and> closed = None)"
    using opn adm fresh inv
    by (intro connect_request_valid [OF _ _ lcc pp(2), where ob = wit_cobs]) (simp_all add: cfg isOwnerToken_def hqq_consts)
  then show ?thesis unfolding pp by blast
qed

end
