(* ===== verification/Adv_Message.thy ===== *)
theory Adv_Message
  imports Packet Errors
begin

text \<open>
  Messages of the Advanced Protocol (\<^verbatim>\<open>src/message.go\<close>), the frame flags of \<^verbatim>\<open>src/advanced.go\<close> and
  the metadata block of requests (\<^verbatim>\<open>src/advanced_request.go\<close>). A message owns a buffer of its size
  class; a buffer taken from the pool still holds the bytes of an earlier message, so \<open>get\<close> has the
  recycled buffer, if there is one, as an argument. Payload lengths and offsets, Go \<^verbatim>\<open>int\<close>s that are
  never negative, are naturals.
\<close>

section \<open>Flags and headers\<close>

definition AdvFlagBegin :: u64 where [hqq_consts]: "AdvFlagBegin = 1"
definition AdvFlagEnd :: u64 where [hqq_consts]: "AdvFlagEnd = 2"
definition AdvFlagAbort :: u64 where [hqq_consts]: "AdvFlagAbort = 4"
definition AdvFlagRequest :: u64 where [hqq_consts]: "AdvFlagRequest = 8"
definition AdvFlagResponse :: u64 where [hqq_consts]: "AdvFlagResponse = 16"
definition AdvFlagError :: u64 where [hqq_consts]: "AdvFlagError = 32"
definition AdvFlagMeta :: u64 where [hqq_consts]: "AdvFlagMeta = 64"

definition advancedKnownFlags :: u64 where
  [hqq_consts]: "advancedKnownFlags =
     AdvFlagBegin OR AdvFlagEnd OR AdvFlagAbort OR AdvFlagRequest OR AdvFlagResponse OR AdvFlagError"

record advHeader =
  ah_streamID :: u64
  ah_messageID :: u64
  ah_flags :: u64
  ah_aux :: u64

definition noHeader :: advHeader where
  "noHeader = \<lparr>ah_streamID = 0, ah_messageID = 0, ah_flags = 0, ah_aux = 0\<rparr>"

definition isRequest :: "advHeader \<Rightarrow> bool" where "isRequest h \<longleftrightarrow> ah_flags h AND AdvFlagRequest \<noteq> 0"
definition isResponse :: "advHeader \<Rightarrow> bool" where "isResponse h \<longleftrightarrow> ah_flags h AND AdvFlagResponse \<noteq> 0"
definition isError :: "advHeader \<Rightarrow> bool" where "isError h \<longleftrightarrow> ah_flags h AND AdvFlagError \<noteq> 0"
definition isAbort :: "advHeader \<Rightarrow> bool" where "isAbort h \<longleftrightarrow> ah_flags h AND AdvFlagAbort \<noteq> 0"

section \<open>Size classes\<close>

definition minMessageClass :: nat where [hqq_consts]: "minMessageClass = 6"

definition MaxInt64 :: u64 where [hqq_consts]: "MaxInt64 = 0x7fffffffffffffff"

text \<open>\<^verbatim>\<open>bits.Len64\<close>: the number of bits of the value.\<close>

fun Len :: "nat \<Rightarrow> nat" where
  "Len n = (if n = 0 then 0 else Suc (Len (n div 2)))"

declare Len.simps [simp del]

definition classOf :: "u64 \<Rightarrow> nat" where
  "classOf n = (if n \<le> push_bit minMessageClass 1 then 0 else Len (unat (n - 1)) - minMessageClass)"

definition classSize :: "u64 \<Rightarrow> nat \<Rightarrow> u64" where
  "classSize maxSize c = min (push_bit (c + minMessageClass) 1) maxSize"

text \<open>The number of classes \<^verbatim>\<open>newMsgPool\<close> makes; a pool is its maximum size.\<close>

definition newMsgPool :: "u64 \<Rightarrow> nat" where
  "newMsgPool maxSize = classOf (min maxSize MaxInt64) + 1"

section \<open>Messages\<close>

record msgMeta =
  mm_present :: bool
  mm_hasBudget :: bool
  mm_budget :: int
  mm_recvAt :: int
  mm_caller :: u64
  mm_trace :: bytes

definition noMeta :: msgMeta where
  "noMeta = \<lparr>mm_present = False, mm_hasBudget = False, mm_budget = 0, mm_recvAt = 0, mm_caller = 0,
     mm_trace = replicate 16 0\<rparr>"

record Message =
  ms_hdr :: advHeader
  ms_data :: bytes
  ms_off :: nat
  ms_n :: nat
  ms_class :: nat
  ms_meta :: msgMeta

definition Bytes :: "Message \<Rightarrow> bytes" where
  "Bytes m = slice_of (ms_off m) (ms_n m) (ms_data m)"

text \<open>
  \<^verbatim>\<open>get\<close>: a message of the class of \<open>n\<close>. A recycled one was released, so only its buffer is left of
  it; the buffers of a class have the size of the class.
\<close>

definition pool_get :: "u64 \<Rightarrow> bytes option \<Rightarrow> u64 \<Rightarrow> Message" where
  "pool_get maxSize recycled n =
     (let c = classOf n; sz = unat (classSize maxSize c);
          buf = (case recycled of Some b \<Rightarrow> if length b = sz then b else replicate sz 0 | None \<Rightarrow> replicate sz 0) in
      \<lparr>ms_hdr = noHeader, ms_data = buf, ms_off = 0, ms_n = unat n, ms_class = c, ms_meta = noMeta\<rparr>)"

text \<open>\<^verbatim>\<open>Release\<close>: what is left of the message, which goes back to its class.\<close>

definition Release :: "Message \<Rightarrow> Message" where
  "Release m = m\<lparr>ms_hdr := noHeader, ms_off := 0, ms_n := 0,
     ms_meta := (if mm_present (ms_meta m) then noMeta else ms_meta m)\<rparr>"

section \<open>The metadata block\<close>

definition metaHeaderSize :: nat where [hqq_consts]: "metaHeaderSize = 4"
definition metaTagBudget :: u8 where [hqq_consts]: "metaTagBudget = 1"
definition metaTagCaller :: u8 where [hqq_consts]: "metaTagCaller = 2"
definition metaTagTrace :: u8 where [hqq_consts]: "metaTagTrace = 3"
definition metaMaxBlock :: nat where
  [hqq_consts]: "metaMaxBlock = metaHeaderSize + (2 + 8) + (2 + 8) + (2 + 16)"

record CallOptions =
  co_Caller :: u64
  co_Trace :: bytes

text \<open>The array \<^verbatim>\<open>dst\<close> is zeroed, so the reserved half of the header stays zero.\<close>

definition putMeta :: "int \<Rightarrow> CallOptions \<Rightarrow> bytes option" where
  "putMeta budget opts =
     (let tlv = (if budget > 0 then metaTagBudget # 8 # put64 (of_int budget) else [])
              @ (if co_Caller opts \<noteq> 0 then metaTagCaller # 8 # put64 (co_Caller opts) else [])
              @ (if co_Trace opts \<noteq> replicate 16 0 then metaTagTrace # 16 # co_Trace opts else []) in
      if tlv = [] then None else Some (put16 (of_nat (length tlv)) @ [0, 0] @ tlv))"

text \<open>What the loop of \<^verbatim>\<open>parseMeta\<close> does with one entry, and the loop.\<close>

definition metaEntry :: "u8 \<Rightarrow> bytes \<Rightarrow> msgMeta \<Rightarrow> err + msgMeta" where
  "metaEntry tag value mt =
     (if tag = metaTagBudget then
        if length value \<noteq> 8 then Inl ErrProtocol
        else Inr (mt\<lparr>mm_hasBudget := True, mm_budget := sint (min (get64 value) MaxInt64)\<rparr>)
      else if tag = metaTagCaller then
        if length value \<noteq> 8 then Inl ErrProtocol else Inr (mt\<lparr>mm_caller := get64 value\<rparr>)
      else if tag = metaTagTrace then
        if length value \<noteq> 16 then Inl ErrProtocol else Inr (mt\<lparr>mm_trace := value\<rparr>)
      else Inr mt)"

fun metaLoop :: "bytes \<Rightarrow> msgMeta \<Rightarrow> err + msgMeta" where
  "metaLoop [] mt = Inr mt"
| "metaLoop [b] mt = Inl ErrProtocol"
| "metaLoop (tag # len # tlv) mt =
     (if length tlv < unat len then Inl ErrProtocol
      else case metaEntry tag (take (unat len) tlv) mt of
        Inl er \<Rightarrow> Inl er
      | Inr mt' \<Rightarrow> metaLoop (drop (unat len) tlv) mt')"

definition parseMeta :: "bytes \<Rightarrow> err + (msgMeta \<times> nat)" where
  "parseMeta data =
     (if length data < metaHeaderSize then Inl ErrProtocol
      else
        let fin = metaHeaderSize + unat (get16 (slice_of 0 2 data)) in
        if fin > length data then Inl ErrProtocol
        else case metaLoop (slice_of metaHeaderSize (fin - metaHeaderSize) data) (noMeta\<lparr>mm_present := True\<rparr>) of
          Inl er \<Rightarrow> Inl er
        | Inr mt \<Rightarrow> Inr (mt, fin))"

definition stripMeta :: "int \<Rightarrow> Message \<Rightarrow> err + Message" where
  "stripMeta recvAt m =
     (case parseMeta (take (ms_n m) (ms_data m)) of
        Inl er \<Rightarrow> Inl er
      | Inr (mt, n) \<Rightarrow> Inr (m\<lparr>ms_meta := mt\<lparr>mm_recvAt := recvAt\<rparr>, ms_off := n, ms_n := ms_n m - n\<rparr>))"

section \<open>Size classes hold what is asked of them\<close>

lemma Len_bound: "n < 2 ^ Len n"
proof (induction n rule: Len.induct)
  case (1 n)
  show ?case
  proof (cases "n = 0")
    case False
    with 1 have "n div 2 < 2 ^ Len (n div 2)" by simp
    then have "n < 2 * 2 ^ Len (n div 2)" by linarith
    with False show ?thesis by (subst Len.simps) simp
  qed simp
qed

lemma Len_le: "n < 2 ^ k \<Longrightarrow> Len n \<le> k"
proof (induction n arbitrary: k rule: Len.induct)
  case (1 n)
  show ?case
  proof (cases "n = 0")
    case False
    with "1.prems" obtain j where k: "k = Suc j" by (cases k) auto
    with "1.prems" have "n div 2 < 2 ^ j" by (simp add: less_mult_imp_div_less)
    with False 1 k show ?thesis by (subst Len.simps) simp
  qed (simp add: Len.simps)
qed

lemma Len_mono: "m \<le> n \<Longrightarrow> Len m \<le> Len n"
  using Len_le Len_bound le_less_trans by blast

lemma classOf_nat:
  "classOf n = (if unat n \<le> 64 then 0 else Len (unat n - 1) - 6)"
proof -
  have "unat n > 64 \<Longrightarrow> unat (n - 1) = unat n - 1" by (rule unat_minus_one) auto
  then show ?thesis by (auto simp: classOf_def minMessageClass_def word_le_nat_alt)
qed

lemma classOf_mono: "a \<le> b \<Longrightarrow> classOf a \<le> classOf b"
  unfolding classOf_nat word_le_nat_alt
  by (auto intro: diff_le_mono Len_mono)

text \<open>A size up to \<^verbatim>\<open>MaxInt64\<close> and the maximum has a class of the pool, whose buffers hold it.\<close>

lemma classSize_fits:
  assumes "n \<le> maxSize" "n \<le> MaxInt64"
  shows "n \<le> classSize maxSize (classOf n)" and "classOf n < newMsgPool maxSize"
proof -
  have n63: "unat n < 2 ^ 63" using assms(2) by (simp add: word_le_nat_alt MaxInt64_def)
  have c: "classOf n + 6 < 64"
  proof (cases "unat n \<le> 64")
    case False
    have "Len (unat n - 1) \<le> 63" using n63 by (intro Len_le) simp
    then show ?thesis by (auto simp: classOf_nat)
  qed (simp add: classOf_nat)
  have "unat n \<le> 2 ^ (classOf n + 6)"
  proof (cases "unat n \<le> 64")
    case False
    have "unat n \<le> 2 ^ Len (unat n - 1)" using Len_bound [of "unat n - 1"] False by simp
    also have "\<dots> \<le> 2 ^ (Len (unat n - 1) - 6 + 6)" by (intro power_increasing) simp_all
    finally show ?thesis using False by (simp add: classOf_nat)
  qed (simp add: classOf_nat)
  also have "2 ^ (classOf n + 6) = unat (push_bit (classOf n + 6) 1 :: u64)"
    using unat_pow2 [where ?'a = 64, of "classOf n + 6"] c by (simp add: push_bit_eq_mult)
  finally show "n \<le> classSize maxSize (classOf n)"
    using assms(1) by (simp add: classSize_def minMessageClass_def word_le_nat_alt)
  show "classOf n < newMsgPool maxSize"
    using assms classOf_mono [of n "min maxSize MaxInt64"] by (simp add: newMsgPool_def)
qed

section \<open>The metadata block is read back\<close>

lemma metaLoop_append: "metaLoop xs mt = Inr mt' \<Longrightarrow> metaLoop (xs @ ys) mt = metaLoop ys mt'"
proof (induction xs mt rule: metaLoop.induct)
  case (3 tag len tlv mt)
  then show ?case by (auto split: if_splits sum.splits)
qed simp_all

lemma metaLoop_entry:
  "length v < 256 \<Longrightarrow> metaEntry tag v mt = Inr mt' \<Longrightarrow>
   metaLoop (tag # of_nat (length v) # v) mt = Inr mt'"
  by (simp add: unat_of_nat_self)

definition decodedMeta :: "int \<Rightarrow> CallOptions \<Rightarrow> msgMeta" where
  "decodedMeta budget opts = \<lparr>mm_present = True, mm_hasBudget = 0 < budget, mm_budget = max budget 0,
     mm_recvAt = 0, mm_caller = co_Caller opts, mm_trace = co_Trace opts\<rparr>"

text \<open>One entry of the block: its bytes, and what they do to the metadata.\<close>

lemma budget_value:
  assumes "0 < b" "b < 2 ^ 63"
  shows "sint (min (of_int b :: u64) MaxInt64) = b"
proof -
  have u: "unat (of_int b :: u64) = nat b"
    using assms by (simp add: unsigned_of_int take_bit_int_eq_self)
  have "(of_int b :: u64) \<le> MaxInt64"
    using assms u by (simp add: word_le_nat_alt MaxInt64_def nat_le_iff)
  then show ?thesis using sint_of_int_self [where ?'a = 64, of b] assms by (simp add: min_def)
qed

lemma metaLoop_putMeta:
  assumes "budget < 2 ^ 63" "length (co_Trace opts) = 16"
  shows "metaLoop ((if budget > 0 then metaTagBudget # 8 # put64 (of_int budget) else [])
           @ (if co_Caller opts \<noteq> 0 then metaTagCaller # 8 # put64 (co_Caller opts) else [])
           @ (if co_Trace opts \<noteq> replicate 16 0 then metaTagTrace # 16 # co_Trace opts else []))
         (noMeta\<lparr>mm_present := True\<rparr>) = Inr (decodedMeta budget opts)"
proof -
  let ?b = "if budget > 0 then metaTagBudget # 8 # put64 (of_int budget) else []"
  let ?c = "if co_Caller opts \<noteq> 0 then metaTagCaller # 8 # put64 (co_Caller opts) else []"
  let ?t = "if co_Trace opts \<noteq> replicate 16 0 then metaTagTrace # 16 # co_Trace opts else []"
  let ?m1 = "noMeta\<lparr>mm_present := True, mm_hasBudget := 0 < budget, mm_budget := max budget 0\<rparr>"
  let ?m2 = "?m1\<lparr>mm_caller := co_Caller opts\<rparr>"
  have b: "metaLoop ?b (noMeta\<lparr>mm_present := True\<rparr>) = Inr ?m1"
    using assms(1) by (auto simp: metaEntry_def hqq_consts budget_value [unfolded MaxInt64_def] noMeta_def)
  have c: "metaLoop ?c ?m1 = Inr ?m2"
    by (auto simp: metaEntry_def hqq_consts noMeta_def)
  have t: "metaLoop ?t ?m2 = Inr (decodedMeta budget opts)"
    using assms(2) by (auto simp: metaEntry_def hqq_consts noMeta_def decodedMeta_def)
  show ?thesis by (simp only: metaLoop_append [OF b] metaLoop_append [OF c] t)
qed

lemma parseMeta_block:
  assumes "metaLoop tlv (noMeta\<lparr>mm_present := True\<rparr>) = Inr mt" "length tlv < 2 ^ 16"
  shows "parseMeta (put16 (of_nat (length tlv)) @ [r0, r1] @ tlv @ rest) = Inr (mt, 4 + length tlv)"
proof -
  have "unat (get16 (put16 (of_nat (length tlv)))) = length tlv"
    using assms(2) by (simp add: unat_of_nat_self)
  then show ?thesis
    using assms(1) by (simp add: parseMeta_def metaHeaderSize_def slice_of_def)
qed

lemma parseMeta_bounds:
  "parseMeta data = Inr (mt, n) \<Longrightarrow> 4 \<le> n \<and> n \<le> length data \<and> mm_present mt"
proof -
  have pres: "metaLoop xs m = Inr m' \<Longrightarrow> mm_present m \<Longrightarrow> mm_present m'" for xs m m'
    by (induction xs m rule: metaLoop.induct) (auto simp: metaEntry_def split: if_splits sum.splits)
  assume "parseMeta data = Inr (mt, n)"
  then show ?thesis
    by (auto simp: parseMeta_def metaHeaderSize_def Let_def dest: pres split: if_splits sum.splits)
qed

definition unknownTag :: "u8 \<Rightarrow> bool" where
  "unknownTag t \<longleftrightarrow> t \<noteq> metaTagBudget \<and> t \<noteq> metaTagCaller \<and> t \<noteq> metaTagTrace"

lemma metaLoop_unknown:
  "unknownTag tag \<Longrightarrow> length v < 256 \<Longrightarrow> metaLoop (tag # of_nat (length v) # v @ ys) mt = metaLoop ys mt"
  using metaLoop_append [OF metaLoop_entry, of v tag mt mt ys]
  by (simp add: unknownTag_def metaEntry_def)

lemma putMeta_shape:
  assumes "putMeta budget opts = Some block" "length (co_Trace opts) = 16" "budget < 2 ^ 63"
  obtains tlv where "block = put16 (of_nat (length tlv)) @ [0, 0] @ tlv" "length tlv \<le> 38"
    "metaLoop tlv (noMeta\<lparr>mm_present := True\<rparr>) = Inr (decodedMeta budget opts)"
proof -
  let ?tlv = "(if budget > 0 then metaTagBudget # 8 # put64 (of_int budget) else [])
           @ (if co_Caller opts \<noteq> 0 then metaTagCaller # 8 # put64 (co_Caller opts) else [])
           @ (if co_Trace opts \<noteq> replicate 16 0 then metaTagTrace # 16 # co_Trace opts else [])"
  have "block = put16 (of_nat (length ?tlv)) @ [0, 0] @ ?tlv"
    using assms(1) unfolding putMeta_def Let_def by (metis option.distinct(1) option.inject)
  moreover have "length ?tlv \<le> 38" using assms(2) by simp
  ultimately show ?thesis using that metaLoop_putMeta [OF assms(3,2)] by blast
qed

lemma meta_block_parsed:
  assumes "putMeta budget opts = Some block" "length (co_Trace opts) = 16" "budget < 2 ^ 63"
  shows "length block \<le> metaMaxBlock \<and> parseMeta (block @ payload) = Inr (decodedMeta budget opts, length block)"
proof -
  obtain tlv where tlv: "block = put16 (of_nat (length tlv)) @ [0, 0] @ tlv" "length tlv \<le> 38"
      "metaLoop tlv (noMeta\<lparr>mm_present := True\<rparr>) = Inr (decodedMeta budget opts)"
    using putMeta_shape [OF assms] .
  have "parseMeta (put16 (of_nat (length tlv)) @ [0, 0] @ tlv @ payload) = Inr (decodedMeta budget opts, 4 + length tlv)"
    using tlv(2) by (intro parseMeta_block [OF tlv(3)]) simp
  with tlv show ?thesis by (simp add: hqq_consts)
qed

text \<open>
  C35: the metadata block of a request. The sender makes none exactly when there is nothing to send;
  otherwise the block fits its array and, in front of any payload, is read back with the budget,
  caller and trace it was made from and its own length. A receiver that knows fewer tags reads
  the same from a block with further entries, wherever they stand. Whatever the bytes, a block that
  is accepted lies within the message.
\<close>

theorem meta_roundtrip:
  assumes "length (co_Trace opts) = 16" "budget < 2 ^ 63"
  shows "(putMeta budget opts = None \<longleftrightarrow>
            budget \<le> 0 \<and> co_Caller opts = 0 \<and> co_Trace opts = replicate 16 0) \<and>
    (\<forall>block payload. putMeta budget opts = Some block \<longrightarrow> length block \<le> metaMaxBlock \<and>
       parseMeta (block @ payload) =
         Inr (\<lparr>mm_present = True, mm_hasBudget = 0 < budget, mm_budget = max budget 0, mm_recvAt = 0,
               mm_caller = co_Caller opts, mm_trace = co_Trace opts\<rparr>, length block)) \<and>
    (\<forall>xs tag v ys mt. unknownTag tag \<and> length v < 256 \<and> metaLoop xs noMeta = Inr mt \<longrightarrow>
       metaLoop (xs @ (tag # of_nat (length v) # v) @ ys) noMeta = metaLoop (xs @ ys) noMeta) \<and>
    (\<forall>data mt n. parseMeta data = Inr (mt, n) \<longrightarrow> 4 \<le> n \<and> n \<le> length data)"
proof (intro conjI allI impI)
  show "putMeta budget opts = None \<longleftrightarrow> budget \<le> 0 \<and> co_Caller opts = 0 \<and> co_Trace opts = replicate 16 0"
    by (auto simp: putMeta_def)
next
  fix xs :: bytes and tag and v :: bytes and ys and mt
  assume "unknownTag tag \<and> length v < 256 \<and> metaLoop xs noMeta = Inr mt"
  then show "metaLoop (xs @ (tag # of_nat (length v) # v) @ ys) noMeta = metaLoop (xs @ ys) noMeta"
    using metaLoop_unknown [of tag v ys mt] metaLoop_append [of xs noMeta mt] by simp
qed (use meta_block_parsed [OF _ assms, unfolded decodedMeta_def] parseMeta_bounds in blast)+

theorem meta_roundtrip_witness:
  "\<exists>block. putMeta 5000 \<lparr>co_Caller = 7, co_Trace = replicate 16 0\<rparr> = Some block \<and> length block = 24 \<and>
     parseMeta (block @ [1, 2, 3]) = Inr (\<lparr>mm_present = True, mm_hasBudget = True, mm_budget = 5000, mm_recvAt = 0,
       mm_caller = 7, mm_trace = replicate 16 0\<rparr>, 24)"
proof -
  let ?o = "\<lparr>co_Caller = 7, co_Trace = replicate 16 0\<rparr> :: CallOptions"
  obtain block where b: "putMeta 5000 ?o = Some block" "length block = 24"
    by (simp add: putMeta_def)
  with meta_roundtrip [of ?o 5000] show ?thesis by auto
qed

end
