(* ===== verification/Adv_Chunks.thy ===== *)
theory Adv_Chunks
  imports Adv_Message Listener
begin

text \<open>
  Reassembly of chunked messages on the receive path of an Advanced link (\<^verbatim>\<open>src/advanced_io.go\<close>):
  \<^verbatim>\<open>consumeAdvancedChunk\<close> and the bookkeeping of incomplete, refused and reclaimed messages. The maps
  of the code are association lists with distinct keys, the set of refused keys is a set. What
  a chunk meets from outside is its environment: the clock, a recycled buffer of the pool, and the
  order in which a sweep visits the assemblies.
\<close>

section \<open>State\<close>

definition maxRejectedMessages :: nat where [hqq_consts]: "maxRejectedMessages = 1024"
definition advancedAssemblyOverhead :: u64 where [hqq_consts]: "advancedAssemblyOverhead = 256"
definition advancedAssemblyIdleChunks :: u64 where [hqq_consts]: "advancedAssemblyIdleChunks = 65536"
definition DefaultMaxAdvancedMessageSize :: u64 where [hqq_consts]: "DefaultMaxAdvancedMessageSize = 67108864"
definition defaultReassemblyFactor :: u64 where [hqq_consts]: "defaultReassemblyFactor = 4"

text \<open>The key of a message: its stream, its ID and its kind (request, response or neither).\<close>

type_synonym advancedMessageKey = "u64 \<times> u64 \<times> u64"

record advancedAssembly =
  as_hdr :: advHeader
  as_msg :: Message
  as_size :: u64
  as_next :: u64
  as_seen :: u64
  as_recvAt :: int

definition charge :: "advancedAssembly \<Rightarrow> u64" where
  "charge a = as_size a + advancedAssemblyOverhead"

record reassembly =
  ra_negotiated :: u64
  ra_assemblies :: "(advancedMessageKey \<times> advancedAssembly) list"
  ra_assemblyBytes :: u64
  ra_maxReassemblyBytes :: u64
  ra_rejected :: "advancedMessageKey set"
  ra_rejectedOrder :: "advancedMessageKey list"
  ra_rejectedEvicted :: bool
  ra_chunks :: u64
  ra_chunksAtSweep :: u64
  ra_reclaimed :: "advHeader list"
  ra_maxMessageSize :: u64
  ra_dropped :: u64

text \<open>The part of \<^verbatim>\<open>newAdvancedLink\<close> that sets the limits and the empty tables.\<close>

definition newReassembly :: "u64 \<Rightarrow> u64 \<Rightarrow> u64 \<Rightarrow> reassembly" where
  "newReassembly negotiated MaxMessageSize MaxReassemblyBytes =
     (let maxMessageSize = (if MaxMessageSize = 0 then DefaultMaxAdvancedMessageSize else MaxMessageSize);
          product = maxMessageSize * defaultReassemblyFactor;
          maxReassemblyBytes =
            (if MaxReassemblyBytes = 0
             then if product div defaultReassemblyFactor \<noteq> maxMessageSize then -1 else product
             else MaxReassemblyBytes) in
      \<lparr>ra_negotiated = negotiated, ra_assemblies = [], ra_assemblyBytes = 0,
       ra_maxReassemblyBytes = maxReassemblyBytes, ra_rejected = {}, ra_rejectedOrder = [],
       ra_rejectedEvicted = False, ra_chunks = 0, ra_chunksAtSweep = 0, ra_reclaimed = [],
       ra_maxMessageSize = maxMessageSize, ra_dropped = 0\<rparr>)"

record chunkEnv =
  ce_now :: int
  ce_recycled :: "bytes option"
  ce_sweep :: "advancedMessageKey list"

section \<open>The tables\<close>

definition setAssembly :: "advancedMessageKey \<Rightarrow> advancedAssembly \<Rightarrow> reassembly \<Rightarrow> reassembly" where
  "setAssembly key a st =
     st\<lparr>ra_assemblies := (key, a) # filter (\<lambda>x. fst x \<noteq> key) (ra_assemblies st)\<rparr>"

definition dropAssembly :: "advancedMessageKey \<Rightarrow> reassembly \<Rightarrow> reassembly" where
  "dropAssembly key st =
     (case map_of (ra_assemblies st) key of
        None \<Rightarrow> st
      | Some a \<Rightarrow> st\<lparr>ra_assemblyBytes := ra_assemblyBytes st - charge a,
                     ra_assemblies := filter (\<lambda>x. fst x \<noteq> key) (ra_assemblies st)\<rparr>)"

definition isRejected :: "advancedMessageKey \<Rightarrow> reassembly \<Rightarrow> bool" where
  "isRejected key st \<longleftrightarrow> key \<in> ra_rejected st"

definition rejectMessage :: "advancedMessageKey \<Rightarrow> reassembly \<Rightarrow> reassembly" where
  "rejectMessage key st =
     (let st1 = (if length (ra_rejectedOrder st) \<ge> maxRejectedMessages
                 then st\<lparr>ra_rejected := ra_rejected st - {hd (ra_rejectedOrder st)},
                         ra_rejectedOrder := tl (ra_rejectedOrder st), ra_rejectedEvicted := True\<rparr>
                 else st) in
      st1\<lparr>ra_rejected := insert key (ra_rejected st1), ra_rejectedOrder := ra_rejectedOrder st1 @ [key]\<rparr>)"

definition forgetRejected :: "advancedMessageKey \<Rightarrow> reassembly \<Rightarrow> bool \<times> reassembly" where
  "forgetRejected key st =
     (if \<not> isRejected key st then (False, st)
      else (True, st\<lparr>ra_rejected := ra_rejected st - {key}, ra_rejectedOrder := remove1 key (ra_rejectedOrder st)\<rparr>))"

definition reclaim :: "advancedMessageKey \<Rightarrow> advancedAssembly \<Rightarrow> reassembly \<Rightarrow> reassembly" where
  "reclaim key a st =
     (let hdr = (as_hdr a)\<lparr>ah_flags := ah_flags (as_hdr a) OR AdvFlagAbort\<rparr>;
          st1 = rejectMessage key (dropAssembly key st);
          st2 = st1\<lparr>ra_dropped := ra_dropped st1 + 1\<rparr> in
      if isRequest hdr \<or> isResponse hdr then st2\<lparr>ra_reclaimed := ra_reclaimed st2 @ [hdr]\<rparr> else st2)"

text \<open>The loop of \<^verbatim>\<open>reclaimIdle\<close> over the keys in the order of the sweep.\<close>

fun reclaimSweep :: "u64 \<Rightarrow> advancedMessageKey list \<Rightarrow> reassembly \<Rightarrow> reassembly" where
  "reclaimSweep need [] st = st"
| "reclaimSweep need (key # keys) st =
     (case map_of (ra_assemblies st) key of
        None \<Rightarrow> reclaimSweep need keys st
      | Some a \<Rightarrow>
          if ra_assemblyBytes st \<le> ra_maxReassemblyBytes st - need then st
          else if ra_chunks st - as_seen a \<ge> advancedAssemblyIdleChunks
          then reclaimSweep need keys (reclaim key a st)
          else reclaimSweep need keys st)"

definition reclaimIdle :: "advancedMessageKey list \<Rightarrow> u64 \<Rightarrow> reassembly \<Rightarrow> reassembly" where
  "reclaimIdle sweep need st =
     (if need > ra_maxReassemblyBytes st \<or> ra_assemblyBytes st \<le> ra_maxReassemblyBytes st - need then st
      else if ra_chunks st - ra_chunksAtSweep st < max advancedAssemblyIdleChunks (of_nat (length (ra_assemblies st)))
      then st
      else reclaimSweep need sweep (st\<lparr>ra_chunksAtSweep := ra_chunks st\<rparr>))"

section \<open>Consuming a chunk\<close>

datatype chunkOutcome = ChunkPartial | ChunkComplete | ChunkAborted | ChunkRefused

type_synonym chunkRes = "(Message option \<times> advHeader \<times> chunkOutcome \<times> err option) \<times> reassembly"

text \<open>The operands of the frame, under their names.\<close>

record chunk =
  ck_conn :: u64
  ck_id :: u64
  ck_total :: u64
  ck_off :: u64
  ck_size :: u64
  ck_flags :: u64
  ck_aux :: u64

definition chunkOf :: "Packet \<Rightarrow> chunk" where
  "chunkOf p = \<lparr>ck_conn = Operand p 0, ck_id = Operand p 1, ck_total = Operand p 2, ck_off = Operand p 3,
     ck_size = Operand p 4, ck_flags = Operand p 5, ck_aux = Operand p 6\<rparr>"

definition chunkKey :: "chunk \<Rightarrow> advancedMessageKey" where
  "chunkKey c = (ck_conn c, ck_id c, ck_flags c AND (AdvFlagRequest OR AdvFlagResponse))"

definition badFlags :: "u64 \<Rightarrow> u64 \<Rightarrow> bool" where
  "badFlags negotiated flags \<longleftrightarrow>
     (let known = (if negotiated AND FeatureMetadata \<noteq> 0 then advancedKnownFlags OR AdvFlagMeta else advancedKnownFlags) in
      flags AND NOT known \<noteq> 0
      \<or> flags AND AdvFlagRequest \<noteq> 0 \<and> flags AND AdvFlagResponse \<noteq> 0
      \<or> flags AND AdvFlagError \<noteq> 0 \<and> flags AND AdvFlagResponse = 0
      \<or> flags AND AdvFlagMeta \<noteq> 0 \<and> flags AND AdvFlagRequest = 0)"

definition chunkSizeErr :: "u64 \<Rightarrow> nat \<Rightarrow> chunk \<Rightarrow> err option" where
  "chunkSizeErr maxMessageSize buflen c =
     (if unat (ck_size c) > buflen \<or> ck_off c > ck_total c \<or> ck_size c > ck_total c - ck_off c
      then Some ErrInvalidSize
      else if maxMessageSize > 0 \<and> ck_total c > maxMessageSize then Some ErrBufferOverflow
      else if ck_total c = 0 \<and> (ck_off c \<noteq> 0 \<or> ck_size c \<noteq> 0
          \<or> ck_flags c AND (AdvFlagBegin OR AdvFlagEnd) \<noteq> AdvFlagBegin OR AdvFlagEnd)
      then Some ErrInvalidSize
      else if ck_total c > 0 \<and> ck_size c = 0 then Some ErrInvalidSize
      else if ck_off c \<noteq> 0 \<and> ck_aux c \<noteq> 0 then Some ErrInvalidSize
      else if ck_total c > MaxInt64 then Some ErrBufferOverflow
      else None)"

definition chunkHeader :: "chunk \<Rightarrow> u64 \<Rightarrow> advHeader" where
  "chunkHeader c flags =
     \<lparr>ah_streamID = ck_conn c, ah_messageID = ck_id c, ah_flags = flags, ah_aux = ck_aux c\<rparr>"

definition chunkFail :: "advancedMessageKey \<Rightarrow> err \<Rightarrow> reassembly \<Rightarrow> chunkRes" where
  "chunkFail key er st =
     ((None, noHeader, ChunkPartial, Some er), snd (forgetRejected key (dropAssembly key st)))"

text \<open>A message that is complete, with its metadata block stripped if it has one.\<close>

definition finishMessage :: "int \<Rightarrow> Message \<Rightarrow> reassembly \<Rightarrow> chunkRes" where
  "finishMessage recvAt m st =
     (if ah_flags (ms_hdr m) AND AdvFlagMeta \<noteq> 0
      then case stripMeta recvAt m of
             Inl er \<Rightarrow> ((None, noHeader, ChunkPartial, Some er), st)
           | Inr m' \<Rightarrow> ((Some m', ms_hdr m', ChunkComplete, None), st)
      else ((Some m, ms_hdr m, ChunkComplete, None), st))"

text \<open>A message in one chunk.\<close>

definition singleChunk :: "chunkEnv \<Rightarrow> chunk \<Rightarrow> bytes \<Rightarrow> reassembly \<Rightarrow> chunkRes" where
  "singleChunk env c buffer st =
     (if ck_size c \<noteq> ck_total c then chunkFail (chunkKey c) ErrInvalidSize st
      else
        let m = pool_get (ra_maxMessageSize st) (ce_recycled env) (ck_total c);
            m1 = m\<lparr>ms_hdr := chunkHeader c (ck_flags c), ms_data := put_at 0 (take (unat (ck_size c)) buffer) (ms_data m)\<rparr> in
        finishMessage (ce_now env) m1 st)"

text \<open>A chunk of the assembly \<open>a\<close> of its message.\<close>

definition addChunk :: "chunk \<Rightarrow> bytes \<Rightarrow> advancedAssembly \<Rightarrow> reassembly \<Rightarrow> chunkRes" where
  "addChunk c buffer a st =
     (let key = chunkKey c; a1 = a\<lparr>as_seen := ra_chunks st\<rparr>; st1 = setAssembly key a1 st in
      if ck_off c \<noteq> as_next a \<or> as_size a \<noteq> ck_total c then chunkFail key ErrInvalidSize st1
      else
        let m = (as_msg a)\<lparr>ms_data := put_at (unat (ck_off c)) (take (unat (ck_size c)) buffer) (ms_data (as_msg a))\<rparr>;
            a2 = a1\<lparr>as_msg := m, as_next := as_next a + ck_size c\<rparr>; st2 = setAssembly key a2 st in
        if ck_flags c AND AdvFlagEnd = 0 then ((None, noHeader, ChunkPartial, None), st2)
        else if as_next a2 \<noteq> ck_total c then chunkFail key ErrInvalidSize st2
        else
          let hdr = (as_hdr a)\<lparr>ah_flags := ah_flags (as_hdr a) OR (AdvFlagBegin OR AdvFlagEnd)\<rparr> in
          finishMessage (as_recvAt a) (m\<lparr>ms_hdr := hdr\<rparr>) (dropAssembly key st2))"

text \<open>The first chunk of several: a new assembly, unless it exceeds the limit.\<close>

definition beginAssembly :: "chunkEnv \<Rightarrow> chunk \<Rightarrow> bytes \<Rightarrow> reassembly \<Rightarrow> chunkRes" where
  "beginAssembly env c buffer st =
     (let header = chunkHeader c (ck_flags c AND NOT (AdvFlagBegin OR AdvFlagEnd));
          need = ck_total c + advancedAssemblyOverhead;
          st1 = reclaimIdle (ce_sweep env) need st in
      if need > ra_maxReassemblyBytes st1 \<or> ra_assemblyBytes st1 > ra_maxReassemblyBytes st1 - need
      then ((None, header\<lparr>ah_flags := ah_flags header OR AdvFlagAbort\<rparr>, ChunkRefused, None),
            rejectMessage (chunkKey c) st1)
      else
        let a = \<lparr>as_hdr = header, as_msg = pool_get (ra_maxMessageSize st1) (ce_recycled env) (ck_total c),
                 as_size = ck_total c, as_next = 0, as_seen = 0,
                 as_recvAt = (if ck_flags c AND AdvFlagMeta \<noteq> 0 then ce_now env else 0)\<rparr>;
            st2 = setAssembly (chunkKey c) a st1 in
        addChunk c buffer a (st2\<lparr>ra_assemblyBytes := ra_assemblyBytes st2 + need\<rparr>))"

definition consumeAdvancedChunk :: "chunkEnv \<Rightarrow> Packet \<Rightarrow> bytes \<Rightarrow> reassembly \<Rightarrow> chunkRes" where
  "consumeAdvancedChunk env p buffer st0 =
     (let st = st0\<lparr>ra_chunks := ra_chunks st0 + 1\<rparr>; c = chunkOf p; flags = ck_flags c; key = chunkKey c in
      if badFlags (ra_negotiated st) flags then ((None, noHeader, ChunkPartial, Some ErrProtocol), st)
      else if flags AND AdvFlagAbort \<noteq> 0 then
        (case forgetRejected key (dropAssembly key st) of
           (True, st1) \<Rightarrow> ((None, noHeader, ChunkPartial, None), st1)
         | (False, st1) \<Rightarrow> ((None, chunkHeader c flags, ChunkAborted, None), st1))
      else case chunkSizeErr (ra_maxMessageSize st) (length buffer) c of
        Some er \<Rightarrow> chunkFail key er st
      | None \<Rightarrow>
          if flags AND AdvFlagBegin \<noteq> 0 then
            if ck_off c \<noteq> 0 \<or> map_of (ra_assemblies st) key \<noteq> None \<or> isRejected key st
            then chunkFail key ErrInvalidSize st
            else if flags AND AdvFlagEnd \<noteq> 0 then singleChunk env c buffer st
            else beginAssembly env c buffer st
          else case map_of (ra_assemblies st) key of
            Some a \<Rightarrow> addChunk c buffer a st
          | None \<Rightarrow>
              if isRejected key st \<or> ra_rejectedEvicted st
              then ((None, noHeader, ChunkPartial, None),
                    if flags AND AdvFlagEnd \<noteq> 0 then snd (forgetRejected key st) else st)
              else ((None, noHeader, ChunkPartial, Some ErrProtocol), st))"

end
