(* ===== verification/Adv_Reassembly.thy ===== *)
theory Adv_Reassembly
  imports Adv_Chunks
begin

text \<open>
  What reassembly guarantees whatever the peer sends: the well-formedness of its tables and the
  bounds on the memory it holds, and that the messages it hands out lie within their buffers.
\<close>

section \<open>Well-formedness\<close>

definition asm_ok :: "u64 \<Rightarrow> advancedMessageKey \<Rightarrow> advancedAssembly \<Rightarrow> bool" where
  "asm_ok maxSize key a \<longleftrightarrow>
     key = (ah_streamID (as_hdr a), ah_messageID (as_hdr a), ah_flags (as_hdr a) AND (AdvFlagRequest OR AdvFlagResponse))
     \<and> as_next a \<le> as_size a \<and> as_size a \<le> maxSize \<and> as_size a \<le> MaxInt64
     \<and> ms_n (as_msg a) = unat (as_size a) \<and> ms_off (as_msg a) = 0
     \<and> length (ms_data (as_msg a)) = unat (classSize maxSize (classOf (as_size a)))"

definition charged :: "(advancedMessageKey \<times> advancedAssembly) list \<Rightarrow> nat" where
  "charged xs = sum_list (map (\<lambda>x. unat (as_size (snd x)) + 256) xs)"

definition ra_inv :: "reassembly \<Rightarrow> bool" where
  "ra_inv st \<longleftrightarrow>
     0 < ra_maxMessageSize st
     \<and> distinct (map fst (ra_assemblies st))
     \<and> (\<forall>(key, a) \<in> set (ra_assemblies st). asm_ok (ra_maxMessageSize st) key a \<and> key \<notin> ra_rejected st)
     \<and> charged (ra_assemblies st) = unat (ra_assemblyBytes st)
     \<and> ra_assemblyBytes st \<le> ra_maxReassemblyBytes st
     \<and> distinct (ra_rejectedOrder st) \<and> set (ra_rejectedOrder st) = ra_rejected st
     \<and> length (ra_rejectedOrder st) \<le> maxRejectedMessages"

text \<open>What a message handed out satisfies: the payload lies in the buffer of its class.\<close>

definition msg_ok :: "u64 \<Rightarrow> Message \<Rightarrow> bool" where
  "msg_ok maxSize m \<longleftrightarrow> ms_off m + ms_n m \<le> length (ms_data m) \<and> length (ms_data m) \<le> unat maxSize"

lemma unat_charge:
  "as_size a \<le> MaxInt64 \<Longrightarrow> unat (charge a) = unat (as_size a) + 256"
  by (simp add: charge_def advancedAssemblyOverhead_def MaxInt64_def word_le_nat_alt unat_word_ariths)

lemma unat_need:
  "n \<le> MaxInt64 \<Longrightarrow> unat (n + advancedAssemblyOverhead) = unat n + 256"
  by (simp add: advancedAssemblyOverhead_def MaxInt64_def word_le_nat_alt unat_word_ariths)

lemma filter_absent: "map_of xs key = None \<Longrightarrow> filter (\<lambda>x. fst x \<noteq> key) xs = xs"
  by (intro filter_True) (auto simp: map_of_eq_None_iff)

lemma charged_filter:
  "distinct (map fst xs) \<Longrightarrow> map_of xs key = Some a \<Longrightarrow>
   charged xs = charged (filter (\<lambda>x. fst x \<noteq> key) xs) + (unat (as_size a) + 256)"
proof (induction xs)
  case (Cons x xs)
  show ?case
  proof (cases "fst x = key")
    case True
    with Cons.prems(1) have "map_of xs key = None" by (simp add: map_of_eq_None_iff)
    with filter_absent [OF this] True Cons.prems show ?thesis by (simp add: charged_def)
  next
    case False
    with Cons show ?thesis by (simp add: charged_def)
  qed
qed simp

lemma map_of_filter_neq: "map_of (filter (\<lambda>x. fst x \<noteq> key) xs) k = (if k = key then None else map_of xs k)"
  by (induction xs) auto

lemma distinct_fst_filter: "distinct (map fst xs) \<Longrightarrow> distinct (map fst (filter P xs))"
  by (induction xs) auto

section \<open>The operations keep it\<close>

lemma ra_inv_drop: "ra_inv st \<Longrightarrow> ra_inv (dropAssembly key st)"
proof (cases "map_of (ra_assemblies st) key")
  case (Some a)
  assume inv: "ra_inv st"
  from Some have "(key, a) \<in> set (ra_assemblies st)" by (rule map_of_SomeD)
  with inv have a: "as_size a \<le> MaxInt64" by (auto simp: ra_inv_def asm_ok_def)
  have "charged (ra_assemblies st) = charged (filter (\<lambda>x. fst x \<noteq> key) (ra_assemblies st)) + unat (charge a)"
    using inv charged_filter [OF _ Some] unat_charge [OF a] unfolding ra_inv_def by metis
  moreover have "charged (ra_assemblies st) = unat (ra_assemblyBytes st)" using inv by (simp add: ra_inv_def)
  ultimately have le: "charge a \<le> ra_assemblyBytes st"
    and sum: "charged (filter (\<lambda>x. fst x \<noteq> key) (ra_assemblies st)) = unat (ra_assemblyBytes st - charge a)"
    by (simp_all add: word_le_nat_alt unat_sub)
  have "ra_assemblyBytes st - charge a \<le> ra_maxReassemblyBytes st"
    using le inv by (auto simp: ra_inv_def word_le_nat_alt unat_sub)
  with inv Some sum show ?thesis
    by (auto simp: dropAssembly_def ra_inv_def distinct_fst_filter)
qed (simp add: dropAssembly_def)

lemma drop_simps [simp]:
  "ra_rejected (dropAssembly key st) = ra_rejected st"
  "ra_rejectedOrder (dropAssembly key st) = ra_rejectedOrder st"
  "ra_rejectedEvicted (dropAssembly key st) = ra_rejectedEvicted st"
  "ra_maxMessageSize (dropAssembly key st) = ra_maxMessageSize st"
  "ra_maxReassemblyBytes (dropAssembly key st) = ra_maxReassemblyBytes st"
  "ra_chunks (dropAssembly key st) = ra_chunks st"
  "ra_negotiated (dropAssembly key st) = ra_negotiated st"
  by (simp_all add: dropAssembly_def split: option.split)

lemma map_of_drop: "map_of (ra_assemblies (dropAssembly key st)) k = (if k = key then None else map_of (ra_assemblies st) k)"
  by (auto simp: dropAssembly_def map_of_filter_neq split: option.split)

lemma tl_distinct: "distinct xs \<Longrightarrow> xs \<noteq> [] \<Longrightarrow> distinct (tl xs) \<and> set (tl xs) = set xs - {hd xs}"
  by (cases xs) auto

lemma ra_inv_reject:
  assumes "ra_inv st" "key \<notin> ra_rejected st" "map_of (ra_assemblies st) key = None"
  shows "ra_inv (rejectMessage key st)"
proof -
  have new: "key \<notin> fst ` set (ra_assemblies st)" using assms(3) by (simp add: map_of_eq_None_iff)
  let ?o = "ra_rejectedOrder st"
  have o: "distinct ?o" "set ?o = ra_rejected st" "length ?o \<le> 1024"
    using assms(1) by (simp_all add: ra_inv_def maxRejectedMessages_def)
  have t: "distinct (tl ?o)" "set (tl ?o) = ra_rejected st - {hd ?o}" if "?o \<noteq> []"
    using tl_distinct [OF o(1) that] o(2) by simp_all
  show ?thesis
  proof (cases "length ?o \<ge> 1024")
    case True
    then have "?o \<noteq> []" by auto
    with assms new o t True show ?thesis
      by (auto simp: ra_inv_def rejectMessage_def maxRejectedMessages_def)
  next
    case False
    with assms new o show ?thesis by (auto simp: ra_inv_def rejectMessage_def maxRejectedMessages_def)
  qed
qed

lemma reject_simps [simp]:
  "ra_assemblies (rejectMessage key st) = ra_assemblies st"
  "ra_assemblyBytes (rejectMessage key st) = ra_assemblyBytes st"
  "ra_maxMessageSize (rejectMessage key st) = ra_maxMessageSize st"
  "ra_maxReassemblyBytes (rejectMessage key st) = ra_maxReassemblyBytes st"
  "ra_chunks (rejectMessage key st) = ra_chunks st"
  "ra_negotiated (rejectMessage key st) = ra_negotiated st"
  by (simp_all add: rejectMessage_def Let_def)

lemma ra_inv_forget: "ra_inv st \<Longrightarrow> ra_inv (snd (forgetRejected key st))"
  by (auto simp: forgetRejected_def ra_inv_def length_remove1 set_remove1_eq)

lemma forget_simps [simp]:
  "ra_assemblies (snd (forgetRejected key st)) = ra_assemblies st"
  "ra_assemblyBytes (snd (forgetRejected key st)) = ra_assemblyBytes st"
  "ra_maxMessageSize (snd (forgetRejected key st)) = ra_maxMessageSize st"
  "ra_maxReassemblyBytes (snd (forgetRejected key st)) = ra_maxReassemblyBytes st"
  "ra_negotiated (snd (forgetRejected key st)) = ra_negotiated st"
  by (simp_all add: forgetRejected_def)

text \<open>Fields the invariant does not depend on.\<close>

lemma ra_inv_frame [simp]:
  "ra_inv (st\<lparr>ra_chunks := x\<rparr>) = ra_inv st" "ra_inv (st\<lparr>ra_chunksAtSweep := x\<rparr>) = ra_inv st"
  "ra_inv (st\<lparr>ra_dropped := y\<rparr>) = ra_inv st" "ra_inv (st\<lparr>ra_reclaimed := z\<rparr>) = ra_inv st"
  by (simp_all add: ra_inv_def)

text \<open>A key that has an assembly is not refused, and the other way round.\<close>

lemma ra_inv_rejected: "ra_inv st \<Longrightarrow> map_of (ra_assemblies st) key = Some a \<Longrightarrow> key \<notin> ra_rejected st"
  by (auto simp: ra_inv_def dest!: map_of_SomeD)

lemma reclaim_simps [simp]:
  "ra_maxMessageSize (reclaim key a st) = ra_maxMessageSize st"
  "ra_maxReassemblyBytes (reclaim key a st) = ra_maxReassemblyBytes st"
  "ra_negotiated (reclaim key a st) = ra_negotiated st"
  "ra_chunks (reclaim key a st) = ra_chunks st"
  "ra_assemblies (reclaim key a st) = ra_assemblies (dropAssembly key st)"
  by (simp_all add: reclaim_def Let_def)

lemma rejected_reclaim: "ra_rejected (reclaim key a st) \<subseteq> insert key (ra_rejected st)"
  by (auto simp: reclaim_def rejectMessage_def Let_def)

lemma ra_inv_reclaim:
  "ra_inv st \<Longrightarrow> map_of (ra_assemblies st) key = Some a \<Longrightarrow> ra_inv (reclaim key a st)"
  by (auto simp: reclaim_def Let_def map_of_drop intro!: ra_inv_reject ra_inv_drop dest: ra_inv_rejected)

lemma reclaimSweep_keeps:
  "ra_inv st \<Longrightarrow> ra_inv (reclaimSweep need keys st)
     \<and> ra_maxMessageSize (reclaimSweep need keys st) = ra_maxMessageSize st
     \<and> ra_maxReassemblyBytes (reclaimSweep need keys st) = ra_maxReassemblyBytes st
     \<and> ra_negotiated (reclaimSweep need keys st) = ra_negotiated st
     \<and> ra_chunks (reclaimSweep need keys st) = ra_chunks st
     \<and> (\<forall>k. map_of (ra_assemblies st) k = None \<longrightarrow> map_of (ra_assemblies (reclaimSweep need keys st)) k = None
            \<and> (k \<notin> ra_rejected st \<longrightarrow> k \<notin> ra_rejected (reclaimSweep need keys st)))"
proof (induction need keys st rule: reclaimSweep.induct)
  case (2 need key keys st)
  show ?case
  proof (cases "map_of (ra_assemblies st) key")
    case (Some a)
    have "ra_inv (reclaim key a st)" using 2 Some by (simp add: ra_inv_reclaim)
    moreover have "map_of (ra_assemblies (reclaim key a st)) k = None \<and>
        (k \<notin> ra_rejected st \<longrightarrow> k \<notin> ra_rejected (reclaim key a st))"
      if "map_of (ra_assemblies st) k = None" for k
      using that Some rejected_reclaim [of key a st] by (auto simp: map_of_drop)
    ultimately show ?thesis using 2 Some by simp
  qed (use 2 in simp)
qed simp

lemma reclaimIdle_keeps:
  assumes "ra_inv st"
  shows "ra_inv (reclaimIdle sweep need st)"
    and "ra_maxMessageSize (reclaimIdle sweep need st) = ra_maxMessageSize st"
    and "ra_maxReassemblyBytes (reclaimIdle sweep need st) = ra_maxReassemblyBytes st"
    and "ra_negotiated (reclaimIdle sweep need st) = ra_negotiated st"
    and "ra_chunks (reclaimIdle sweep need st) = ra_chunks st"
    and "map_of (ra_assemblies st) k = None \<Longrightarrow> map_of (ra_assemblies (reclaimIdle sweep need st)) k = None"
    and "map_of (ra_assemblies st) k = None \<Longrightarrow> k \<notin> ra_rejected st \<Longrightarrow> k \<notin> ra_rejected (reclaimIdle sweep need st)"
  using reclaimSweep_keeps [of "st\<lparr>ra_chunksAtSweep := ra_chunks st\<rparr>" need sweep] assms
  by (cases k; simp add: reclaimIdle_def)+

section \<open>A chunk keeps it\<close>

definition res_ok :: "chunkRes \<Rightarrow> bool" where
  "res_ok r \<longleftrightarrow> ra_inv (snd r) \<and>
     (\<forall>m. fst (fst r) = Some m \<longrightarrow> msg_ok (ra_maxMessageSize (snd r)) m)"

lemma res_ok_fail: "ra_inv st \<Longrightarrow> res_ok (chunkFail key er st)"
  by (simp add: res_ok_def chunkFail_def ra_inv_forget ra_inv_drop)

lemma res_ok_none: "ra_inv st \<Longrightarrow> res_ok ((None, x), st)"
  by (simp add: res_ok_def)

lemma res_ok_finish:
  assumes "ra_inv st" "ms_off m = 0" "ms_n m \<le> length (ms_data m)" "length (ms_data m) \<le> unat (ra_maxMessageSize st)"
  shows "res_ok (finishMessage recvAt m st)"
proof (cases "parseMeta (take (ms_n m) (ms_data m))")
  case (Inl er)
  with assms show ?thesis by (simp add: finishMessage_def stripMeta_def res_ok_def msg_ok_def)
next
  case (Inr r)
  obtain mt n where r: "r = (mt, n)" by (cases r)
  have "n \<le> ms_n m" using parseMeta_bounds [of _ mt n] Inr r by fastforce
  with assms Inr r show ?thesis by (simp add: finishMessage_def stripMeta_def res_ok_def msg_ok_def)
qed

lemma setAssembly_simps [simp]:
  "ra_rejected (setAssembly key a st) = ra_rejected st"
  "ra_maxMessageSize (setAssembly key a st) = ra_maxMessageSize st"
  "ra_maxReassemblyBytes (setAssembly key a st) = ra_maxReassemblyBytes st"
  "ra_assemblyBytes (setAssembly key a st) = ra_assemblyBytes st"
  "ra_chunks (setAssembly key a st) = ra_chunks st"
  "ra_negotiated (setAssembly key a st) = ra_negotiated st"
  by (simp_all add: setAssembly_def)

lemma map_of_setAssembly:
  "map_of (ra_assemblies (setAssembly key a st)) k = (if k = key then Some a else map_of (ra_assemblies st) k)"
  by (simp add: setAssembly_def map_of_filter_neq)

text \<open>Replacing an assembly by one of the same size.\<close>

lemma ra_inv_set:
  assumes inv: "ra_inv st" and old: "map_of (ra_assemblies st) key = Some a"
    and new: "asm_ok (ra_maxMessageSize st) key a'" "as_size a' = as_size a"
  shows "ra_inv (setAssembly key a' st)"
proof -
  have d: "distinct (map fst (ra_assemblies st))" using inv by (simp add: ra_inv_def)
  have "charged (ra_assemblies (setAssembly key a' st)) = charged (ra_assemblies st)"
    using charged_filter [OF d old] new(2) by (simp add: setAssembly_def charged_def)
  with inv new(1) ra_inv_rejected [OF inv old] d show ?thesis
    by (auto simp: ra_inv_def setAssembly_def distinct_fst_filter)
qed

text \<open>What the checks on the sizes of a chunk establish.\<close>

lemma chunkSizeErr_none:
  assumes "chunkSizeErr maxSize n c = None" "0 < maxSize"
  shows "unat (ck_size c) \<le> n" "unat (ck_off c) + unat (ck_size c) \<le> unat (ck_total c)"
    "ck_total c \<le> maxSize" "ck_total c \<le> MaxInt64"
  using assms by (auto simp: chunkSizeErr_def word_le_nat_alt not_less unat_sub split: if_splits)

lemma class_fits:
  assumes "n \<le> maxSize" "n \<le> MaxInt64"
  shows "unat n \<le> unat (classSize maxSize (classOf n))" "unat (classSize maxSize (classOf n)) \<le> unat maxSize"
  using classSize_fits(1) [OF assms] by (simp_all add: word_le_nat_alt [symmetric] classSize_def)

lemma res_ok_add:
  assumes inv: "ra_inv st" and a: "map_of (ra_assemblies st) (chunkKey c) = Some a"
    and sz: "chunkSizeErr (ra_maxMessageSize st) (length buffer) c = None"
  shows "res_ok (addChunk c buffer a st)"
proof -
  let ?key = "chunkKey c" and ?max = "ra_maxMessageSize st"
  have max: "0 < ?max" using inv by (simp add: ra_inv_def)
  note sz = chunkSizeErr_none [OF sz max]
  have ok: "asm_ok ?max ?key a" using inv map_of_SomeD [OF a] by (auto simp: ra_inv_def)
  let ?a1 = "a\<lparr>as_seen := ra_chunks st\<rparr>"
  have inv1: "ra_inv (setAssembly ?key ?a1 st)"
    using ok by (intro ra_inv_set [OF inv a]) (simp_all add: asm_ok_def)
  show ?thesis
  proof (cases "ck_off c \<noteq> as_next a \<or> as_size a \<noteq> ck_total c")
    case True
    with inv1 show ?thesis by (simp add: addChunk_def Let_def res_ok_fail)
  next
    case False
    then have off: "ck_off c = as_next a" "as_size a = ck_total c" by simp_all
    let ?d = "put_at (unat (ck_off c)) (take (unat (ck_size c)) buffer) (ms_data (as_msg a))"
    let ?m = "(as_msg a)\<lparr>ms_data := ?d\<rparr>"
    let ?a2 = "?a1\<lparr>as_msg := ?m, as_next := as_next a + ck_size c\<rparr>"
    have cl: "unat (ck_total c) \<le> length (ms_data (as_msg a))" "length (ms_data (as_msg a)) \<le> unat ?max"
      using ok off class_fits [OF sz(3,4)] by (simp_all add: asm_ok_def)
    have len: "length ?d = length (ms_data (as_msg a))"
      using sz(1,2) cl(1) by (intro length_put_at) simp
    have "unat (as_next a + ck_size c) \<le> unat (ck_total c)"
      using sz(2) off(1) unsigned_less [of "ck_total c", where ?'a = nat] by (simp add: unat_plus_if')
    then have "as_next a + ck_size c \<le> ck_total c" by (simp add: word_le_nat_alt)
    then have inv2: "ra_inv (setAssembly ?key ?a2 st)"
      using ok off len by (intro ra_inv_set [OF inv a]) (simp_all add: asm_ok_def)
    have n: "ms_n (as_msg a) \<le> length (ms_data (as_msg a))" "ms_off (as_msg a) = 0"
      using ok off cl(1) by (simp_all add: asm_ok_def)
    have fin: "res_ok (finishMessage (as_recvAt a) (?m\<lparr>ms_hdr := hdr\<rparr>) (dropAssembly ?key (setAssembly ?key ?a2 st)))" for hdr
      using inv2 n len cl(2) by (intro res_ok_finish) (simp_all add: ra_inv_drop)
    show ?thesis
      using False inv2 fin by (auto simp: addChunk_def Let_def intro!: res_ok_fail res_ok_none)
  qed
qed

lemma asm_ok_new:
  assumes "ck_total c \<le> maxSize" "ck_total c \<le> MaxInt64"
  shows "asm_ok maxSize (chunkKey c)
    \<lparr>as_hdr = chunkHeader c (ck_flags c AND NOT (AdvFlagBegin OR AdvFlagEnd)),
     as_msg = pool_get maxSize r (ck_total c), as_size = ck_total c, as_next = 0, as_seen = s, as_recvAt = t\<rparr>"
proof -
  have "(ck_flags c AND NOT (AdvFlagBegin OR AdvFlagEnd)) AND (AdvFlagRequest OR AdvFlagResponse) =
      ck_flags c AND (AdvFlagRequest OR AdvFlagResponse)"
    by (simp add: hqq_consts and.assoc)
  with assms show ?thesis
    by (simp add: asm_ok_def chunkKey_def chunkHeader_def pool_get_def Let_def split: option.split)
qed

lemma ra_inv_new:
  assumes inv: "ra_inv st" and key: "map_of (ra_assemblies st) key = None" "key \<notin> ra_rejected st"
    and a: "asm_ok (ra_maxMessageSize st) key a"
    and room: "unat (ra_assemblyBytes st) + (unat (as_size a) + 256) \<le> unat (ra_maxReassemblyBytes st)"
  shows "ra_inv ((setAssembly key a st)\<lparr>ra_assemblyBytes := ra_assemblyBytes st + (as_size a + advancedAssemblyOverhead)\<rparr>)"
proof -
  have need: "unat (as_size a + advancedAssemblyOverhead) = unat (as_size a) + 256"
    using a by (simp add: unat_need asm_ok_def)
  have "unat (ra_assemblyBytes st + (as_size a + advancedAssemblyOverhead)) =
      unat (ra_assemblyBytes st) + (unat (as_size a) + 256)"
    using room need unsigned_less [of "ra_maxReassemblyBytes st", where ?'a = nat] by (simp add: unat_plus_if')
  then show ?thesis
    using inv key a room
    by (auto simp: ra_inv_def setAssembly_def filter_absent charged_def word_le_nat_alt map_of_eq_None_iff)
qed

lemma res_ok_begin:
  assumes inv: "ra_inv st" and key: "map_of (ra_assemblies st) (chunkKey c) = None" "\<not> isRejected (chunkKey c) st"
    and sz: "chunkSizeErr (ra_maxMessageSize st) (length buffer) c = None"
  shows "res_ok (beginAssembly env c buffer st)"
proof -
  let ?need = "ck_total c + advancedAssemblyOverhead"
  define st1 where "st1 = reclaimIdle (ce_sweep env) ?need st"
  note keep = reclaimIdle_keeps [OF inv, where sweep = "ce_sweep env" and need = ?need, folded st1_def]
  have max: "0 < ra_maxMessageSize st" using inv by (simp add: ra_inv_def)
  note csz = chunkSizeErr_none [OF sz max]
  have k1: "map_of (ra_assemblies st1) (chunkKey c) = None" "chunkKey c \<notin> ra_rejected st1"
    using keep(6,7) key by (simp_all add: isRejected_def)
  show ?thesis
  proof (cases "?need > ra_maxReassemblyBytes st1 \<or> ra_assemblyBytes st1 > ra_maxReassemblyBytes st1 - ?need")
    case True
    then show ?thesis
      using ra_inv_reject [OF keep(1) k1(2,1)]
      by (simp add: beginAssembly_def Let_def res_ok_none flip: st1_def)
  next
    case False
    let ?a = "\<lparr>as_hdr = chunkHeader c (ck_flags c AND NOT (AdvFlagBegin OR AdvFlagEnd)),
       as_msg = pool_get (ra_maxMessageSize st1) (ce_recycled env) (ck_total c),
       as_size = ck_total c, as_next = 0, as_seen = 0,
       as_recvAt = (if ck_flags c AND AdvFlagMeta \<noteq> 0 then ce_now env else 0)\<rparr>"
    let ?st2 = "(setAssembly (chunkKey c) ?a st1)\<lparr>ra_assemblyBytes := ra_assemblyBytes st1 + ?need\<rparr>"
    have ok: "asm_ok (ra_maxMessageSize st1) (chunkKey c) ?a"
      using csz(3,4) keep(2) by (intro asm_ok_new) simp_all
    have "unat (ra_assemblyBytes st1) + (unat (ck_total c) + 256) \<le> unat (ra_maxReassemblyBytes st1)"
    proof -
      have le: "?need \<le> ra_maxReassemblyBytes st1" using False by (simp add: not_less)
      have "unat (ra_assemblyBytes st1) \<le> unat (ra_maxReassemblyBytes st1) - unat ?need"
        using False unat_sub [OF le] by (simp add: not_less word_le_nat_alt)
      then show ?thesis using le unat_need [OF csz(4)] by (simp add: word_le_nat_alt)
    qed
    then have inv2: "ra_inv ?st2" using ra_inv_new [OF keep(1) k1 ok] by simp
    have m2: "map_of (ra_assemblies ?st2) (chunkKey c) = Some ?a" by (simp add: map_of_setAssembly)
    have s2: "chunkSizeErr (ra_maxMessageSize ?st2) (length buffer) c = None" using sz keep(2) by simp
    show ?thesis
      using res_ok_add [OF inv2 m2 s2] False
      by (simp add: beginAssembly_def Let_def flip: st1_def)
  qed
qed

lemma res_ok_single:
  assumes inv: "ra_inv st" and sz: "chunkSizeErr (ra_maxMessageSize st) (length buffer) c = None"
  shows "res_ok (singleChunk env c buffer st)"
proof -
  let ?m = "pool_get (ra_maxMessageSize st) (ce_recycled env) (ck_total c)"
  have max: "0 < ra_maxMessageSize st" using inv by (simp add: ra_inv_def)
  note csz = chunkSizeErr_none [OF sz max]
  note cl = class_fits [OF csz(3,4)]
  have len: "length (ms_data ?m) = unat (classSize (ra_maxMessageSize st) (classOf (ck_total c)))"
    by (simp add: pool_get_def Let_def split: option.split)
  have put: "length (put_at 0 (take (unat (ck_size c)) buffer) (ms_data ?m)) = length (ms_data ?m)"
    using csz(2) cl(1) len by (intro length_put_at) simp
  have n: "ms_off ?m = 0" "ms_n ?m = unat (ck_total c)" by (simp_all add: pool_get_def Let_def)
  show ?thesis
    using inv put len cl n by (auto simp: singleChunk_def Let_def intro!: res_ok_fail res_ok_finish)
qed

lemma consume_keeps:
  assumes "ra_inv st"
  shows "res_ok (consumeAdvancedChunk env p buffer st)"
proof -
  define s where "s = st\<lparr>ra_chunks := ra_chunks st + 1\<rparr>"
  define c where "c = chunkOf p"
  have inv: "ra_inv s" using assms by (simp add: s_def)
  have ab: "ra_inv (snd (forgetRejected (chunkKey c) (dropAssembly (chunkKey c) s)))"
    using inv by (simp add: ra_inv_forget ra_inv_drop)
  show ?thesis
    unfolding consumeAdvancedChunk_def Let_def s_def [symmetric] c_def [symmetric]
    using inv ab
    by (auto simp: ra_inv_forget split: option.split prod.split bool.split
        intro!: res_ok_none res_ok_fail res_ok_single res_ok_begin res_ok_add)
qed

section \<open>Any sequence of chunks\<close>

fun consumeAll :: "(chunkEnv \<times> Packet \<times> bytes) list \<Rightarrow> reassembly
     \<Rightarrow> (Message option \<times> advHeader \<times> chunkOutcome \<times> err option) list \<times> reassembly" where
  "consumeAll [] st = ([], st)"
| "consumeAll ((env, p, buffer) # fs) st =
     (case consumeAdvancedChunk env p buffer st of
        (out, st1) \<Rightarrow> (case consumeAll fs st1 of (outs, st2) \<Rightarrow> (out # outs, st2)))"

lemma ra_inv_fresh: "ra_inv (newReassembly neg mms mrb)"
  by (simp add: newReassembly_def ra_inv_def charged_def Let_def word_gt_0 DefaultMaxAdvancedMessageSize_def)

lemma consume_maxMessageSize:
  "ra_maxMessageSize (snd (consumeAdvancedChunk env p buffer st)) = ra_maxMessageSize st"
  "ra_maxReassemblyBytes (snd (consumeAdvancedChunk env p buffer st)) = ra_maxReassemblyBytes st"
  "ra_negotiated (snd (consumeAdvancedChunk env p buffer st)) = ra_negotiated st"
proof -
  have sweep: "ra_maxMessageSize (reclaimSweep n ks s) = ra_maxMessageSize s \<and>
      ra_maxReassemblyBytes (reclaimSweep n ks s) = ra_maxReassemblyBytes s \<and>
      ra_negotiated (reclaimSweep n ks s) = ra_negotiated s" for n ks s
    by (induction n ks s rule: reclaimSweep.induct) (auto split: option.split)
  have idle: "ra_maxMessageSize (reclaimIdle ks n s) = ra_maxMessageSize s"
    "ra_maxReassemblyBytes (reclaimIdle ks n s) = ra_maxReassemblyBytes s"
    "ra_negotiated (reclaimIdle ks n s) = ra_negotiated s" for n ks s
    by (simp_all add: reclaimIdle_def sweep)
  have fin: "snd (finishMessage t m s) = s" for t m s
    by (simp add: finishMessage_def split: sum.split)
  have fail: "ra_maxMessageSize (snd (chunkFail k er s)) = ra_maxMessageSize s"
    "ra_maxReassemblyBytes (snd (chunkFail k er s)) = ra_maxReassemblyBytes s"
    "ra_negotiated (snd (chunkFail k er s)) = ra_negotiated s" for k er s
    by (simp_all add: chunkFail_def)
  have add: "ra_maxMessageSize (snd (addChunk c b a s)) = ra_maxMessageSize s"
    "ra_maxReassemblyBytes (snd (addChunk c b a s)) = ra_maxReassemblyBytes s"
    "ra_negotiated (snd (addChunk c b a s)) = ra_negotiated s" for c b a s
    by (simp_all add: addChunk_def Let_def fin fail)
  have abort: "snd (case x of (True, s1) \<Rightarrow> (u, s1) | (False, s1) \<Rightarrow> (v, s1)) = snd x" for x u v
    by (cases x) (simp split: bool.split)
  show "ra_maxMessageSize (snd (consumeAdvancedChunk env p buffer st)) = ra_maxMessageSize st"
    "ra_maxReassemblyBytes (snd (consumeAdvancedChunk env p buffer st)) = ra_maxReassemblyBytes st"
    "ra_negotiated (snd (consumeAdvancedChunk env p buffer st)) = ra_negotiated st"
    by (simp_all add: consumeAdvancedChunk_def beginAssembly_def singleChunk_def Let_def add fin fail idle
        abort split: option.split)
qed

lemma consumeAll_keeps:
  assumes "ra_inv st" "consumeAll fs st = (outs, st')"
  shows "ra_inv st' \<and> ra_maxMessageSize st' = ra_maxMessageSize st \<and>
    ra_maxReassemblyBytes st' = ra_maxReassemblyBytes st \<and>
    (\<forall>m hdr oc er. (Some m, hdr, oc, er) \<in> set outs \<longrightarrow> msg_ok (ra_maxMessageSize st) m)"
  using assms
proof (induction fs st arbitrary: outs rule: consumeAll.induct)
  case (2 env p buffer fs st)
  obtain out st1 where c: "consumeAdvancedChunk env p buffer st = (out, st1)" by fastforce
  obtain outs' where r: "consumeAll fs st1 = (outs', st')" "outs = out # outs'"
    using "2.prems"(2) c by (auto split: prod.splits)
  have ok: "res_ok (out, st1)" using consume_keeps [OF "2.prems"(1), of env p buffer] c by simp
  have mx: "ra_maxMessageSize st1 = ra_maxMessageSize st" "ra_maxReassemblyBytes st1 = ra_maxReassemblyBytes st"
    using consume_maxMessageSize [of env p buffer st] c by simp_all
  have ih: "ra_inv st' \<and> ra_maxMessageSize st' = ra_maxMessageSize st1 \<and>
      ra_maxReassemblyBytes st' = ra_maxReassemblyBytes st1 \<and>
      (\<forall>m hdr oc er. (Some m, hdr, oc, er) \<in> set outs' \<longrightarrow> msg_ok (ra_maxMessageSize st1) m)"
    using "2.IH" [OF c [symmetric] _ r(1)] ok by (simp add: res_ok_def)
  then show ?case using ok mx r(2) by (auto simp: res_ok_def) blast
qed simp

section \<open>The headers of the messages handed out\<close>

text \<open>A frame that opens a message, and the last one among the frames \<open>ps\<close> that opened the message \<open>key\<close>.\<close>

definition opens :: "u64 \<Rightarrow> Packet \<Rightarrow> bool" where
  "opens negotiated p \<longleftrightarrow>
     (let flags = ck_flags (chunkOf p) in
      \<not> badFlags negotiated flags \<and> flags AND AdvFlagAbort = 0 \<and> flags AND AdvFlagBegin \<noteq> 0)"

definition lastOpening :: "u64 \<Rightarrow> advancedMessageKey \<Rightarrow> Packet list \<Rightarrow> Packet option" where
  "lastOpening negotiated key ps = find (\<lambda>p. opens negotiated p \<and> chunkKey (chunkOf p) = key) (rev ps)"

lemma lastOpening_snoc:
  "lastOpening negotiated key (ps @ [p]) =
     (if opens negotiated p \<and> chunkKey (chunkOf p) = key then Some p else lastOpening negotiated key ps)"
  by (simp add: lastOpening_def)

lemma lastOpening_Some:
  "lastOpening negotiated key ps = Some q \<Longrightarrow> opens negotiated q \<and> chunkKey (chunkOf q) = key"
  by (auto simp: lastOpening_def find_Some_iff)

text \<open>The header of an assembly is that of the frame that opened it.\<close>

definition hdr_inv :: "u64 \<Rightarrow> Packet list \<Rightarrow> reassembly \<Rightarrow> bool" where
  "hdr_inv negotiated ps st \<longleftrightarrow>
     (\<forall>key a. map_of (ra_assemblies st) key = Some a \<longrightarrow>
        (\<exists>q. lastOpening negotiated key ps = Some q
           \<and> as_hdr a = chunkHeader (chunkOf q) (ck_flags (chunkOf q) AND NOT (AdvFlagBegin OR AdvFlagEnd))))"

text \<open>The header of a message whose last frame is the last of \<open>ps\<close>.\<close>

definition hdr_ok :: "u64 \<Rightarrow> Packet list \<Rightarrow> Message option \<times> advHeader \<times> chunkOutcome \<times> err option \<Rightarrow> bool" where
  "hdr_ok negotiated ps out \<longleftrightarrow>
     (case out of
        (None, _) \<Rightarrow> True
      | (Some m, hdr, oc, er) \<Rightarrow>
          oc = ChunkComplete \<and> er = None \<and> ms_hdr m = hdr
          \<and> ck_flags (chunkOf (last ps)) AND AdvFlagEnd \<noteq> 0
          \<and> (\<exists>q. lastOpening negotiated (chunkKey (chunkOf (last ps))) ps = Some q
               \<and> hdr = chunkHeader (chunkOf q) (ck_flags (chunkOf q) OR (AdvFlagBegin OR AdvFlagEnd))))"

lemma hdr_ok_none [simp]: "hdr_ok negotiated ps (None, x)"
  by (simp add: hdr_ok_def)

lemma hdr_ok_fail [simp]: "hdr_ok negotiated ps (fst (chunkFail key er st))"
  by (simp add: chunkFail_def)

lemma finish_hdr:
  "fst (fst (finishMessage t m st)) = None
   \<or> (\<exists>m'. fst (finishMessage t m st) = (Some m', ms_hdr m, ChunkComplete, None) \<and> ms_hdr m' = ms_hdr m)"
  by (auto simp: finishMessage_def stripMeta_def split: sum.split prod.split)

lemma snd_finish [simp]: "snd (finishMessage t m st) = st"
  by (simp add: finishMessage_def split: sum.split)

lemma hdr_ok_finish:
  assumes "ck_flags (chunkOf p) AND AdvFlagEnd \<noteq> 0" "lastOpening negotiated (chunkKey (chunkOf p)) (ps @ [p]) = Some q"
    "ms_hdr m = chunkHeader (chunkOf q) (ck_flags (chunkOf q) OR (AdvFlagBegin OR AdvFlagEnd))"
  shows "hdr_ok negotiated (ps @ [p]) (fst (finishMessage t m st))"
  using finish_hdr [of t m st] assms by (cases "fst (finishMessage t m st)") (auto simp: hdr_ok_def)

lemma word_split_or: "(f AND NOT b) OR b = f OR (b :: u64)"
  by (rule bit_word_eqI) (auto simp: bit_simps)

lemma flag_or: "(f :: u64) AND 2 ^ n \<noteq> 0 \<Longrightarrow> f OR 2 ^ n = f"
  by (rule bit_word_eqI) (auto simp: and_exp_eq_0_iff_not_bit bit_simps)

lemma flag_bits: "f AND AdvFlagBegin \<noteq> 0 \<Longrightarrow> f OR AdvFlagBegin = f" "f AND AdvFlagEnd \<noteq> 0 \<Longrightarrow> f OR AdvFlagEnd = f"
  using flag_or [of f 0] flag_or [of f 1] by (simp_all add: hqq_consts)

text \<open>The Begin and End flags are always known.\<close>

lemma badFlags_be: "badFlags negotiated (f OR (AdvFlagBegin OR AdvFlagEnd)) = badFlags negotiated f"
proof -
  have z: "(f OR (AdvFlagBegin OR AdvFlagEnd)) AND x = f AND x" if "(AdvFlagBegin OR AdvFlagEnd) AND x = 0" for x
    using that by (simp add: bit.conj_disj_distrib2)
  have "(AdvFlagBegin OR AdvFlagEnd) AND x = 0"
    if "x = AdvFlagRequest \<or> x = AdvFlagResponse \<or> x = AdvFlagError \<or> x = AdvFlagMeta
       \<or> x = NOT advancedKnownFlags \<or> x = NOT (advancedKnownFlags OR AdvFlagMeta)" for x :: u64
    using that by (elim disjE) (simp_all add: hqq_consts)
  then show ?thesis by (simp add: badFlags_def z Let_def)
qed

lemma sweep_sub: "map_of (ra_assemblies (reclaimSweep n ks st)) k = Some a \<Longrightarrow> map_of (ra_assemblies st) k = Some a"
proof (induction n ks st rule: reclaimSweep.induct)
  case (2 n key ks st)
  then show ?case by (auto simp: map_of_drop split: option.splits if_splits)
qed simp

lemma idle_sub: "map_of (ra_assemblies (reclaimIdle ks n st)) k = Some a \<Longrightarrow> map_of (ra_assemblies st) k = Some a"
  using sweep_sub [of n ks "st\<lparr>ra_chunksAtSweep := ra_chunks st\<rparr>" k a] by (simp add: reclaimIdle_def split: if_splits)

lemma hdr_inv_sub:
  assumes "hdr_inv negotiated ps st" "\<And>k a. map_of (ra_assemblies st') k = Some a \<Longrightarrow> map_of (ra_assemblies st) k = Some a"
  shows "hdr_inv negotiated ps st'"
  using assms by (simp add: hdr_inv_def)

lemma hdr_inv_drop: "hdr_inv negotiated ps st \<Longrightarrow> hdr_inv negotiated ps (dropAssembly key st)"
  by (erule hdr_inv_sub) (simp add: map_of_drop split: if_splits)

text \<open>Frames that open no message change no header; one that does leaves its message without an assembly or with its own header.\<close>

lemma hdr_inv_snoc:
  assumes "hdr_inv negotiated ps st" "opens negotiated p \<Longrightarrow> map_of (ra_assemblies st) (chunkKey (chunkOf p)) = None"
  shows "hdr_inv negotiated (ps @ [p]) st"
  using assms by (auto simp: hdr_inv_def lastOpening_snoc)

lemma hdr_inv_fail:
  assumes "hdr_inv negotiated ps st"
  shows "hdr_inv negotiated (ps @ [p]) (snd (chunkFail (chunkKey (chunkOf p)) er st))"
  using assms by (intro hdr_inv_snoc) (simp_all add: chunkFail_def map_of_drop, auto simp: hdr_inv_def map_of_drop split: if_splits)

lemma hdr_inv_set:
  assumes "hdr_inv negotiated ps st" "lastOpening negotiated key ps = Some q"
    "as_hdr a = chunkHeader (chunkOf q) (ck_flags (chunkOf q) AND NOT (AdvFlagBegin OR AdvFlagEnd))"
  shows "hdr_inv negotiated ps (setAssembly key a st)"
  using assms by (auto simp: hdr_inv_def map_of_setAssembly)

lemma add_hdr:
  assumes inv: "hdr_inv negotiated (ps @ [p]) st" and q: "lastOpening negotiated (chunkKey (chunkOf p)) (ps @ [p]) = Some q"
    and a: "as_hdr a = chunkHeader (chunkOf q) (ck_flags (chunkOf q) AND NOT (AdvFlagBegin OR AdvFlagEnd))"
  shows "hdr_inv negotiated (ps @ [p]) (snd (addChunk (chunkOf p) buffer a st))
    \<and> hdr_ok negotiated (ps @ [p]) (fst (addChunk (chunkOf p) buffer a st))"
proof -
  let ?c = "chunkOf p"
  have set: "hdr_inv negotiated (ps @ [p]) (setAssembly (chunkKey ?c) a' st)" if "as_hdr a' = as_hdr a" for a'
    using hdr_inv_set [OF inv q, of a'] a that by simp
  have fail: "hdr_inv negotiated (ps @ [p]) (snd (chunkFail (chunkKey ?c) er (setAssembly (chunkKey ?c) a' st)))"
    if "as_hdr a' = as_hdr a" for a' er
    using hdr_inv_drop [OF set [OF that], of "chunkKey ?c"] by (simp add: chunkFail_def hdr_inv_def)
  have fin: "hdr_ok negotiated (ps @ [p]) (fst (finishMessage t (m\<lparr>ms_hdr := (as_hdr a)\<lparr>ah_flags := ah_flags (as_hdr a) OR (AdvFlagBegin OR AdvFlagEnd)\<rparr>\<rparr>) s))"
    if "ck_flags ?c AND AdvFlagEnd \<noteq> 0" for t m s
    by (rule hdr_ok_finish [OF that q]) (simp add: a chunkHeader_def word_split_or del: bit.de_Morgan_disj)
  show ?thesis
    unfolding addChunk_def Let_def
    using set fail hdr_inv_drop [OF set] fin by (auto simp: hdr_ok_none [where x = "(noHeader, ChunkPartial, None)"])
qed

lemma single_hdr:
  assumes inv: "hdr_inv negotiated (ps @ [p]) st" and last: "lastOpening negotiated (chunkKey (chunkOf p)) (ps @ [p]) = Some p"
    and be: "ck_flags (chunkOf p) AND AdvFlagBegin \<noteq> 0" "ck_flags (chunkOf p) AND AdvFlagEnd \<noteq> 0"
  shows "hdr_inv negotiated (ps @ [p]) (snd (singleChunk env (chunkOf p) buffer st))
    \<and> hdr_ok negotiated (ps @ [p]) (fst (singleChunk env (chunkOf p) buffer st))"
proof -
  let ?c = "chunkOf p"
  have f: "ck_flags ?c OR (AdvFlagBegin OR AdvFlagEnd) = ck_flags ?c"
    using flag_bits(1) [OF be(1)] flag_bits(2) [OF be(2)] by (simp add: or.assoc [symmetric])
  have fin: "hdr_ok negotiated (ps @ [p]) (fst (finishMessage t (m\<lparr>ms_hdr := chunkHeader ?c (ck_flags ?c), ms_data := d\<rparr>) s))" for t m d s
    by (rule hdr_ok_finish [OF be(2) last]) (simp add: f)
  have "hdr_inv negotiated (ps @ [p]) (snd (chunkFail (chunkKey ?c) er st))" for er
    using hdr_inv_drop [OF inv, of "chunkKey ?c"] by (simp add: chunkFail_def hdr_inv_def)
  then show ?thesis using inv fin by (simp add: singleChunk_def Let_def)
qed

lemma begin_hdr:
  assumes inv: "hdr_inv negotiated (ps @ [p]) st" and last: "lastOpening negotiated (chunkKey (chunkOf p)) (ps @ [p]) = Some p"
  shows "hdr_inv negotiated (ps @ [p]) (snd (beginAssembly env (chunkOf p) buffer st))
    \<and> hdr_ok negotiated (ps @ [p]) (fst (beginAssembly env (chunkOf p) buffer st))"
proof -
  let ?c = "chunkOf p"
  have i1: "hdr_inv negotiated (ps @ [p]) (reclaimIdle (ce_sweep env) n st)" for n
    by (rule hdr_inv_sub [OF inv]) (rule idle_sub)
  have rej: "hdr_inv negotiated (ps @ [p]) (rejectMessage k (reclaimIdle (ce_sweep env) n st))" for n k
    using i1 [of n] by (simp add: hdr_inv_def)
  have add: "hdr_inv negotiated (ps @ [p]) (snd (addChunk ?c buffer a ((setAssembly (chunkKey ?c) a (reclaimIdle (ce_sweep env) n st))\<lparr>ra_assemblyBytes := x\<rparr>)))
      \<and> hdr_ok negotiated (ps @ [p]) (fst (addChunk ?c buffer a ((setAssembly (chunkKey ?c) a (reclaimIdle (ce_sweep env) n st))\<lparr>ra_assemblyBytes := x\<rparr>)))"
    if "as_hdr a = chunkHeader ?c (ck_flags ?c AND NOT (AdvFlagBegin OR AdvFlagEnd))" for a n x
    using hdr_inv_set [OF i1 last that, of n] by (intro add_hdr [OF _ last that]) (simp add: hdr_inv_def)
  show ?thesis
    unfolding beginAssembly_def Let_def using rej add by simp
qed

lemma consume_hdr:
  assumes inv: "hdr_inv negotiated ps st" and neg: "ra_negotiated st = negotiated"
  shows "hdr_inv negotiated (ps @ [p]) (snd (consumeAdvancedChunk env p buffer st))
    \<and> hdr_ok negotiated (ps @ [p]) (fst (consumeAdvancedChunk env p buffer st))"
proof -
  define s where "s = st\<lparr>ra_chunks := ra_chunks st + 1\<rparr>"
  define c where "c = chunkOf p"
  let ?key = "chunkKey c" and ?f = "ck_flags c"
  have inv: "hdr_inv negotiated ps s" and neg: "ra_negotiated s = negotiated" using inv neg by (simp_all add: s_def hdr_inv_def)
  note con = consumeAdvancedChunk_def [of env p buffer st, unfolded Let_def, folded s_def c_def, unfolded neg]
  consider (bad) "badFlags negotiated ?f" | (abort) "\<not> badFlags negotiated ?f" "?f AND AdvFlagAbort \<noteq> 0"
    | (size) er where "\<not> badFlags negotiated ?f" "?f AND AdvFlagAbort = 0" "chunkSizeErr (ra_maxMessageSize s) (length buffer) c = Some er"
    | (first) "opens negotiated p" "\<not> badFlags negotiated ?f" "?f AND AdvFlagAbort = 0" "chunkSizeErr (ra_maxMessageSize s) (length buffer) c = None" "?f AND AdvFlagBegin \<noteq> 0"
    | (later) "\<not> badFlags negotiated ?f" "?f AND AdvFlagAbort = 0" "chunkSizeErr (ra_maxMessageSize s) (length buffer) c = None" "?f AND AdvFlagBegin = 0"
    by (cases "chunkSizeErr (ra_maxMessageSize s) (length buffer) c") (auto simp: opens_def c_def Let_def)
  then show ?thesis
  proof cases
    case bad
    then have "\<not> opens negotiated p" by (simp add: opens_def c_def Let_def)
    then show ?thesis using bad hdr_inv_snoc [OF inv, of p] by (simp add: con)
  next
    case abort
    then have no: "\<not> opens negotiated p" by (simp add: opens_def c_def Let_def)
    have "hdr_inv negotiated (ps @ [p]) (snd (forgetRejected ?key (dropAssembly ?key s)))"
      using hdr_inv_snoc [OF hdr_inv_drop [OF inv], of p ?key] no by (simp add: hdr_inv_def)
    then show ?thesis using abort by (cases "forgetRejected ?key (dropAssembly ?key s)") (simp add: con split: bool.split)
  next
    case (size er)
    then show ?thesis using hdr_inv_fail [OF inv, of p er] by (simp add: con c_def)
  next
    case first
    have last: "lastOpening negotiated ?key (ps @ [p]) = Some p" using first(1) by (simp add: lastOpening_snoc c_def)
    show ?thesis
    proof (cases "ck_off c \<noteq> 0 \<or> map_of (ra_assemblies s) ?key \<noteq> None \<or> isRejected ?key s")
      case True
      then show ?thesis using first hdr_inv_fail [OF inv, of p ErrInvalidSize] by (simp add: con c_def)
    next
      case False
      then have none: "map_of (ra_assemblies s) ?key = None" by simp
      have inv': "hdr_inv negotiated (ps @ [p]) s" using hdr_inv_snoc [OF inv, of p] none by (simp add: c_def)
      show ?thesis
      proof (cases "?f AND AdvFlagEnd = 0")
        case True
        show ?thesis using begin_hdr [OF inv' last [unfolded c_def], of env buffer] none first False True
          by (simp add: con c_def)
      next
        case end_: False
        show ?thesis using single_hdr [OF inv' last [unfolded c_def] first(5) [unfolded c_def] end_ [unfolded c_def], of env buffer] first False end_
          by (simp add: con c_def)
      qed
    qed
  next
    case later
    have no: "\<not> opens negotiated p" using later(4) by (simp add: opens_def c_def Let_def)
    have inv': "hdr_inv negotiated (ps @ [p]) s" using hdr_inv_snoc [OF inv, of p] no by simp
    show ?thesis
    proof (cases "map_of (ra_assemblies s) ?key")
      case None
      then show ?thesis using later inv' by (simp add: con hdr_inv_def)
    next
      case (Some a)
      then obtain q where "lastOpening negotiated ?key (ps @ [p]) = Some q"
        "as_hdr a = chunkHeader (chunkOf q) (ck_flags (chunkOf q) AND NOT (AdvFlagBegin OR AdvFlagEnd))"
        using inv' unfolding hdr_inv_def by blast
      then show ?thesis using add_hdr [OF inv', of q a buffer] later Some by (simp add: con c_def)
    qed
  qed
qed

lemma consumeAll_hdr:
  assumes "hdr_inv negotiated ps st" "ra_negotiated st = negotiated" "consumeAll fs st = (outs, st')"
  shows "length outs = length fs \<and> (\<forall>i < length fs. hdr_ok negotiated (ps @ map (\<lambda>f. fst (snd f)) (take (Suc i) fs)) (outs ! i))"
  using assms
proof (induction fs st arbitrary: ps outs rule: consumeAll.induct)
  case (2 env p buffer fs st)
  obtain out st1 where c: "consumeAdvancedChunk env p buffer st = (out, st1)" by fastforce
  obtain outs' where r: "consumeAll fs st1 = (outs', st')" "outs = out # outs'"
    using "2.prems"(3) c by (auto split: prod.splits)
  have h: "hdr_inv negotiated (ps @ [p]) st1" "hdr_ok negotiated (ps @ [p]) out"
    using consume_hdr [OF "2.prems"(1,2), of p env buffer] c by simp_all
  have "ra_negotiated st1 = negotiated" using consume_maxMessageSize(3) [of env p buffer st] c "2.prems"(2) by simp
  then have ih: "length outs' = length fs"
    "\<And>i. i < length fs \<Longrightarrow> hdr_ok negotiated ((ps @ [p]) @ map (\<lambda>f. fst (snd f)) (take (Suc i) fs)) (outs' ! i)"
    using "2.IH" [OF c [symmetric] h(1) _ r(1)] by blast+
  have "hdr_ok negotiated (ps @ map (\<lambda>f. fst (snd f)) (take (Suc i) ((env, p, buffer) # fs))) (outs ! i)"
    if "i < Suc (length fs)" for i
    using that h(2) ih(2) [of "i - 1"] r(2) by (cases i) auto
  then show ?case using ih(1) r(2) by simp
qed simp

text \<open>
  C10: reassembly is well-formed whatever the peer sends: after any sequence of packets and buffers,
  under any clock, any recycled buffers and any sweep order, the charged bytes are the sum over the
  incomplete messages and within the limit; every incomplete message has received no more than it
  announced, and what it announced fits the size limit and its buffer; no refused key has an
  assembly and at most 1024 refused keys are remembered. Every message handed out lies within its
  buffer, which is no larger than the size limit; it is handed out complete and without an error for
  a frame with the End flag, and its header is that of the last frame so far that opened a message
  of the same key, with valid flags, both Begin and End among them.
\<close>

theorem reassembly_well_formed:
  assumes "consumeAll fs (newReassembly negotiated MaxMessageSize MaxReassemblyBytes) = (outs, st)"
  shows "sum_list (map (\<lambda>x. unat (as_size (snd x)) + 256) (ra_assemblies st)) = unat (ra_assemblyBytes st) \<and>
    ra_assemblyBytes st \<le> ra_maxReassemblyBytes st \<and>
    distinct (map fst (ra_assemblies st)) \<and>
    (\<forall>(key, a) \<in> set (ra_assemblies st).
       as_next a \<le> as_size a \<and> as_size a \<le> ra_maxMessageSize st \<and>
       unat (as_size a) \<le> length (ms_data (as_msg a)) \<and> key \<notin> ra_rejected st) \<and>
    set (ra_rejectedOrder st) = ra_rejected st \<and> length (ra_rejectedOrder st) \<le> 1024 \<and>
    length outs = length fs \<and>
    (\<forall>i < length fs. \<forall>m hdr oc er. outs ! i = (Some m, hdr, oc, er) \<longrightarrow>
       ms_off m + ms_n m \<le> length (ms_data m) \<and> length (ms_data m) \<le> unat (ra_maxMessageSize st) \<and>
       oc = ChunkComplete \<and> er = None \<and> ms_hdr m = hdr \<and>
       ck_flags (chunkOf (fst (snd (fs ! i)))) AND AdvFlagEnd \<noteq> 0 \<and>
       (\<exists>q. lastOpening negotiated (chunkKey (chunkOf (fst (snd (fs ! i))))) (map (\<lambda>f. fst (snd f)) (take (Suc i) fs)) = Some q \<and>
          hdr = chunkHeader (chunkOf q) (ck_flags (chunkOf q) OR (AdvFlagBegin OR AdvFlagEnd)) \<and>
          \<not> badFlags negotiated (ah_flags hdr)))"
proof -
  let ?st = "newReassembly negotiated MaxMessageSize MaxReassemblyBytes"
  have inv: "ra_inv st" and out: "\<And>m hdr oc er. (Some m, hdr, oc, er) \<in> set outs \<Longrightarrow> msg_ok (ra_maxMessageSize st) m"
    using consumeAll_keeps [OF ra_inv_fresh assms] by auto
  have asm: "unat (as_size a) \<le> length (ms_data (as_msg a))" if "(key, a) \<in> set (ra_assemblies st)" for key a
    using that inv class_fits(1) [of "as_size a" "ra_maxMessageSize st"] by (auto simp: ra_inv_def asm_ok_def)
  have "hdr_inv negotiated [] ?st" "ra_negotiated ?st = negotiated" by (simp_all add: newReassembly_def Let_def hdr_inv_def)
  note h = consumeAll_hdr [OF this assms]
  have hdr: "oc = ChunkComplete \<and> er = None \<and> ms_hdr m = hdr \<and>
       ck_flags (chunkOf (fst (snd (fs ! i)))) AND AdvFlagEnd \<noteq> 0 \<and>
       (\<exists>q. lastOpening negotiated (chunkKey (chunkOf (fst (snd (fs ! i))))) (map (\<lambda>f. fst (snd f)) (take (Suc i) fs)) = Some q \<and>
          hdr = chunkHeader (chunkOf q) (ck_flags (chunkOf q) OR (AdvFlagBegin OR AdvFlagEnd)) \<and>
          \<not> badFlags negotiated (ah_flags hdr))"
    if i: "i < length fs" "outs ! i = (Some m, hdr, oc, er)" for i m hdr oc er
  proof -
    let ?ps = "map (\<lambda>f. fst (snd f)) (take (Suc i) fs)"
    have l: "last ?ps = fst (snd (fs ! i))" using i(1) by (simp add: take_Suc_conv_app_nth)
    have ok: "hdr_ok negotiated ?ps (Some m, hdr, oc, er)" using h i by auto
    then obtain q where q: "lastOpening negotiated (chunkKey (chunkOf (fst (snd (fs ! i))))) ?ps = Some q"
      "hdr = chunkHeader (chunkOf q) (ck_flags (chunkOf q) OR (AdvFlagBegin OR AdvFlagEnd))" unfolding hdr_ok_def l by auto
    have "\<not> badFlags negotiated (ck_flags (chunkOf q))" using lastOpening_Some [OF q(1)] by (simp add: opens_def Let_def)
    then have "\<not> badFlags negotiated (ah_flags hdr)" by (simp add: q(2) chunkHeader_def badFlags_be)
    then show ?thesis using ok q unfolding hdr_ok_def l by auto
  qed
  have msg: "ms_off m + ms_n m \<le> length (ms_data m) \<and> length (ms_data m) \<le> unat (ra_maxMessageSize st)"
    if "i < length fs" "outs ! i = (Some m, hdr, oc, er)" for i m hdr oc er
    using out [of m hdr oc er] that h nth_mem [of i outs] by (simp add: msg_ok_def)
  have "\<forall>i < length fs. \<forall>m hdr oc er. outs ! i = (Some m, hdr, oc, er) \<longrightarrow>
       ms_off m + ms_n m \<le> length (ms_data m) \<and> length (ms_data m) \<le> unat (ra_maxMessageSize st) \<and>
       oc = ChunkComplete \<and> er = None \<and> ms_hdr m = hdr \<and>
       ck_flags (chunkOf (fst (snd (fs ! i)))) AND AdvFlagEnd \<noteq> 0 \<and>
       (\<exists>q. lastOpening negotiated (chunkKey (chunkOf (fst (snd (fs ! i))))) (map (\<lambda>f. fst (snd f)) (take (Suc i) fs)) = Some q \<and>
          hdr = chunkHeader (chunkOf q) (ck_flags (chunkOf q) OR (AdvFlagBegin OR AdvFlagEnd)) \<and>
          \<not> badFlags negotiated (ah_flags hdr))"
    using hdr msg by blast
  with inv asm conjunct1 [OF h] show ?thesis
    by (fastforce simp: ra_inv_def asm_ok_def charged_def maxRejectedMessages_def)
qed

text \<open>A first chunk of 3 of 5 bytes, then its end: an assembly of 5 + 256 bytes, then the message.\<close>

definition wit_chunk :: "u64 \<Rightarrow> u64 \<Rightarrow> u64 \<Rightarrow> Packet" where
  "wit_chunk off n flags = NewConnCopyPacket 0 1 5 off n flags 0"

definition wit_cenv :: chunkEnv where
  "wit_cenv = \<lparr>ce_now = 0, ce_recycled = None, ce_sweep = []\<rparr>"

theorem reassembly_well_formed_witness:
  "(\<exists>outs st. consumeAll [(wit_cenv, wit_chunk 0 3 AdvFlagBegin, [1, 2, 3, 0])] (newReassembly 0 0 0) = (outs, st) \<and>
     length (ra_assemblies st) = 1 \<and> ra_assemblyBytes st = 261 \<and> ra_assemblyBytes st \<le> ra_maxReassemblyBytes st)
   \<and> (\<exists>outs st m. consumeAll [(wit_cenv, wit_chunk 0 3 AdvFlagBegin, [1, 2, 3, 0]), (wit_cenv, wit_chunk 3 2 AdvFlagEnd, [4, 5])]
       (newReassembly 0 0 0) = (outs, st) \<and>
     outs ! 1 = (Some m, \<lparr>ah_streamID = 0, ah_messageID = 1, ah_flags = 3, ah_aux = 0\<rparr>, ChunkComplete, None))"
proof (intro conjI)
  obtain outs st where r: "consumeAll [(wit_cenv, wit_chunk 0 3 AdvFlagBegin, [1, 2, 3, 0])] (newReassembly 0 0 0) = (outs, st)"
    by fastforce
  have "length (ra_assemblies (snd (outs, st))) = 1 \<and> ra_assemblyBytes (snd (outs, st)) = 261"
    unfolding r [symmetric] by code_simp
  with reassembly_well_formed [OF r] r
  show "\<exists>outs st. consumeAll [(wit_cenv, wit_chunk 0 3 AdvFlagBegin, [1, 2, 3, 0])] (newReassembly 0 0 0) = (outs, st) \<and>
     length (ra_assemblies st) = 1 \<and> ra_assemblyBytes st = 261 \<and> ra_assemblyBytes st \<le> ra_maxReassemblyBytes st" by simp
next
  let ?fs = "[(wit_cenv, wit_chunk 0 3 AdvFlagBegin, [1, 2, 3, 0]), (wit_cenv, wit_chunk 3 2 AdvFlagEnd, [4, 5])]"
  obtain outs st where r: "consumeAll ?fs (newReassembly 0 0 0) = (outs, st)" by fastforce
  have "fst (fst (outs, st) ! 1) \<noteq> None" unfolding r [symmetric] by code_simp
  then obtain m hdr oc er where o: "outs ! 1 = (Some m, hdr, oc, er)" by (cases "outs ! 1") auto
  have q: "lastOpening 0 (chunkKey (chunkOf (wit_chunk 3 2 AdvFlagEnd))) [wit_chunk 0 3 AdvFlagBegin, wit_chunk 3 2 AdvFlagEnd]
      = Some (wit_chunk 0 3 AdvFlagBegin)" by code_simp
  have c: "chunkHeader (chunkOf (wit_chunk 0 3 AdvFlagBegin)) (ck_flags (chunkOf (wit_chunk 0 3 AdvFlagBegin)) OR (AdvFlagBegin OR AdvFlagEnd))
      = \<lparr>ah_streamID = 0, ah_messageID = 1, ah_flags = 3, ah_aux = 0\<rparr>" by code_simp
  have "1 < length ?fs" by simp
  then have "hdr = \<lparr>ah_streamID = 0, ah_messageID = 1, ah_flags = 3, ah_aux = 0\<rparr>" "oc = ChunkComplete" "er = None"
    using reassembly_well_formed [OF r] o q c by auto
  then show "\<exists>outs st m. consumeAll ?fs (newReassembly 0 0 0) = (outs, st) \<and>
      outs ! 1 = (Some m, \<lparr>ah_streamID = 0, ah_messageID = 1, ah_flags = 3, ah_aux = 0\<rparr>, ChunkComplete, None)"
    using r o by blast
qed

end
