(* ===== verification/Adv_Send.thy ===== *)
theory Adv_Send
  imports Adv_Reassembly Connect
begin

text \<open>
  The sending side of an Advanced link (\<^verbatim>\<open>src/advanced_io.go\<close>): a message, with the metadata block of
  a request in front, is published as a sequence of chunk frames on the ring of the Standard link,
  and a message that fails part way is followed by an abort frame. The frames are then those
  of \<^verbatim>\<open>Adv_Chunks\<close>. Lengths and offsets, which stay below the lengths of two slices, are naturals.
\<close>

section \<open>The chunks of a message\<close>

record advMsg =
  am_conn :: u64
  am_id :: u64
  am_flags :: u64
  am_aux :: u64
  am_prefix :: bytes
  am_payload :: bytes

definition totalSize :: "advMsg \<Rightarrow> nat" where
  "totalSize a = length (am_prefix a) + length (am_payload a)"

text \<open>The frame at an offset: its flags, the auxiliary word of the first frame only, and its two parts.\<close>

definition chunkEnd :: "nat \<Rightarrow> advMsg \<Rightarrow> nat \<Rightarrow> nat" where
  "chunkEnd chunkSize a offset = min (offset + chunkSize) (totalSize a)"

definition chunkFlags :: "nat \<Rightarrow> advMsg \<Rightarrow> nat \<Rightarrow> u64" where
  "chunkFlags chunkSize a offset =
     (am_flags a OR (if offset = 0 then AdvFlagBegin else 0))
       OR (if chunkEnd chunkSize a offset = totalSize a then AdvFlagEnd else 0)"

definition chunkHead :: "nat \<Rightarrow> advMsg \<Rightarrow> nat \<Rightarrow> bytes" where
  "chunkHead chunkSize a offset =
     (if offset < length (am_prefix a)
      then slice_of offset (min (chunkEnd chunkSize a offset) (length (am_prefix a)) - offset) (am_prefix a) else [])"

definition chunkTail :: "nat \<Rightarrow> advMsg \<Rightarrow> nat \<Rightarrow> bytes" where
  "chunkTail chunkSize a offset =
     (let e = chunkEnd chunkSize a offset; n = length (am_prefix a) in
      if e > n then slice_of (max offset n - n) (e - max offset n) (am_payload a) else [])"

section \<open>Publishing\<close>

text \<open>\<^verbatim>\<open>sendAdvancedChunk\<close>: both parts are copied to the buffer of the slot, as far as it reaches.\<close>

definition fillChunk :: "(u64 \<Rightarrow> Packet) \<Rightarrow> bytes \<Rightarrow> bytes \<Rightarrow> slotData \<Rightarrow> slotData" where
  "fillChunk packet head tail d =
     (let buf = snd d; h1 = take (length buf) head; t1 = take (length buf - length h1) tail;
          n = length h1 + length t1 in
      (packet (of_nat n), h1 @ t1 @ drop n buf))"

definition sendAdvancedChunk :: "mhandle \<Rightarrow> linkTurn list \<Rightarrow> (u64 \<Rightarrow> Packet) \<Rightarrow> bytes \<Rightarrow> bytes \<Rightarrow> linkRing
     \<Rightarrow> (err werr zc_result \<times> linkRing \<times> wake_event list) option" where
  "sendAdvancedChunk h turns packet head tail m =
     EnqueueZeroCopyCancel h turns (zeroPacket, []) (\<lambda>slot d. (fillChunk packet head tail d, True)) m"

definition chunkPacket :: "nat \<Rightarrow> advMsg \<Rightarrow> nat \<Rightarrow> u64 \<Rightarrow> Packet" where
  "chunkPacket chunkSize a offset n =
     NewConnCopyPacket (am_conn a) (am_id a) (of_nat (totalSize a)) (of_nat offset) n
       (chunkFlags chunkSize a offset) (if offset = 0 then am_aux a else 0)"

definition abortPacket :: "advMsg \<Rightarrow> u64 \<Rightarrow> Packet" where
  "abortPacket a n = NewConnCopyPacket (am_conn a) (am_id a) 0 0 n (AdvFlagAbort OR am_flags a) 0"

text \<open>
  The loop over the offsets; every frame has the turns of its wait, and the abort frame, sent if
  a later frame fails, has its own. The error is that of the wait.
\<close>

fun sendLoop :: "mhandle \<Rightarrow> linkTurn list list \<Rightarrow> linkTurn list \<Rightarrow> nat \<Rightarrow> advMsg \<Rightarrow> nat \<Rightarrow> linkRing
     \<Rightarrow> (err werr option \<times> linkRing \<times> wake_event list) option" where
  "sendLoop h [] abortTurns chunkSize a offset m =
     (if offset < totalSize a then None else Some (None, m, []))"
| "sendLoop h (turns # turnss) abortTurns chunkSize a offset m =
     (if \<not> offset < totalSize a then Some (None, m, [])
      else case sendAdvancedChunk h turns (chunkPacket chunkSize a offset)
                  (chunkHead chunkSize a offset) (chunkTail chunkSize a offset) m of
        None \<Rightarrow> None
      | Some (ZcErr er, m1, ev) \<Rightarrow>
          if offset > 0
          then (case sendAdvancedChunk h abortTurns (abortPacket a) [] [] m1 of
                  None \<Rightarrow> None
                | Some (_, m2, ev2) \<Rightarrow> Some (Some er, m2, ev @ ev2))
          else Some (Some er, m1, ev)
      | Some (_, m1, ev) \<Rightarrow>
          (case sendLoop h turnss abortTurns chunkSize a (offset + chunkSize) m1 of
             None \<Rightarrow> None
           | Some (r, m2, ev2) \<Rightarrow> Some (r, m2, ev @ ev2)))"

text \<open>The wait errors as \<^verbatim>\<open>mapCtxErr\<close> reports them: the error of the context at that time, and the
  one of a canceled context, are arguments.\<close>

record sendEnv =
  se_now :: int
  se_turns :: "linkTurn list list"
  se_abort :: "linkTurn list"
  se_ctxErr :: "err option"
  se_canceled :: err

definition sendAdvancedPayload :: "sendEnv \<Rightarrow> u64 \<Rightarrow> advMsg \<Rightarrow> StandardLink \<Rightarrow> segment
     \<Rightarrow> (err option \<times> StandardLink \<times> segment \<times> wake_event list) option" where
  "sendAdvancedPayload env maxMessageSize a l sg =
     (if maxMessageSize > 0 \<and> of_nat (totalSize a) > maxMessageSize then Some (Some ErrBufferOverflow, l, sg, [])
      else case enterTx True (se_now env) (sg_sb sg) l of
        (Some er, l1) \<Rightarrow> Some (Some er, l1, sg, [])
      | (None, l1) \<Rightarrow>
        if totalSize a = 0 then
          (case sendAdvancedChunk (txHandle l1) (hd (se_turns env))
                  (\<lambda>n. NewConnCopyPacket (am_conn a) (am_id a) 0 0 n
                         ((AdvFlagBegin OR AdvFlagEnd) OR am_flags a) (am_aux a)) [] [] (txRing l1 sg) of
             None \<Rightarrow> None
           | Some (ZcErr er, m, ev) \<Rightarrow>
               Some (Some (mapCtxErr (se_ctxErr env) (se_canceled env) er), exitTx l1, set_txRing l1 m sg, ev)
           | Some (_, m, ev) \<Rightarrow> Some (None, exitTx l1, set_txRing l1 m sg, ev))
        else
          (case sendLoop (txHandle l1) (se_turns env) (se_abort env) (lk_bufferSize l1) a 0 (txRing l1 sg) of
             None \<Rightarrow> None
           | Some (er, m, ev) \<Rightarrow>
               Some (map_option (mapCtxErr (se_ctxErr env) (se_canceled env)) er, exitTx l1, set_txRing l1 m sg, ev)))"

text \<open>\<^verbatim>\<open>nextMessageID\<close>: the generator after it, and the ID, which is never zero.\<close>

definition nextMessageID :: "u64 \<Rightarrow> u64 \<times> u64" where
  "nextMessageID g = (if g + 1 \<noteq> 0 then (g + 1, g + 1) else (g + 2, g + 2))"

section \<open>The frames of a message\<close>

definition numChunks :: "nat \<Rightarrow> advMsg \<Rightarrow> nat" where
  "numChunks cs a = (if totalSize a = 0 then 1 else (totalSize a + cs - 1) div cs)"

text \<open>The bytes of frame \<open>i\<close>, and a slot that carries it.\<close>

definition chunkBytes :: "nat \<Rightarrow> advMsg \<Rightarrow> nat \<Rightarrow> bytes" where
  "chunkBytes cs a i = slice_of (i * cs) cs (am_prefix a @ am_payload a)"

definition carries :: "nat \<Rightarrow> advMsg \<Rightarrow> nat \<Rightarrow> slotData \<Rightarrow> bool" where
  "carries cs a i d \<longleftrightarrow>
     fst d = chunkPacket cs a (i * cs) (of_nat (length (chunkBytes cs a i)))
     \<and> take (length (chunkBytes cs a i)) (snd d) = chunkBytes cs a i \<and> length (snd d) = cs"

lemma take_min_length: "take (min n (length xs)) xs = take n xs"
  by (simp add: min_def)

lemma chunk_parts:
  assumes "offset = i * cs"
  shows "chunkHead cs a offset @ chunkTail cs a offset = chunkBytes cs a i"
proof -
  let ?p = "am_prefix a" and ?q = "am_payload a"
  let ?o = "i * cs"
  have slice: "slice_of ?o cs (?p @ ?q) =
      take cs (drop ?o ?p) @ take (cs - (length ?p - ?o)) (drop (?o - length ?p) ?q)"
    by (simp add: slice_of_def)
  have head: "chunkHead cs a ?o = take cs (drop ?o ?p)"
  proof (cases "?o < length ?p")
    case True
    have "min (chunkEnd cs a ?o) (length ?p) - ?o = min cs (length ?p - ?o)"
      using True by (auto simp: chunkEnd_def totalSize_def)
    with True take_min_length [of cs "drop ?o ?p"] show ?thesis by (simp add: chunkHead_def slice_of_def)
  qed (simp add: chunkHead_def)
  have tail: "chunkTail cs a ?o = take (cs - (length ?p - ?o)) (drop (?o - length ?p) ?q)"
  proof (cases "chunkEnd cs a ?o > length ?p")
    case True
    have n: "chunkEnd cs a ?o - max ?o (length ?p) = min (cs - (length ?p - ?o)) (length ?q - (?o - length ?p))"
      using True by (auto simp: chunkEnd_def totalSize_def)
    have "max ?o (length ?p) - length ?p = ?o - length ?p" by simp
    with n True take_min_length [of "cs - (length ?p - ?o)" "drop (?o - length ?p) ?q"]
    show ?thesis by (simp add: chunkTail_def slice_of_def Let_def)
  next
    case False
    then have "cs - (length ?p - ?o) = 0 \<or> length ?q - (?o - length ?p) = 0"
      by (auto simp: chunkEnd_def totalSize_def)
    with False show ?thesis by (auto simp: chunkTail_def Let_def)
  qed
  show ?thesis using assms by (simp add: chunkBytes_def slice head tail)
qed

lemma length_chunkBytes: "length (chunkBytes cs a i) = min cs (totalSize a - i * cs)"
  by (simp add: chunkBytes_def totalSize_def)

lemma packet_wf_ConnCopy [simp]: "packet_wf (NewConnCopyPacket a b c d e f g)"
  by (simp add: packet_wf_def NewConnCopyPacket_def zeroPacket_def PacketSize_def PacketWordCount_def)

section \<open>Sending on a ring with room\<close>

lemma sendAdvancedChunk_room:
  assumes "ring_inv h m" "ring_len m < unat (h_size h)"
  shows "\<exists>ev. sendAdvancedChunk h turns packet head tail m =
     Some (ZcOk, enq_state h (fillChunk packet head tail (slot_data h (rg_w m) m)) m, ev)"
proof -
  have sd: "slot_data h p (m\<lparr>rg_w := w\<rparr>) = slot_data h p m" for p w by (simp add: slot_data_def)
  show ?thesis
    by (cases "publish h (rg_w m) (set_data h (rg_w m) (fillChunk packet head tail (slot_data h (rg_w m) m)) (m\<lparr>rg_w := rg_w m + 1\<rparr>))")
      (simp add: sendAdvancedChunk_def EnqueueZeroCopyCancel_def claimProducer_free [OF assms] sd enq_state_def)
qed

lemma ring_len_abs: "length (ring_abs h m) = ring_len m"
  by (simp add: ring_abs_def)

lemma more_chunks:
  assumes "0 < cs" "0 < totalSize a"
  shows "i * cs < totalSize a \<longleftrightarrow> i < numChunks cs a"
proof -
  have "i < (totalSize a + cs - 1) div cs \<longleftrightarrow> Suc i * cs \<le> totalSize a + cs - 1"
    using assms(1) by (simp add: Suc_le_eq [symmetric] less_eq_div_iff_mult_less_eq)
  also have "\<dots> \<longleftrightarrow> i * cs < totalSize a" using assms by auto
  finally show ?thesis using assms by (simp add: numChunks_def)
qed

lemma fillChunk_carries:
  assumes "length (snd d) = cs"
  shows "carries cs a i (fillChunk (chunkPacket cs a (i * cs)) (chunkHead cs a (i * cs)) (chunkTail cs a (i * cs)) d)"
proof -
  let ?h = "chunkHead cs a (i * cs)" and ?t = "chunkTail cs a (i * cs)"
  have parts: "?h @ ?t = chunkBytes cs a i" by (rule chunk_parts) simp
  have len: "length ?h + length ?t = min cs (totalSize a - i * cs)"
    using arg_cong [OF parts, of length] by (simp add: length_chunkBytes)
  then have "take cs ?h = ?h" "take (cs - length ?h) ?t = ?t" by simp_all
  then have "fillChunk (chunkPacket cs a (i * cs)) ?h ?t d =
      (chunkPacket cs a (i * cs) (of_nat (length (chunkBytes cs a i))),
       chunkBytes cs a i @ drop (length (chunkBytes cs a i)) (snd d))"
    using assms len by (simp add: fillChunk_def Let_def parts [symmetric] del: of_nat_add)
  then show ?thesis
    using assms by (simp add: carries_def length_chunkBytes)
qed

lemma carries_wf: "carries cs a i d \<Longrightarrow> packet_wf (fst d) \<and> length (snd d) = cs"
  by (auto simp: carries_def chunkPacket_def)

text \<open>One frame on a ring with room: it is appended.\<close>

lemma chunk_appended:
  assumes "chan_inv h cs m" "ring_len m < unat (h_size h)"
  obtains d ev where
    "sendAdvancedChunk h turns (chunkPacket cs a (i * cs)) (chunkHead cs a (i * cs)) (chunkTail cs a (i * cs)) m =
       Some (ZcOk, enq_state h d m, ev)"
    "carries cs a i d" "chan_inv h cs (enq_state h d m)" "ring_abs h (enq_state h d m) = ring_abs h m @ [d]"
    "ring_len (enq_state h d m) = Suc (ring_len m)"
proof -
  let ?d = "fillChunk (chunkPacket cs a (i * cs)) (chunkHead cs a (i * cs)) (chunkTail cs a (i * cs)) (slot_data h (rg_w m) m)"
  have inv: "ring_inv h m" "slots_wf cs m" "cs < 2 ^ 62" using assms(1) by (simp_all add: chan_inv_def)
  have c: "carries cs a i ?d" using slots_wf_data [OF inv(1,2)] by (intro fillChunk_carries)
  note r = enq_state_refines [OF inv(1) assms(2), of ?d]
  have "slots_wf cs (enq_state h ?d m)" using carries_wf [OF c] by (intro enq_state_wf [OF inv(1,2)]) simp_all
  then have ci: "chan_inv h cs (enq_state h ?d m)" using r inv by (simp add: chan_inv_def)
  have "ring_len (enq_state h ?d m) = Suc (ring_len m)"
    using arg_cong [OF r(2), of length] by (simp add: ring_len_abs)
  with sendAdvancedChunk_room [OF inv(1) assms(2)] c ci r(2) that show thesis by metis
qed

lemma sendLoop_room:
  assumes "chan_inv h cs m" "0 < cs" "0 < totalSize a"
    "ring_len m + (numChunks cs a - i) \<le> unat (h_size h)" "numChunks cs a - i \<le> length turnss"
  shows "\<exists>m' ev ds. sendLoop h turnss abortTurns cs a (i * cs) m = Some (None, m', ev) \<and> chan_inv h cs m' \<and>
     ring_abs h m' = ring_abs h m @ ds \<and> length ds = numChunks cs a - i \<and>
     (\<forall>j < length ds. carries cs a (i + j) (ds ! j))"
  using assms
proof (induction turnss arbitrary: i m)
  case Nil
  then show ?case by (simp add: more_chunks)
next
  case (Cons turns turnss)
  note more = more_chunks [OF Cons.prems(2,3)]
  show ?case
  proof (cases "i < numChunks cs a")
    case True
    then have room: "ring_len m < unat (h_size h)" using Cons.prems(4) by simp
    obtain d ev where d: "sendAdvancedChunk h turns (chunkPacket cs a (i * cs)) (chunkHead cs a (i * cs)) (chunkTail cs a (i * cs)) m =
         Some (ZcOk, enq_state h d m, ev)"
      "carries cs a i d" "chan_inv h cs (enq_state h d m)" "ring_abs h (enq_state h d m) = ring_abs h m @ [d]"
      "ring_len (enq_state h d m) = Suc (ring_len m)"
      using chunk_appended [OF Cons.prems(1) room, of turns a i] .
    obtain m' ev' ds where ih: "sendLoop h turnss abortTurns cs a (Suc i * cs) (enq_state h d m) = Some (None, m', ev')"
      "chan_inv h cs m'" "ring_abs h m' = ring_abs h (enq_state h d m) @ ds" "length ds = numChunks cs a - Suc i"
      "\<forall>j < length ds. carries cs a (Suc i + j) (ds ! j)"
    proof -
      have "ring_len (enq_state h d m) + (numChunks cs a - Suc i) \<le> unat (h_size h)" "numChunks cs a - Suc i \<le> length turnss"
        using Cons.prems(4,5) True d(5) by simp_all
      from Cons.IH [OF d(3) Cons.prems(2,3) this] that show thesis by blast
    qed
    have "\<forall>j < length (d # ds). carries cs a (i + j) ((d # ds) ! j)"
      using d(2) ih(5) by (auto simp: nth_Cons split: nat.split)
    then show ?thesis
      using d(1,4) ih True more by (intro exI [of _ m'] exI [of _ "ev @ ev'"] exI [of _ "d # ds"]) (simp add: add.commute)
  next
    case False
    then show ?thesis using more Cons.prems(1) by auto
  qed
qed

text \<open>\<^verbatim>\<open>sendAdvancedPayload\<close> on a link whose transmit ring has room for all frames.\<close>

lemma sendAdvancedPayload_room:
  assumes inv: "chan_inv (txHandle l) (lk_bufferSize l) (txRing l sg)" and cs: "0 < lk_bufferSize l"
    and adm: "enterTx True (se_now env) (sg_sb sg) l = (None, l1)"
    and size: "totalSize a \<le> unat maxSize" "totalSize a < 2 ^ 63"
    and room: "ring_len (txRing l sg) + numChunks (lk_bufferSize l) a \<le> unat (h_size (txHandle l))"
    and turns: "numChunks (lk_bufferSize l) a \<le> length (se_turns env)"
  shows "\<exists>m' ev ds. sendAdvancedPayload env maxSize a l sg = Some (None, exitTx l1, set_txRing l m' sg, ev) \<and>
     chan_inv (txHandle l) (lk_bufferSize l) m' \<and>
     ring_abs (txHandle l) m' = ring_abs (txHandle l) (txRing l sg) @ ds \<and> length ds = numChunks (lk_bufferSize l) a \<and>
     (\<forall>j < length ds. carries (lk_bufferSize l) a j (ds ! j))"
proof -
  let ?h = "txHandle l" and ?m = "txRing l sg" and ?cs = "lk_bufferSize l"
  note e = enterTx_ok [OF adm]
  have "unat (of_nat (totalSize a) :: u64) = totalSize a" using size(2) by (intro unat_of_nat_self) simp
  then have fit: "\<not> (maxSize > 0 \<and> of_nat (totalSize a) > maxSize)" using size(1) by (simp add: word_less_nat_alt)
  show ?thesis
  proof (cases "totalSize a = 0")
    case True
    then have one: "numChunks ?cs a = 1" by (simp add: numChunks_def)
    then have len: "ring_len ?m < unat (h_size ?h)" using room by simp
    obtain d ev where d: "sendAdvancedChunk ?h (hd (se_turns env)) (chunkPacket ?cs a (0 * ?cs)) (chunkHead ?cs a (0 * ?cs)) (chunkTail ?cs a (0 * ?cs)) ?m =
         Some (ZcOk, enq_state ?h d ?m, ev)"
      "carries ?cs a 0 d" "chan_inv ?h ?cs (enq_state ?h d ?m)" "ring_abs ?h (enq_state ?h d ?m) = ring_abs ?h ?m @ [d]"
      using chunk_appended [OF inv len, of "hd (se_turns env)" a 0] .
    have p: "chunkHead ?cs a (0 * ?cs) = []" "chunkTail ?cs a (0 * ?cs) = []"
      "chunkPacket ?cs a (0 * ?cs) = (\<lambda>n. NewConnCopyPacket (am_conn a) (am_id a) 0 0 n ((AdvFlagBegin OR AdvFlagEnd) OR am_flags a) (am_aux a))"
      using True by (auto simp: chunkHead_def chunkTail_def chunkPacket_def chunkFlags_def chunkEnd_def totalSize_def or.assoc or.commute or.left_commute)
    have "sendAdvancedPayload env maxSize a l sg = Some (None, exitTx l1, set_txRing l (enq_state ?h d ?m) sg, ev)"
      using d(1) [unfolded p] True fit by (simp add: sendAdvancedPayload_def adm e)
    then show ?thesis using d one by (intro exI [of _ "enq_state ?h d ?m"] exI [of _ ev] exI [of _ "[d]"]) simp
  next
    case False
    then obtain m' ev ds where s: "sendLoop ?h (se_turns env) (se_abort env) ?cs a (0 * ?cs) ?m = Some (None, m', ev)" "chan_inv ?h ?cs m'"
      "ring_abs ?h m' = ring_abs ?h ?m @ ds" "length ds = numChunks ?cs a - 0" "\<forall>j < length ds. carries ?cs a (0 + j) (ds ! j)"
      using sendLoop_room [OF inv cs, of a 0 "se_turns env" "se_abort env"] room turns by auto
    have "sendAdvancedPayload env maxSize a l sg = Some (None, exitTx l1, set_txRing l m' sg, ev)"
      using s(1) False fit by (simp add: sendAdvancedPayload_def adm e)
    then show ?thesis using s by auto
  qed
qed

end
