(* ===== verification/Adv_Interleave.thy ===== *)
theory Adv_Interleave
  imports Adv_Send "HOL-Library.Multiset"
begin

text \<open>
  Sending and reassembly together: the chunk frames of any number of messages, interleaved in any
  way, are put together to exactly the messages that were sent.
\<close>

section \<open>Frame flags\<close>

lemma flag_tests:
  "(x::u64) AND AdvFlagBegin = 0 \<longleftrightarrow> \<not> bit x 0" "x AND AdvFlagEnd = 0 \<longleftrightarrow> \<not> bit x 1"
  "x AND AdvFlagAbort = 0 \<longleftrightarrow> \<not> bit x 2" "x AND AdvFlagRequest = 0 \<longleftrightarrow> \<not> bit x 3"
  "x AND AdvFlagResponse = 0 \<longleftrightarrow> \<not> bit x 4" "x AND AdvFlagError = 0 \<longleftrightarrow> \<not> bit x 5"
  "x AND AdvFlagMeta = 0 \<longleftrightarrow> \<not> bit x 6"
  using and_exp_eq_0_iff_not_bit [of x 0] and_exp_eq_0_iff_not_bit [of x 1] and_exp_eq_0_iff_not_bit [of x 2]
    and_exp_eq_0_iff_not_bit [of x 3] and_exp_eq_0_iff_not_bit [of x 4] and_exp_eq_0_iff_not_bit [of x 5]
    and_exp_eq_0_iff_not_bit [of x 6]
  by (simp_all add: AdvFlagBegin_def AdvFlagEnd_def AdvFlagAbort_def AdvFlagRequest_def AdvFlagResponse_def
      AdvFlagError_def AdvFlagMeta_def)

text \<open>Flags of a message that are not flags of a frame, and frame flags added to them.\<close>

definition plainFlags :: "u64 \<Rightarrow> bool" where
  "plainFlags f \<longleftrightarrow> \<not> bit f 0 \<and> \<not> bit f 1 \<and> \<not> bit f 2"

lemma frame_bits:
  assumes "be \<in> {0, AdvFlagBegin, AdvFlagEnd, AdvFlagBegin OR AdvFlagEnd}"
  shows "be AND (AdvFlagRequest OR AdvFlagResponse) = 0" "be AND NOT advancedKnownFlags = 0"
    "be AND NOT (advancedKnownFlags OR AdvFlagMeta) = 0" "n \<noteq> 0 \<Longrightarrow> n \<noteq> 1 \<Longrightarrow> \<not> bit be n"
proof -
  show "be AND (AdvFlagRequest OR AdvFlagResponse) = 0" "be AND NOT advancedKnownFlags = 0"
    "be AND NOT (advancedKnownFlags OR AdvFlagMeta) = 0"
    using assms by (auto simp: hqq_consts)
  have "be = take_bit 2 be" using assms by (auto simp: AdvFlagBegin_def AdvFlagEnd_def)
  then have "bit be n \<Longrightarrow> n < 2" by (metis bit_take_bit_iff)
  then show "n \<noteq> 0 \<Longrightarrow> n \<noteq> 1 \<Longrightarrow> \<not> bit be n" by auto
qed

lemma frame_flags:
  assumes "plainFlags f" "be \<in> {0, AdvFlagBegin, AdvFlagEnd, AdvFlagBegin OR AdvFlagEnd}"
  shows "badFlags neg (f OR be) = badFlags neg f"
    "(f OR be) AND (AdvFlagRequest OR AdvFlagResponse) = f AND (AdvFlagRequest OR AdvFlagResponse)"
    "\<not> bit (f OR be) 2" "bit (f OR be) 6 = bit f 6" "bit (f OR be) 0 = bit be 0" "bit (f OR be) 1 = bit be 1"
proof -
  note be = frame_bits [OF assms(2)]
  have known: "(f OR be) AND NOT k = f AND NOT k" if "be AND NOT k = 0" for k
    using that by (simp add: bit.conj_disj_distrib2)
  show "badFlags neg (f OR be) = badFlags neg f"
    using be by (simp add: badFlags_def known flag_tests Let_def bit_or_iff)
  show "(f OR be) AND (AdvFlagRequest OR AdvFlagResponse) = f AND (AdvFlagRequest OR AdvFlagResponse)"
    using be(1) by (simp add: bit.conj_disj_distrib2)
  show "\<not> bit (f OR be) 2" "bit (f OR be) 6 = bit f 6" "bit (f OR be) 0 = bit be 0" "bit (f OR be) 1 = bit be 1"
    using assms(1) be(4) by (simp_all add: plainFlags_def bit_or_iff)
qed

lemma frame_bit_values:
  "bit (AdvFlagBegin :: u64) 0" "\<not> bit (AdvFlagEnd :: u64) 0" "\<not> bit (AdvFlagBegin :: u64) (Suc 0)" "bit (AdvFlagEnd :: u64) (Suc 0)"
  by (simp_all add: AdvFlagBegin_def AdvFlagEnd_def)

text \<open>The flags of frame \<open>i\<close>.\<close>

definition frameBits :: "nat \<Rightarrow> advMsg \<Rightarrow> nat \<Rightarrow> u64" where
  "frameBits cs a i = (if i = 0 then AdvFlagBegin else 0) OR (if Suc i = numChunks cs a then AdvFlagEnd else 0)"

lemma frameBits_in: "frameBits cs a i \<in> {0, AdvFlagBegin, AdvFlagEnd, AdvFlagBegin OR AdvFlagEnd}"
  by (simp add: frameBits_def)

lemma frameBits_bits: "bit (frameBits cs a i) 0 \<longleftrightarrow> i = 0" "bit (frameBits cs a i) (Suc 0) \<longleftrightarrow> Suc i = numChunks cs a"
  by (simp_all only: frameBits_def bit_or_iff frame_bit_values bit_0_eq bot_apply split: if_split) simp_all

lemma numChunks_pos: "0 < cs \<Longrightarrow> 0 < numChunks cs a"
  by (auto simp: numChunks_def div_greater_zero_iff)

lemma last_chunk:
  assumes "0 < cs" "i < numChunks cs a"
  shows "chunkEnd cs a (i * cs) = totalSize a \<longleftrightarrow> Suc i = numChunks cs a"
proof (cases "totalSize a = 0")
  case True
  then show ?thesis using assms by (simp add: chunkEnd_def numChunks_def)
next
  case False
  then have "Suc i * cs < totalSize a \<longleftrightarrow> Suc i < numChunks cs a" using more_chunks [OF assms(1)] by blast
  then show ?thesis using assms(2) by (auto simp: chunkEnd_def min_def add.commute)
qed

lemma chunkFlags_eq:
  assumes "0 < cs" "i < numChunks cs a"
  shows "chunkFlags cs a (i * cs) = am_flags a OR frameBits cs a i"
  using assms by (simp add: chunkFlags_def frameBits_def last_chunk or.assoc)

section \<open>Messages that can be sent\<close>

definition sendable :: "u64 \<Rightarrow> nat \<Rightarrow> u64 \<Rightarrow> advMsg \<Rightarrow> bool" where
  "sendable neg cs maxSize a \<longleftrightarrow>
     0 < cs \<and> cs < 2 ^ 62 \<and> totalSize a \<le> unat maxSize \<and> totalSize a < 2 ^ 63
     \<and> \<not> badFlags neg (am_flags a) \<and> plainFlags (am_flags a)
     \<and> (if bit (am_flags a) 6
        then \<exists>budget opts. putMeta budget opts = Some (am_prefix a) \<and> length (co_Trace opts) = 16 \<and> budget < 2 ^ 63
        else am_prefix a = [])"

definition msgKey :: "advMsg \<Rightarrow> advancedMessageKey" where
  "msgKey a = (am_conn a, am_id a, am_flags a AND (AdvFlagRequest OR AdvFlagResponse))"

definition msgHdr :: "advMsg \<Rightarrow> advHeader" where
  "msgHdr a = \<lparr>ah_streamID = am_conn a, ah_messageID = am_id a,
     ah_flags = am_flags a OR (AdvFlagBegin OR AdvFlagEnd), ah_aux = am_aux a\<rparr>"

text \<open>The message the receiver gets: header, payload, and the metadata the block was made from.\<close>

definition delivered :: "advMsg \<Rightarrow> Message \<Rightarrow> bool" where
  "delivered a m \<longleftrightarrow> ms_hdr m = msgHdr a \<and> Bytes m = am_payload a
     \<and> (if bit (am_flags a) 6
        then \<exists>budget opts. putMeta budget opts = Some (am_prefix a)
               \<and> (ms_meta m)\<lparr>mm_recvAt := 0\<rparr> = decodedMeta budget opts
        else ms_meta m = noMeta)"

lemma finish_delivers:
  assumes "sendable neg cs maxSize a" "ms_hdr m = msgHdr a" "ms_off m = 0" "ms_n m = totalSize a"
    "take (totalSize a) (ms_data m) = am_prefix a @ am_payload a" "ms_meta m = noMeta"
  shows "\<exists>m'. finishMessage t m st = ((Some m', msgHdr a, ChunkComplete, None), st) \<and> delivered a m'"
proof -
  have pl: "plainFlags (am_flags a)" using assms(1) by (simp add: sendable_def)
  have meta: "ah_flags (ms_hdr m) AND AdvFlagMeta = 0 \<longleftrightarrow> \<not> bit (am_flags a) 6"
    using frame_flags(4) [OF pl, of "AdvFlagBegin OR AdvFlagEnd"] by (simp add: assms(2) msgHdr_def flag_tests)
  show ?thesis
  proof (cases "bit (am_flags a) 6")
    case True
    then obtain budget opts where b: "putMeta budget opts = Some (am_prefix a)" "length (co_Trace opts) = 16" "budget < 2 ^ 63"
      using assms(1) by (auto simp: sendable_def)
    have parse: "parseMeta (take (ms_n m) (ms_data m)) = Inr (decodedMeta budget opts, length (am_prefix a))"
      using meta_block_parsed [OF b] assms(4,5) by simp
    let ?m = "m\<lparr>ms_meta := (decodedMeta budget opts)\<lparr>mm_recvAt := t\<rparr>, ms_off := length (am_prefix a),
                ms_n := ms_n m - length (am_prefix a)\<rparr>"
    have fin: "finishMessage t m st = ((Some ?m, msgHdr a, ChunkComplete, None), st)"
      using True meta parse assms(2) by (simp add: finishMessage_def stripMeta_def)
    have "drop (length (am_prefix a)) (take (totalSize a) (ms_data m)) = am_payload a" using assms(5) by simp
    then have "Bytes ?m = am_payload a"
      using assms(4) by (simp add: Bytes_def slice_of_def totalSize_def drop_take)
    then show ?thesis
      using fin True b(1) assms(2) by (intro exI [of _ ?m]) (auto simp: delivered_def decodedMeta_def)
  next
    case False
    then have "am_prefix a = []" using assms(1) by (simp add: sendable_def)
    then show ?thesis
      using False meta assms by (simp add: finishMessage_def delivered_def Bytes_def slice_of_def totalSize_def)
  qed
qed

section \<open>The frame as the receiver reads it\<close>

definition frameChunk :: "nat \<Rightarrow> advMsg \<Rightarrow> nat \<Rightarrow> chunk" where
  "frameChunk cs a i = \<lparr>ck_conn = am_conn a, ck_id = am_id a, ck_total = of_nat (totalSize a), ck_off = of_nat (i * cs),
     ck_size = of_nat (length (chunkBytes cs a i)), ck_flags = am_flags a OR frameBits cs a i,
     ck_aux = (if i = 0 then am_aux a else 0)\<rparr>"

lemma chunkOf_ConnCopy:
  "chunkOf (NewConnCopyPacket a b c d e f g) =
     \<lparr>ck_conn = a, ck_id = b, ck_total = c, ck_off = d, ck_size = e, ck_flags = f, ck_aux = g\<rparr>"
  using packet_constructors_agree [of a b c d e f g]
  by (simp add: chunkOf_def Operand_NewPacket PacketOperandCount_def PacketWordCount_def)

lemma chunkOf_frame:
  assumes "carries cs a i d" "0 < cs" "i < numChunks cs a"
  shows "chunkOf (fst d) = frameChunk cs a i"
  using assms by (simp add: carries_def chunkPacket_def chunkOf_ConnCopy frameChunk_def chunkFlags_eq)

lemma frame_sizes:
  assumes "sendable neg cs maxSize a" "i < numChunks cs a" "0 < maxSize"
  shows "unat (of_nat (totalSize a) :: u64) = totalSize a" "unat (of_nat (i * cs) :: u64) = i * cs"
    "unat (of_nat (length (chunkBytes cs a i)) :: u64) = length (chunkBytes cs a i)"
    "i * cs + length (chunkBytes cs a i) \<le> totalSize a" "i * cs \<le> totalSize a"
    "0 < totalSize a \<Longrightarrow> 0 < length (chunkBytes cs a i)"
    "totalSize a = 0 \<Longrightarrow> i = 0"
    "Suc i < numChunks cs a \<Longrightarrow> length (chunkBytes cs a i) = cs \<and> 0 < totalSize a"
    "Suc i = numChunks cs a \<Longrightarrow> i * cs + length (chunkBytes cs a i) = totalSize a"
proof -
  have b: "0 < cs" "totalSize a < 2 ^ 63" using assms(1) by (simp_all add: sendable_def)
  show i0: "totalSize a = 0 \<Longrightarrow> i = 0" using assms(2) by (simp add: numChunks_def)
  have lt: "0 < totalSize a \<Longrightarrow> i * cs < totalSize a" using more_chunks [OF b(1)] assms(2) by blast
  show le: "i * cs \<le> totalSize a" using lt i0 by (cases "totalSize a = 0") auto
  show "i * cs + length (chunkBytes cs a i) \<le> totalSize a" using le by (simp add: length_chunkBytes)
  show "unat (of_nat (totalSize a) :: u64) = totalSize a" using b by (simp add: unat_of_nat_self)
  show "unat (of_nat (i * cs) :: u64) = i * cs" using b le by (intro unat_of_nat_self) simp
  show "unat (of_nat (length (chunkBytes cs a i)) :: u64) = length (chunkBytes cs a i)"
    using b by (intro unat_of_nat_self) (simp add: length_chunkBytes)
  show "0 < totalSize a \<Longrightarrow> 0 < length (chunkBytes cs a i)" using lt b(1) by (simp add: length_chunkBytes)
  show "Suc i < numChunks cs a \<Longrightarrow> length (chunkBytes cs a i) = cs \<and> 0 < totalSize a"
  proof -
    assume s: "Suc i < numChunks cs a"
    then have t: "0 < totalSize a" by (cases "totalSize a = 0") (simp_all add: numChunks_def)
    then have "Suc i * cs < totalSize a" using more_chunks [OF b(1)] s by blast
    with t show ?thesis by (simp add: length_chunkBytes)
  qed
  show "Suc i = numChunks cs a \<Longrightarrow> i * cs + length (chunkBytes cs a i) = totalSize a"
    using last_chunk [OF b(1) assms(2)] le by (simp add: chunkEnd_def length_chunkBytes)
qed

lemma of_nat_zero_iff:
  assumes "unat (of_nat n :: u64) = n"
  shows "(of_nat n :: u64) = 0 \<longleftrightarrow> n = 0"
proof -
  have "(of_nat n :: u64) = 0 \<longleftrightarrow> unat (of_nat n :: u64) = 0" by (simp only: unsigned_eq_0_iff)
  then show ?thesis by (simp only: assms)
qed

lemma frame_accepted:
  assumes "sendable neg cs maxSize a" "i < numChunks cs a" "0 < maxSize"
  shows "chunkSizeErr maxSize cs (frameChunk cs a i) = None"
proof -
  note sz = frame_sizes [OF assms]
  have pl: "plainFlags (am_flags a)" and tot: "totalSize a \<le> unat maxSize" "totalSize a < 2 ^ 63"
    using assms(1) by (simp_all add: sendable_def)
  let ?T = "of_nat (totalSize a) :: u64" and ?O = "of_nat (i * cs) :: u64" and ?S = "of_nat (length (chunkBytes cs a i)) :: u64"
  have le: "?O \<le> ?T" using sz(1,2,5) by (simp only: word_le_nat_alt)
  then have "unat (?T - ?O) = totalSize a - i * cs" using sz(1,2) by (simp only: unat_sub)
  then have "?S \<le> ?T - ?O" using sz(3,4) by (simp only: word_le_nat_alt)
  moreover have "unat ?S \<le> cs" using sz(3) by (simp add: length_chunkBytes)
  moreover have "?T \<le> maxSize" using tot sz(1) by (simp only: word_le_nat_alt)
  moreover have "?T \<le> MaxInt64" using tot(2) sz(1) by (simp only: word_le_nat_alt MaxInt64_def) simp
  moreover have "?T = 0 \<longleftrightarrow> totalSize a = 0" by (rule of_nat_zero_iff [OF sz(1)])
  moreover have "?S = 0 \<longleftrightarrow> length (chunkBytes cs a i) = 0" by (rule of_nat_zero_iff [OF sz(3)])
  moreover have "?O = 0 \<longleftrightarrow> i = 0" using of_nat_zero_iff [OF sz(2)] assms(1) by (simp only: sendable_def mult_eq_0_iff) simp
  moreover have "length (chunkBytes cs a i) = 0 \<longleftrightarrow> totalSize a = 0"
    using sz(6) by (cases "totalSize a = 0") (simp add: chunkBytes_def totalSize_def, simp)
  moreover have "(am_flags a OR (AdvFlagBegin OR AdvFlagEnd)) AND (AdvFlagBegin OR AdvFlagEnd) = AdvFlagBegin OR AdvFlagEnd"
    by (simp add: bit_eq_iff bit_and_iff bit_or_iff)
  moreover have "totalSize a = 0 \<Longrightarrow> frameBits cs a i = AdvFlagBegin OR AdvFlagEnd"
    using sz(7) by (simp add: frameBits_def numChunks_def)
  ultimately show ?thesis
    using le by (auto simp: chunkSizeErr_def frameChunk_def not_less simp del: of_nat_mult of_nat_eq_0_iff)
qed

lemma frame_key:
  assumes "sendable neg cs maxSize a"
  shows "chunkKey (frameChunk cs a i) = msgKey a" "badFlags neg (ck_flags (frameChunk cs a i)) = False"
    "ck_flags (frameChunk cs a i) AND AdvFlagAbort = 0"
    "ck_flags (frameChunk cs a i) AND AdvFlagBegin = 0 \<longleftrightarrow> i \<noteq> 0"
    "ck_flags (frameChunk cs a i) AND AdvFlagEnd = 0 \<longleftrightarrow> Suc i \<noteq> numChunks cs a"
proof -
  have pl: "plainFlags (am_flags a)" and ok: "\<not> badFlags neg (am_flags a)"
    using assms by (simp_all add: sendable_def)
  note ff = frame_flags [OF pl frameBits_in [of cs a i]]
  show "chunkKey (frameChunk cs a i) = msgKey a" using ff by (simp add: chunkKey_def frameChunk_def msgKey_def)
  show "badFlags neg (ck_flags (frameChunk cs a i)) = False" using ff ok by (simp add: frameChunk_def)
  show "ck_flags (frameChunk cs a i) AND AdvFlagAbort = 0" using ff by (simp add: frameChunk_def flag_tests)
  show "ck_flags (frameChunk cs a i) AND AdvFlagBegin = 0 \<longleftrightarrow> i \<noteq> 0"
    "ck_flags (frameChunk cs a i) AND AdvFlagEnd = 0 \<longleftrightarrow> Suc i \<noteq> numChunks cs a"
    using ff by (simp_all add: frameChunk_def flag_tests frameBits_bits)
qed

section \<open>One frame\<close>

text \<open>An assembly that has received the first \<open>i\<close> frames of a message.\<close>

definition holds :: "nat \<Rightarrow> advMsg \<Rightarrow> nat \<Rightarrow> advancedAssembly \<Rightarrow> bool" where
  "holds cs a i x \<longleftrightarrow>
     as_size x = of_nat (totalSize a) \<and> as_next x = of_nat (i * cs)
     \<and> as_hdr x = \<lparr>ah_streamID = am_conn a, ah_messageID = am_id a, ah_flags = am_flags a, ah_aux = am_aux a\<rparr>
     \<and> ms_meta (as_msg x) = noMeta
     \<and> take (i * cs) (ms_data (as_msg x)) = take (i * cs) (am_prefix a @ am_payload a)"

definition frameResult :: "nat \<Rightarrow> advMsg \<Rightarrow> nat \<Rightarrow> Message option \<times> advHeader \<times> chunkOutcome \<times> err option \<Rightarrow> bool" where
  "frameResult cs a i out \<longleftrightarrow>
     (if Suc i < numChunks cs a then out = (None, noHeader, ChunkPartial, None)
      else \<exists>m. out = (Some m, msgHdr a, ChunkComplete, None) \<and> delivered a m)"

lemma take_put_at: "n \<le> length data \<Longrightarrow> take (n + length b) (put_at n b data) = take n data @ b"
  by (simp add: put_at_def)

lemma chunk_extends:
  "take (i * cs) P @ slice_of (i * cs) cs P = take (i * cs + length (slice_of (i * cs) cs P)) P"
  by (simp add: take_add slice_of_def min_def)

lemma addChunk_frame:
  assumes snd: "sendable neg cs (ra_maxMessageSize st) a" and max: "0 < ra_maxMessageSize st"
    and x: "holds cs a i x" "asm_ok (ra_maxMessageSize st) (msgKey a) x"
    and i: "i < numChunks cs a" and car: "carries cs a i d"
  shows "\<exists>out st'. addChunk (frameChunk cs a i) (snd d) x st = (out, st') \<and> frameResult cs a i out \<and>
    (if Suc i < numChunks cs a
     then \<exists>x'. holds cs a (Suc i) x' \<and> st' = setAssembly (msgKey a) x' st
     else \<exists>x'. as_size x' = as_size x \<and> st' = dropAssembly (msgKey a) (setAssembly (msgKey a) x' st))"
proof -
  let ?P = "am_prefix a @ am_payload a" and ?b = "chunkBytes cs a i" and ?c = "frameChunk cs a i"
  note sz = frame_sizes [OF snd i max] and key = frame_key [OF snd, of i]
  have size: "as_size x = of_nat (totalSize a)" and nxt: "as_next x = of_nat (i * cs)"
    and dat: "take (i * cs) (ms_data (as_msg x)) = take (i * cs) ?P"
    using x(1) by (simp_all add: holds_def)
  have len: "totalSize a \<le> length (ms_data (as_msg x))"
    using x(2) size sz(1) class_fits(1) [of "as_size x" "ra_maxMessageSize st"] by (simp add: asm_ok_def)
  have n: "ms_n (as_msg x) = totalSize a" "ms_off (as_msg x) = 0"
    using x(2) size sz(1) by (simp_all add: asm_ok_def)
  have tk: "take (unat (ck_size ?c)) (snd d) = ?b"
    using car sz(3) by (simp add: carries_def frameChunk_def)
  let ?m = "(as_msg x)\<lparr>ms_data := put_at (i * cs) ?b (ms_data (as_msg x))\<rparr>"
  let ?x = "x\<lparr>as_seen := ra_chunks st, as_msg := ?m, as_next := as_next x + of_nat (length ?b)\<rparr>"
  have data: "take (i * cs + length ?b) (ms_data ?m) = take (i * cs + length ?b) ?P"
    using take_put_at [of "i * cs" "ms_data (as_msg x)" ?b] dat sz(5) len
      chunk_extends [of i cs ?P, folded chunkBytes_def] by (simp add: chunkBytes_def)
  have off: "unat (ck_off ?c) = i * cs" "ck_off ?c = as_next x" "as_size x = ck_total ?c"
    using sz(2) nxt size by (simp_all add: frameChunk_def del: of_nat_mult)
  have add: "addChunk ?c (snd d) x st =
     (if Suc i \<noteq> numChunks cs a then ((None, noHeader, ChunkPartial, None), setAssembly (msgKey a) ?x st)
      else if as_next ?x \<noteq> ck_total ?c then chunkFail (msgKey a) ErrInvalidSize (setAssembly (msgKey a) ?x st)
      else finishMessage (as_recvAt x) (?m\<lparr>ms_hdr := (as_hdr x)\<lparr>ah_flags := ah_flags (as_hdr x) OR (AdvFlagBegin OR AdvFlagEnd)\<rparr>\<rparr>)
             (dropAssembly (msgKey a) (setAssembly (msgKey a) ?x st)))"
    using off key tk by (simp add: addChunk_def Let_def) (simp add: frameChunk_def)
  show ?thesis
  proof (cases "Suc i < numChunks cs a")
    case True
    have "holds cs a (Suc i) ?x"
      using x(1) data sz(8) [OF True] by (simp add: holds_def add.commute)
    with True add show ?thesis by (auto simp: frameResult_def)
  next
    case False
    then have last: "Suc i = numChunks cs a" using i by simp
    have tot: "as_next ?x = ck_total ?c"
      using nxt arg_cong [OF sz(9) [OF last], of "of_nat :: nat \<Rightarrow> u64"] by (simp add: frameChunk_def)
    have "take (totalSize a) (ms_data ?m) = ?P"
      using data sz(9) [OF last] by (simp add: totalSize_def)
    then obtain m' where "finishMessage (as_recvAt x) (?m\<lparr>ms_hdr := (as_hdr x)\<lparr>ah_flags := ah_flags (as_hdr x) OR (AdvFlagBegin OR AdvFlagEnd)\<rparr>\<rparr>)
             (dropAssembly (msgKey a) (setAssembly (msgKey a) ?x st)) =
        ((Some m', msgHdr a, ChunkComplete, None), dropAssembly (msgKey a) (setAssembly (msgKey a) ?x st))" "delivered a m'"
      using finish_delivers [OF snd, of "?m\<lparr>ms_hdr := (as_hdr x)\<lparr>ah_flags := ah_flags (as_hdr x) OR (AdvFlagBegin OR AdvFlagEnd)\<rparr>\<rparr>"]
        n x(1) by (auto simp: holds_def msgHdr_def)
    with last tot have eq: "addChunk ?c (snd d) x st =
        ((Some m', msgHdr a, ChunkComplete, None), dropAssembly (msgKey a) (setAssembly (msgKey a) ?x st))"
      and m': "delivered a m'" unfolding add by simp_all
    have "\<exists>x'. as_size x' = as_size x \<and> dropAssembly (msgKey a) (setAssembly (msgKey a) ?x st) =
        dropAssembly (msgKey a) (setAssembly (msgKey a) x' st)" by (intro exI [of _ ?x]) simp
    with False eq m' show ?thesis by (simp add: frameResult_def)
  qed
qed

text \<open>Where a message stands after its first \<open>i\<close> frames, and what it then holds of the budget.\<close>

definition progress :: "nat \<Rightarrow> advMsg \<Rightarrow> nat \<Rightarrow> reassembly \<Rightarrow> bool" where
  "progress cs a i st \<longleftrightarrow> msgKey a \<notin> ra_rejected st \<and>
     (if 0 < i \<and> i < numChunks cs a
      then \<exists>x. map_of (ra_assemblies st) (msgKey a) = Some x \<and> holds cs a i x
      else map_of (ra_assemblies st) (msgKey a) = None)"

lemma progress_cong:
  "map_of (ra_assemblies s) (msgKey a) = map_of (ra_assemblies t) (msgKey a) \<Longrightarrow> ra_rejected s = ra_rejected t \<Longrightarrow>
   progress cs a i s = progress cs a i t"
  by (simp add: progress_def)

definition budgetOf :: "nat \<Rightarrow> advMsg \<Rightarrow> nat \<Rightarrow> nat" where
  "budgetOf cs a i = (if 0 < i \<and> i < numChunks cs a then totalSize a + 256 else 0)"

definition frameStep :: "nat \<Rightarrow> advMsg \<Rightarrow> nat \<Rightarrow> chunkRes \<Rightarrow> reassembly \<Rightarrow> bool" where
  "frameStep cs a i r st \<longleftrightarrow> frameResult cs a i (fst r) \<and> progress cs a (Suc i) (snd r)
     \<and> (\<forall>k. k \<noteq> msgKey a \<longrightarrow> map_of (ra_assemblies (snd r)) k = map_of (ra_assemblies st) k)
     \<and> ra_rejected (snd r) = ra_rejected st"

lemma frameStep_add:
  assumes snd: "sendable neg cs (ra_maxMessageSize st) a" and inv: "ra_inv st"
    and x: "map_of (ra_assemblies st) (msgKey a) = Some x" "holds cs a i x"
    and i: "i < numChunks cs a" and car: "carries cs a i d"
  shows "frameStep cs a i (addChunk (frameChunk cs a i) (snd d) x st) st"
    "unat (ra_assemblyBytes (snd (addChunk (frameChunk cs a i) (snd d) x st))) + (totalSize a + 256) =
       unat (ra_assemblyBytes st) + (if Suc i < numChunks cs a then totalSize a + 256 else 0)"
proof -
  have max: "0 < ra_maxMessageSize st" using inv by (simp add: ra_inv_def)
  have ok: "asm_ok (ra_maxMessageSize st) (msgKey a) x" using inv map_of_SomeD [OF x(1)] by (auto simp: ra_inv_def)
  have rej: "msgKey a \<notin> ra_rejected st" by (rule ra_inv_rejected [OF inv x(1)])
  have sz: "unat (as_size x) = totalSize a" "as_size x \<le> MaxInt64"
    using x(2) ok frame_sizes(1) [OF snd i max] by (simp_all add: holds_def asm_ok_def)
  obtain out st' where r: "addChunk (frameChunk cs a i) (snd d) x st = (out, st')" "frameResult cs a i out"
    "if Suc i < numChunks cs a then \<exists>x'. holds cs a (Suc i) x' \<and> st' = setAssembly (msgKey a) x' st
     else \<exists>x'. as_size x' = as_size x \<and> st' = dropAssembly (msgKey a) (setAssembly (msgKey a) x' st)"
    using addChunk_frame [OF snd max x(2) ok i car] by blast
  have "progress cs a (Suc i) st' \<and> (\<forall>k. k \<noteq> msgKey a \<longrightarrow> map_of (ra_assemblies st') k = map_of (ra_assemblies st) k) \<and>
     ra_rejected st' = ra_rejected st"
    using r(3) rej i by (auto simp: progress_def map_of_setAssembly map_of_drop split: if_splits)
  with r show "frameStep cs a i (addChunk (frameChunk cs a i) (snd d) x st) st" by (simp add: frameStep_def)
  have "unat (ra_assemblyBytes st') + (totalSize a + 256) =
       unat (ra_assemblyBytes st) + (if Suc i < numChunks cs a then totalSize a + 256 else 0)"
  proof (cases "Suc i < numChunks cs a")
    case True
    then show ?thesis using r(3) by auto
  next
    case False
    then obtain x' where x': "as_size x' = as_size x" "st' = dropAssembly (msgKey a) (setAssembly (msgKey a) x' st)"
      using r(3) by auto
    have b: "ra_assemblyBytes st' = ra_assemblyBytes st - charge x"
      using x' by (simp add: dropAssembly_def map_of_setAssembly charge_def)
    have "unat (charge x) \<le> unat (ra_assemblyBytes st)"
      using inv charged_filter [OF _ x(1)] unat_charge [OF sz(2)] by (auto simp: ra_inv_def)
    then show ?thesis using b False unat_charge [OF sz(2)] sz(1) by (simp add: unat_sub word_le_nat_alt)
  qed
  then show "unat (ra_assemblyBytes (snd (addChunk (frameChunk cs a i) (snd d) x st))) + (totalSize a + 256) =
       unat (ra_assemblyBytes st) + (if Suc i < numChunks cs a then totalSize a + 256 else 0)"
    using r(1) by simp
qed

lemma frameStep_single:
  assumes snd: "sendable neg cs (ra_maxMessageSize st) a" and inv: "ra_inv st"
    and pr: "progress cs a 0 st" and one: "numChunks cs a = 1" and car: "carries cs a 0 d"
  shows "frameStep cs a 0 (singleChunk env (frameChunk cs a 0) (snd d) st) st"
    "snd (singleChunk env (frameChunk cs a 0) (snd d) st) = st"
proof -
  have max: "0 < ra_maxMessageSize st" using inv by (simp add: ra_inv_def)
  have i: "0 < numChunks cs a" using one by simp
  note sz = frame_sizes [OF snd i max]
  let ?T = "of_nat (totalSize a) :: u64" and ?max = "ra_maxMessageSize st" and ?c = "frameChunk cs a 0"
  let ?m0 = "pool_get ?max (ce_recycled env) ?T"
  let ?m = "?m0\<lparr>ms_hdr := chunkHeader ?c (ck_flags ?c), ms_data := put_at 0 (am_prefix a @ am_payload a) (ms_data ?m0)\<rparr>"
  have tot: "length (chunkBytes cs a 0) = totalSize a" using sz(9) one by simp
  then have bytes: "chunkBytes cs a 0 = am_prefix a @ am_payload a"
    by (simp add: chunkBytes_def slice_of_def totalSize_def)
  have tk: "take (unat (ck_size ?c)) (snd d) = am_prefix a @ am_payload a"
    using car sz(3) bytes by (simp add: carries_def frameChunk_def)
  have hdr: "chunkHeader ?c (ck_flags ?c) = msgHdr a"
    using one by (simp add: chunkHeader_def frameChunk_def msgHdr_def frameBits_def)
  have data: "take (totalSize a) (ms_data ?m) = am_prefix a @ am_payload a"
    by (simp add: put_at_def totalSize_def)
  have fld: "ms_off ?m = 0" "ms_n ?m = totalSize a" "ms_meta ?m = noMeta"
    using sz(1) by (simp_all add: pool_get_def Let_def)
  obtain m' where m': "finishMessage (ce_now env) ?m st = ((Some m', msgHdr a, ChunkComplete, None), st)" "delivered a m'"
    using finish_delivers [OF snd, of ?m "ce_now env" st] hdr data fld by auto
  have eq: "singleChunk env ?c (snd d) st = ((Some m', msgHdr a, ChunkComplete, None), st)"
    using m'(1) tk tot hdr by (simp add: singleChunk_def Let_def) (simp add: frameChunk_def)
  show "snd (singleChunk env ?c (snd d) st) = st" by (simp add: eq)
  show "frameStep cs a 0 (singleChunk env ?c (snd d) st) st"
    using pr one m'(2) by (simp add: eq frameStep_def frameResult_def progress_def)
qed

lemma reclaimIdle_room:
  assumes "unat (ra_assemblyBytes st) + unat need \<le> unat (ra_maxReassemblyBytes st)"
  shows "reclaimIdle sweep need st = st" "\<not> need > ra_maxReassemblyBytes st"
    "\<not> ra_assemblyBytes st > ra_maxReassemblyBytes st - need"
proof -
  have le: "need \<le> ra_maxReassemblyBytes st" using assms by (simp add: word_le_nat_alt)
  then have b: "ra_assemblyBytes st \<le> ra_maxReassemblyBytes st - need"
    using assms by (simp add: word_le_nat_alt unat_sub)
  show "reclaimIdle sweep need st = st" "\<not> need > ra_maxReassemblyBytes st"
    "\<not> ra_assemblyBytes st > ra_maxReassemblyBytes st - need"
    using le b by (simp_all add: reclaimIdle_def)
qed

lemma plain_strip:
  assumes "plainFlags f" "be \<in> {0, AdvFlagBegin, AdvFlagEnd, AdvFlagBegin OR AdvFlagEnd}"
  shows "(f OR be) AND NOT (AdvFlagBegin OR AdvFlagEnd) = f"
proof (rule bit_eqI)
  fix n
  have "bit (AdvFlagBegin OR AdvFlagEnd :: u64) n \<longleftrightarrow> n = 0 \<or> n = 1"
    using frame_bits(4) [of "AdvFlagBegin OR AdvFlagEnd" n] frame_bit_values
    by (auto simp: bit_or_iff)
  moreover have "bit f n \<Longrightarrow> n \<noteq> 0 \<and> n \<noteq> 1" using assms(1) unfolding plainFlags_def by metis
  moreover have "bit be n \<Longrightarrow> n = 0 \<or> n = 1" using frame_bits(4) [OF assms(2)] by blast
  moreover have "bit f n \<Longrightarrow> n < 64" using bit_imp_le_length [of f n] by simp
  ultimately show "bit ((f OR be) AND NOT (AdvFlagBegin OR AdvFlagEnd)) n = bit f n"
    by (auto simp: bit_and_iff bit_or_iff bit_not_iff)
qed

lemma frameStep_begin:
  assumes snd: "sendable neg cs (ra_maxMessageSize st) a" and inv: "ra_inv st"
    and pr: "progress cs a 0 st" and many: "1 < numChunks cs a" and car: "carries cs a 0 d"
    and room: "unat (ra_assemblyBytes st) + (totalSize a + 256) \<le> unat (ra_maxReassemblyBytes st)"
  shows "frameStep cs a 0 (beginAssembly env (frameChunk cs a 0) (snd d) st) st"
    "unat (ra_assemblyBytes (snd (beginAssembly env (frameChunk cs a 0) (snd d) st))) =
       unat (ra_assemblyBytes st) + (totalSize a + 256)"
proof -
  have max: "0 < ra_maxMessageSize st" using inv by (simp add: ra_inv_def)
  have i: "0 < numChunks cs a" using many by simp
  note sz = frame_sizes [OF snd i max] and key = frame_key [OF snd, of 0]
  have pl: "plainFlags (am_flags a)" and mm: "totalSize a \<le> unat (ra_maxMessageSize st)" "totalSize a < 2 ^ 63"
    using snd by (simp_all add: sendable_def)
  let ?T = "of_nat (totalSize a) :: u64" and ?c = "frameChunk cs a 0"
  let ?need = "?T + advancedAssemblyOverhead"
  have T: "?T \<le> MaxInt64" "?T \<le> ra_maxMessageSize st"
    using mm sz(1) by (simp_all only: word_le_nat_alt MaxInt64_def) simp_all
  have need: "unat ?need = totalSize a + 256" using unat_need [OF T(1)] sz(1) by simp
  have room': "unat (ra_assemblyBytes st) + unat ?need \<le> unat (ra_maxReassemblyBytes st)" using room need by simp
  note rc = reclaimIdle_room [OF room']
  let ?x = "\<lparr>as_hdr = chunkHeader ?c (ck_flags ?c AND NOT (AdvFlagBegin OR AdvFlagEnd)),
     as_msg = pool_get (ra_maxMessageSize st) (ce_recycled env) (ck_total ?c), as_size = ck_total ?c, as_next = 0,
     as_seen = 0, as_recvAt = (if ck_flags ?c AND AdvFlagMeta \<noteq> 0 then ce_now env else 0)\<rparr>"
  let ?st2 = "(setAssembly (msgKey a) ?x st)\<lparr>ra_assemblyBytes := ra_assemblyBytes st + ?need\<rparr>"
  have total: "ck_total ?c = ?T" by (simp add: frameChunk_def)
  have ok: "asm_ok (ra_maxMessageSize st) (msgKey a) ?x"
    using asm_ok_new [of ?c "ra_maxMessageSize st"] T total key(1) by simp
  have hold: "holds cs a 0 ?x"
    using plain_strip [OF pl frameBits_in] by (simp add: holds_def chunkHeader_def frameChunk_def pool_get_def Let_def)
  have none: "map_of (ra_assemblies st) (msgKey a) = None" "msgKey a \<notin> ra_rejected st"
    using pr by (simp_all add: progress_def)
  have inv2: "ra_inv ?st2"
    using ra_inv_new [OF inv none ok] room sz(1) by (simp add: total)
  have m2: "map_of (ra_assemblies ?st2) (msgKey a) = Some ?x" by (simp add: map_of_setAssembly)
  have snd2: "sendable neg cs (ra_maxMessageSize ?st2) a" using snd by simp
  note add = frameStep_add [OF snd2 inv2 m2 hold i car]
  have eq: "beginAssembly env ?c (snd d) st = addChunk ?c (snd d) ?x ?st2"
    using rc key(1) total by (simp add: beginAssembly_def Let_def)
  show "frameStep cs a 0 (beginAssembly env ?c (snd d) st) st"
    unfolding eq using add(1) by (simp add: frameStep_def map_of_setAssembly)
  have "unat (ra_assemblyBytes st + ?need) = unat (ra_assemblyBytes st) + (totalSize a + 256)"
    using room' need unsigned_less [of "ra_maxReassemblyBytes st", where ?'a = nat] by (simp add: unat_plus_if')
  then show "unat (ra_assemblyBytes (snd (beginAssembly env ?c (snd d) st))) = unat (ra_assemblyBytes st) + (totalSize a + 256)"
    unfolding eq using add(2) many by simp
qed

lemma consume_frame:
  assumes snd: "sendable (ra_negotiated st) cs (ra_maxMessageSize st) a" and inv: "ra_inv st"
    and pr: "progress cs a i st" and i: "i < numChunks cs a" and car: "carries cs a i d"
    and room: "i = 0 \<and> 1 < numChunks cs a \<longrightarrow> unat (ra_assemblyBytes st) + (totalSize a + 256) \<le> unat (ra_maxReassemblyBytes st)"
  shows "frameStep cs a i (consumeAdvancedChunk env (fst d) (snd d) st) st"
    "unat (ra_assemblyBytes (snd (consumeAdvancedChunk env (fst d) (snd d) st))) + budgetOf cs a i =
       unat (ra_assemblyBytes st) + budgetOf cs a (Suc i)"
proof -
  define s where "s = st\<lparr>ra_chunks := ra_chunks st + 1\<rparr>"
  have s: "sendable (ra_negotiated s) cs (ra_maxMessageSize s) a" "ra_inv s" "progress cs a i s"
    "ra_assemblies s = ra_assemblies st" "ra_rejected s = ra_rejected st" "ra_assemblyBytes s = ra_assemblyBytes st"
    "ra_maxReassemblyBytes s = ra_maxReassemblyBytes st" "0 < ra_maxMessageSize s"
    using snd inv by (simp_all add: s_def) (use pr in \<open>simp add: progress_def\<close>, simp add: ra_inv_def)
  have cs: "0 < cs" using snd by (simp add: sendable_def)
  note key = frame_key [OF s(1), of i] and acc = frame_accepted [OF s(1) i s(8)]
  have ck: "chunkOf (fst d) = frameChunk cs a i" by (rule chunkOf_frame [OF car cs i])
  have len: "length (snd d) = cs" using car by (simp add: carries_def)
  have off: "ck_off (frameChunk cs a 0) = 0" by (simp add: frameChunk_def)
  let ?r = "consumeAdvancedChunk env (fst d) (snd d) st"
  have res: "?r = (if i = 0 then if numChunks cs a = 1 then singleChunk env (frameChunk cs a 0) (snd d) s
                   else beginAssembly env (frameChunk cs a 0) (snd d) s
                 else addChunk (frameChunk cs a i) (snd d) (the (map_of (ra_assemblies s) (msgKey a))) s)"
  proof -
    have start: "consumeAdvancedChunk env (fst d) (snd d) st =
       (if i = 0 then
          if ck_off (frameChunk cs a i) \<noteq> 0 \<or> map_of (ra_assemblies s) (msgKey a) \<noteq> None \<or> isRejected (msgKey a) s
          then chunkFail (msgKey a) ErrInvalidSize s
          else if Suc i = numChunks cs a then singleChunk env (frameChunk cs a i) (snd d) s
          else beginAssembly env (frameChunk cs a i) (snd d) s
        else case map_of (ra_assemblies s) (msgKey a) of
          Some x \<Rightarrow> addChunk (frameChunk cs a i) (snd d) x s
        | None \<Rightarrow> if isRejected (msgKey a) s \<or> ra_rejectedEvicted s
              then ((None, noHeader, ChunkPartial, None),
                    if Suc i = numChunks cs a then snd (forgetRejected (msgKey a) s) else s)
              else ((None, noHeader, ChunkPartial, Some ErrProtocol), s))"
      unfolding consumeAdvancedChunk_def Let_def s_def [symmetric] ck len key acc by simp
    show ?thesis
      unfolding start using s(3) i off by (auto simp: progress_def isRejected_def)
  qed
  have "frameStep cs a i ?r s \<and> unat (ra_assemblyBytes (snd ?r)) + budgetOf cs a i = unat (ra_assemblyBytes s) + budgetOf cs a (Suc i)"
  proof (cases "i = 0")
    case True
    show ?thesis
    proof (cases "numChunks cs a = 1")
      case one: True
      then show ?thesis
        using frameStep_single [OF s(1,2) _ one, of d env] s(3) car True unfolding res by (simp add: budgetOf_def)
    next
      case False
      then have many: "1 < numChunks cs a" using i True by simp
      then show ?thesis
        using frameStep_begin [OF s(1,2) _ many, of d env] s(3,6,7) car room True unfolding res by (simp add: budgetOf_def)
    qed
  next
    case False
    then obtain x where x: "map_of (ra_assemblies s) (msgKey a) = Some x" "holds cs a i x"
      using s(3) i by (auto simp: progress_def)
    then show ?thesis
      using frameStep_add [OF s(1,2) x i car] False i unfolding res by (simp add: budgetOf_def)
  qed
  then show "frameStep cs a i ?r st"
    "unat (ra_assemblyBytes (snd ?r)) + budgetOf cs a i = unat (ra_assemblyBytes st) + budgetOf cs a (Suc i)"
    using s(4-6) by (simp_all add: frameStep_def)
qed

section \<open>Any interleaving\<close>

type_synonym frameEvent = "chunkEnv \<times> nat \<times> slotData"

text \<open>
  The frames of the messages \<open>batch\<close> in some order that keeps the order of each message: an event names
  the message whose next frame arrives, and \<open>sent j\<close> counts the frames of message \<open>j\<close> so far.
\<close>

fun interleaved :: "nat \<Rightarrow> advMsg list \<Rightarrow> (nat \<Rightarrow> nat) \<Rightarrow> frameEvent list \<Rightarrow> bool" where
  "interleaved cs batch sent [] \<longleftrightarrow> (\<forall>j < length batch. sent j = numChunks cs (batch ! j))"
| "interleaved cs batch sent ((env, j, d) # evs) \<longleftrightarrow>
     j < length batch \<and> sent j < numChunks cs (batch ! j) \<and> carries cs (batch ! j) (sent j) d
     \<and> interleaved cs batch (sent(j := Suc (sent j))) evs"

definition frames :: "frameEvent list \<Rightarrow> (chunkEnv \<times> Packet \<times> bytes) list" where
  "frames evs = map (\<lambda>(env, j, d). (env, fst d, snd d)) evs"

text \<open>The messages in the order of their last frames, and the messages handed out.\<close>

fun finishOrder :: "nat \<Rightarrow> advMsg list \<Rightarrow> (nat \<Rightarrow> nat) \<Rightarrow> frameEvent list \<Rightarrow> nat list" where
  "finishOrder cs batch sent [] = []"
| "finishOrder cs batch sent ((env, j, d) # evs) =
     (if Suc (sent j) < numChunks cs (batch ! j) then [] else [j])
     @ finishOrder cs batch (sent(j := Suc (sent j))) evs"

definition received :: "(Message option \<times> advHeader \<times> chunkOutcome \<times> err option) list \<Rightarrow> Message list" where
  "received outs = concat (map (\<lambda>out. case fst out of Some m \<Rightarrow> [m] | None \<Rightarrow> []) outs)"

definition messageBudget :: "nat \<Rightarrow> advMsg \<Rightarrow> nat" where
  "messageBudget cs a = (if numChunks cs a = 1 then 0 else totalSize a + 256)"

definition openBudget :: "nat \<Rightarrow> advMsg list \<Rightarrow> (nat \<Rightarrow> nat) \<Rightarrow> nat" where
  "openBudget cs batch sent = (\<Sum>j < length batch. budgetOf cs (batch ! j) (sent j))"

definition futureBudget :: "nat \<Rightarrow> advMsg list \<Rightarrow> (nat \<Rightarrow> nat) \<Rightarrow> nat" where
  "futureBudget cs batch sent = (\<Sum>j < length batch. if sent j = 0 then messageBudget cs (batch ! j) else 0)"

definition midway :: "nat \<Rightarrow> advMsg list \<Rightarrow> (nat \<Rightarrow> nat) \<Rightarrow> reassembly \<Rightarrow> bool" where
  "midway cs batch sent st \<longleftrightarrow> ra_inv st \<and>
     (\<forall>j < length batch. sendable (ra_negotiated st) cs (ra_maxMessageSize st) (batch ! j) \<and> progress cs (batch ! j) (sent j) st)
     \<and> unat (ra_assemblyBytes st) + futureBudget cs batch sent \<le> unat (ra_maxReassemblyBytes st)"

lemma sum_update:
  fixes f :: "nat \<Rightarrow> nat \<Rightarrow> nat"
  assumes "j < n"
  shows "(\<Sum>k < n. f k ((g(j := v)) k)) + f j (g j) = (\<Sum>k < n. f k (g k)) + f j v"
proof -
  have fin: "finite {..<n}" and j: "j \<in> {..<n}" using assms by simp_all
  have "(\<Sum>k < n. f k ((g(j := v)) k)) = f j v + (\<Sum>k \<in> {..<n} - {j}. f k (g k))"
    using sum.remove [OF fin j, of "\<lambda>k. f k ((g(j := v)) k)"] by simp
  then show ?thesis using sum.remove [OF fin j, of "\<lambda>k. f k (g k)"] by simp
qed

lemma futureBudget_step:
  "j < length batch \<Longrightarrow> futureBudget cs batch (sent(j := Suc (sent j)))
     + (if sent j = 0 then messageBudget cs (batch ! j) else 0) = futureBudget cs batch sent"
  using sum_update [of j "length batch" "\<lambda>j n. if n = 0 then messageBudget cs (batch ! j) else 0" sent "Suc (sent j)"]
  by (simp add: futureBudget_def)

lemma openBudget_step:
  "j < length batch \<Longrightarrow> openBudget cs batch (sent(j := Suc (sent j))) + budgetOf cs (batch ! j) (sent j) =
     openBudget cs batch sent + budgetOf cs (batch ! j) (Suc (sent j))"
  using sum_update [of j "length batch" "\<lambda>j. budgetOf cs (batch ! j)" sent "Suc (sent j)"]
  by (simp add: openBudget_def)

lemma midway_step:
  assumes mid: "midway cs batch sent st" and keys: "distinct (map msgKey batch)"
    and j: "j < length batch" "sent j < numChunks cs (batch ! j)" "carries cs (batch ! j) (sent j) d"
  shows "midway cs batch (sent(j := Suc (sent j))) (snd (consumeAdvancedChunk env (fst d) (snd d) st))"
    "frameResult cs (batch ! j) (sent j) (fst (consumeAdvancedChunk env (fst d) (snd d) st))"
    "unat (ra_assemblyBytes (snd (consumeAdvancedChunk env (fst d) (snd d) st))) + openBudget cs batch sent =
       unat (ra_assemblyBytes st) + openBudget cs batch (sent(j := Suc (sent j)))"
proof -
  let ?r = "consumeAdvancedChunk env (fst d) (snd d) st" and ?sent = "sent(j := Suc (sent j))"
  have inv: "ra_inv st" and pr: "progress cs (batch ! j) (sent j) st"
    and sn: "sendable (ra_negotiated st) cs (ra_maxMessageSize st) (batch ! j)"
    and bud: "unat (ra_assemblyBytes st) + futureBudget cs batch sent \<le> unat (ra_maxReassemblyBytes st)"
    using mid j(1) by (simp_all add: midway_def)
  note fut = futureBudget_step [OF j(1), of cs sent] and opn = openBudget_step [OF j(1), of cs sent]
  have room: "sent j = 0 \<and> 1 < numChunks cs (batch ! j) \<longrightarrow>
      unat (ra_assemblyBytes st) + (totalSize (batch ! j) + 256) \<le> unat (ra_maxReassemblyBytes st)"
    using bud fut by (auto simp: messageBudget_def)
  note step = consume_frame [OF sn inv pr j(2,3) room, of env]
  have other: "progress cs (batch ! k) (sent k) (snd ?r)" if "k < length batch" "k \<noteq> j" for k
  proof -
    have "msgKey (batch ! k) \<noteq> msgKey (batch ! j)" using keys that j(1) by (simp add: distinct_conv_nth)
    then have "map_of (ra_assemblies (snd ?r)) (msgKey (batch ! k)) = map_of (ra_assemblies st) (msgKey (batch ! k))"
      "ra_rejected (snd ?r) = ra_rejected st"
      using step(1) unfolding frameStep_def by blast+
    moreover have "progress cs (batch ! k) (sent k) st" using mid that(1) by (simp add: midway_def)
    ultimately show ?thesis using progress_cong [of "snd ?r" "batch ! k" st] by blast
  qed
  have "unat (ra_assemblyBytes (snd ?r)) + futureBudget cs batch ?sent \<le> unat (ra_maxReassemblyBytes st)"
    using step(2) fut bud j(2) by (auto simp: budgetOf_def messageBudget_def split: if_splits)
  then show "midway cs batch ?sent (snd ?r)"
    using step(1) other mid consume_keeps [OF inv, of env "fst d" "snd d"]
    by (auto simp: midway_def consume_maxMessageSize res_ok_def frameStep_def)
  show "frameResult cs (batch ! j) (sent j) (fst ?r)" using step(1) by (simp add: frameStep_def)
  show "unat (ra_assemblyBytes (snd ?r)) + openBudget cs batch sent = unat (ra_assemblyBytes st) + openBudget cs batch ?sent"
    using step(2) opn by simp
qed

lemma interleaved_delivers:
  assumes "interleaved cs batch sent evs" "midway cs batch sent st" "distinct (map msgKey batch)"
    "consumeAll (frames evs) st = (outs, st')"
  shows "list_all2 (\<lambda>j m. delivered (batch ! j) m) (finishOrder cs batch sent evs) (received outs) \<and>
    (\<forall>out \<in> set outs. snd (snd (snd out)) = None) \<and>
    unat (ra_assemblyBytes st') + openBudget cs batch sent = unat (ra_assemblyBytes st)"
  using assms
proof (induction evs arbitrary: sent st outs)
  case Nil
  then show ?case by (simp add: frames_def received_def openBudget_def budgetOf_def)
next
  case (Cons ev evs)
  obtain env j d where ev: "ev = (env, j, d)" by (cases ev)
  have j: "j < length batch" "sent j < numChunks cs (batch ! j)" "carries cs (batch ! j) (sent j) d"
    "interleaved cs batch (sent(j := Suc (sent j))) evs"
    using Cons.prems(1) by (simp_all add: ev)
  obtain out st1 where c: "consumeAdvancedChunk env (fst d) (snd d) st = (out, st1)" by fastforce
  obtain outs' where r: "consumeAll (frames evs) st1 = (outs', st')" "outs = out # outs'"
    using Cons.prems(4) c by (cases d) (auto simp: ev frames_def split: prod.splits)
  note step = midway_step [OF Cons.prems(2,3) j(1-3), of env, unfolded c fst_conv snd_conv]
  note ih = Cons.IH [OF j(4) step(1) Cons.prems(3) r(1)]
  have rec: "received outs = (case fst out of Some m \<Rightarrow> [m] | None \<Rightarrow> []) @ received outs'"
    using r(2) by (simp add: received_def)
  have "list_all2 (\<lambda>j m. delivered (batch ! j) m) (finishOrder cs batch sent (ev # evs)) (received outs)"
    using ih step(2) by (auto simp: ev rec frameResult_def split: if_splits simp del: fun_upd_apply)
  moreover have "snd (snd (snd out)) = None" using step(2) by (auto simp: frameResult_def split: if_splits)
  ultimately show ?case using ih step(3) r(2) by (simp del: fun_upd_apply)
qed

lemma finishOrder_all:
  assumes "interleaved cs batch sent evs"
  shows "mset (finishOrder cs batch sent evs) = mset_set {j. j < length batch \<and> sent j < numChunks cs (batch ! j)}"
  using assms
proof (induction evs arbitrary: sent)
  case Nil
  then have "{j. j < length batch \<and> sent j < numChunks cs (batch ! j)} = {}" by auto
  then show ?case by (simp only:) simp
next
  case (Cons ev evs)
  obtain env j d where ev: "ev = (env, j, d)" by (cases ev)
  have j: "j < length batch" "sent j < numChunks cs (batch ! j)" "interleaved cs batch (sent(j := Suc (sent j))) evs"
    using Cons.prems by (simp_all add: ev)
  let ?P = "{j. j < length batch \<and> sent j < numChunks cs (batch ! j)}"
  let ?Q = "{k. k < length batch \<and> (sent(j := Suc (sent j))) k < numChunks cs (batch ! k)}"
  have ih: "mset (finishOrder cs batch (sent(j := Suc (sent j))) evs) = mset_set ?Q"
    by (rule Cons.IH [OF j(3)])
  show ?case
  proof (cases "Suc (sent j) < numChunks cs (batch ! j)")
    case True
    then have "?Q = ?P" using j(2) by auto
    with True ih show ?thesis by (simp add: ev)
  next
    case False
    then have "?P = insert j ?Q" "j \<notin> ?Q" using j(1,2) by auto
    moreover have "finite ?Q" by simp
    ultimately have "mset_set ?P = add_mset j (mset_set ?Q)" by (metis mset_set.insert)
    with False ih show ?thesis by (simp add: ev)
  qed
qed

lemma fresh_midway:
  assumes "ra_inv st" "\<forall>a \<in> set batch. sendable (ra_negotiated st) cs (ra_maxMessageSize st) a"
    "\<forall>a \<in> set batch. map_of (ra_assemblies st) (msgKey a) = None \<and> msgKey a \<notin> ra_rejected st"
    "unat (ra_assemblyBytes st) + sum_list (map (messageBudget cs) batch) \<le> unat (ra_maxReassemblyBytes st)"
  shows "midway cs batch (\<lambda>_. 0) st"
proof -
  have "futureBudget cs batch (\<lambda>_. 0) = sum_list (map (messageBudget cs) batch)"
    by (simp add: futureBudget_def sum_list_sum_nth atLeast0LessThan)
  with assms show ?thesis by (auto simp: midway_def progress_def)
qed

lemma interleaved_batch:
  assumes "ra_inv st" "distinct (map msgKey batch)"
    "\<forall>a \<in> set batch. sendable (ra_negotiated st) cs (ra_maxMessageSize st) a"
    "\<forall>a \<in> set batch. map_of (ra_assemblies st) (msgKey a) = None \<and> msgKey a \<notin> ra_rejected st"
    "unat (ra_assemblyBytes st) + sum_list (map (messageBudget cs) batch) \<le> unat (ra_maxReassemblyBytes st)"
    "interleaved cs batch (\<lambda>_. 0) evs" "consumeAll (frames evs) st = (outs, st')"
  shows "list_all2 (\<lambda>j m. delivered (batch ! j) m) (finishOrder cs batch (\<lambda>_. 0) evs) (received outs) \<and>
    mset (finishOrder cs batch (\<lambda>_. 0) evs) = mset [0..<length batch] \<and>
    (\<forall>out \<in> set outs. snd (snd (snd out)) = None) \<and> ra_assemblyBytes st' = ra_assemblyBytes st"
proof -
  note d = interleaved_delivers [OF assms(6) fresh_midway [OF assms(1,3,4,5)] assms(2,7)]
  have "0 < numChunks cs (batch ! j)" if "j < length batch" for j
    using assms(3) nth_mem [OF that] by (auto simp: sendable_def intro: numChunks_pos)
  then have "{j. j < length batch \<and> 0 < numChunks cs (batch ! j)} = {..<length batch}" by auto
  then have "mset (finishOrder cs batch (\<lambda>_. 0) evs) = mset [0..<length batch]"
    using finishOrder_all [OF assms(6)] by (simp add: mset_upt atLeast0LessThan lessThan_def)
  moreover have "openBudget cs batch (\<lambda>_. 0) = 0" by (simp add: openBudget_def budgetOf_def)
  ultimately show ?thesis using d by (simp add: word_unat_eq_iff)
qed

text \<open>The frames of one message in order.\<close>

lemma interleaved_single:
  assumes "length envs = length ds" "sent 0 + length ds = numChunks cs a"
    "\<forall>j < length ds. carries cs a (sent 0 + j) (ds ! j)"
  shows "interleaved cs [a] sent (map2 (\<lambda>env d. (env, 0, d)) envs ds)"
  using assms
proof (induction envs ds arbitrary: sent rule: list_induct2)
  case Nil then show ?case by simp
next
  case (Cons env envs d ds)
  have "carries cs a (sent 0) d" using Cons.prems(2) by (metis add.right_neutral length_greater_0_conv list.distinct(1) nth_Cons_0)
  moreover have "\<forall>j < length ds. carries cs a (Suc (sent 0) + j) (ds ! j)"
    using Cons.prems(2) by (metis Suc_less_eq add_Suc add_Suc_right length_Cons nth_Cons_Suc)
  then have "interleaved cs [a] (sent(0 := Suc (sent 0))) (map2 (\<lambda>env d. (env, 0, d)) envs ds)"
    using Cons.prems(1) by (intro Cons.IH) simp_all
  ultimately show ?case using Cons.prems(1) by simp
qed

lemma frames_single: "length envs = length ds \<Longrightarrow>
    frames (map2 (\<lambda>env d. (env, 0, d)) envs ds) = map2 (\<lambda>env d. (env, fst d, snd d)) envs ds"
  unfolding frames_def by (induction envs ds rule: list_induct2) auto

text \<open>
  C5: chunked messages survive any interleaving. Let any number of messages with different keys be
  split into frames as \<^verbatim>\<open>sendAdvancedPayload\<close> splits them and let the frames arrive in any order that
  keeps the order within each message, while the reassembly limit has room for those of several
  chunks. Then no frame is an error, every message is handed out exactly once, when its last
  frame arrives, with the header and payload that were sent and the metadata its block was made from, whatever
  bytes the recycled buffers held; and the budget is given back.
\<close>

theorem interleaved_messages:
  assumes "ra_inv st" "distinct (map msgKey batch)"
    "\<forall>a \<in> set batch. sendable (ra_negotiated st) cs (ra_maxMessageSize st) a"
    "\<forall>a \<in> set batch. map_of (ra_assemblies st) (msgKey a) = None \<and> msgKey a \<notin> ra_rejected st"
    "unat (ra_assemblyBytes st) + sum_list (map (messageBudget cs) batch) \<le> unat (ra_maxReassemblyBytes st)"
    "interleaved cs batch (\<lambda>_. 0) evs" "consumeAll (frames evs) st = (outs, st')"
  shows "list_all2 (\<lambda>j m. delivered (batch ! j) m) (finishOrder cs batch (\<lambda>_. 0) evs) (received outs) \<and>
    mset (finishOrder cs batch (\<lambda>_. 0) evs) = mset [0..<length batch] \<and>
    (\<forall>out \<in> set outs. snd (snd (snd out)) = None) \<and> ra_assemblyBytes st' = ra_assemblyBytes st"
  by (rule interleaved_batch [OF assms])

text \<open>Two messages of 3 and 1 bytes in buffers of 2 bytes: the short one overtakes the other.\<close>

definition wit_msg :: "u64 \<Rightarrow> bytes \<Rightarrow> advMsg" where
  "wit_msg n b = \<lparr>am_conn = 0, am_id = n, am_flags = 0, am_aux = 0, am_prefix = [], am_payload = b\<rparr>"

definition wit_frame :: "u64 \<Rightarrow> bytes \<Rightarrow> nat \<Rightarrow> slotData" where
  "wit_frame n b i = fillChunk (chunkPacket 2 (wit_msg n b) (i * 2)) (chunkHead 2 (wit_msg n b) (i * 2))
     (chunkTail 2 (wit_msg n b) (i * 2)) (zeroPacket, [9, 9])"

definition wit_evs :: "frameEvent list" where
  "wit_evs = [(wit_cenv, 0, wit_frame 1 [5, 6, 7] 0), (wit_cenv, 1, wit_frame 2 [8] 0), (wit_cenv, 0, wit_frame 1 [5, 6, 7] 1)]"

theorem interleaved_messages_witness:
  "\<exists>outs st'. consumeAll (frames wit_evs) (newReassembly 0 0 0) = (outs, st') \<and>
     map Bytes (received outs) = [[8], [5, 6, 7]] \<and> ra_assemblyBytes st' = 0"
proof -
  let ?b = "[wit_msg 1 [5, 6, 7], wit_msg 2 [8]]" and ?st = "newReassembly 0 0 0"
  obtain outs st' where r: "consumeAll (frames wit_evs) ?st = (outs, st')" by fastforce
  have c: "carries 2 (wit_msg n b) i (wit_frame n b i)" for n b i
    unfolding wit_frame_def by (rule fillChunk_carries) simp
  have nc: "numChunks 2 (wit_msg 1 [5, 6, 7]) = 2" "numChunks 2 (wit_msg 2 [8]) = 1"
    by (simp_all add: numChunks_def totalSize_def wit_msg_def)
  have st: "ra_negotiated ?st = 0" "ra_maxMessageSize ?st = 67108864" "ra_assemblies ?st = []" "ra_rejected ?st = {}"
    "ra_assemblyBytes ?st = 0" "ra_maxReassemblyBytes ?st = 268435456"
    by (simp_all add: newReassembly_def hqq_consts)
  have s: "\<forall>a \<in> set ?b. sendable (ra_negotiated ?st) 2 (ra_maxMessageSize ?st) a"
    by (simp add: st sendable_def wit_msg_def totalSize_def badFlags_def plainFlags_def)
  have i: "interleaved 2 ?b (\<lambda>_. 0) wit_evs"
    using c nc by (simp add: wit_evs_def less_Suc_eq)
  have o: "finishOrder 2 ?b (\<lambda>_. 0) wit_evs = [1, 0]" using nc by (simp add: wit_evs_def)
  have "list_all2 (\<lambda>j m. delivered (?b ! j) m) [1, 0] (received outs) \<and> ra_assemblyBytes st' = 0"
    using interleaved_messages [OF ra_inv_fresh _ s _ _ i r] o st
    by (simp add: msgKey_def wit_msg_def messageBudget_def nc [unfolded wit_msg_def] totalSize_def)
  then have "map Bytes (received outs) = [[8], [5, 6, 7]] \<and> ra_assemblyBytes st' = 0"
    by (auto simp: list_all2_Cons1 delivered_def wit_msg_def)
  with r show ?thesis by (intro exI [of _ outs] exI [of _ st']) simp
qed

end
