(* ===== verification/Adv_Negotiate.thy ===== *)
theory Adv_Negotiate
  imports Connect
begin

text \<open>
  Negotiation of the Advanced Protocol (\<^verbatim>\<open>src/advanced.go\<close>): the versions and features, the calls
  \<^verbatim>\<open>NegotiateProtocol\<close>, \<^verbatim>\<open>WaitForNegotiation\<close> and \<^verbatim>\<open>Negotiate\<close> of one endpoint over what its sends
  and receives return, and the two endpoints of a link together as a step relation with a queue
  of packets in each direction.
\<close>

section \<open>Versions and state\<close>

definition featuresSince11 :: u64 where
  [hqq_consts]: "featuresSince11 = FeatureCancel OR FeatureMetadata"

definition negotiatedBit :: u64 where [hqq_consts]: "negotiatedBit = 0x8000000000000000"

record ProtocolVersion =
  pv_Major :: u8
  pv_Minor :: u8

definition currentProtocolVersion :: ProtocolVersion where
  "currentProtocolVersion = \<lparr>pv_Major = HQQProtocolMajorVersion, pv_Minor = HQQProtocolMinorVersion\<rparr>"

definition encode :: "ProtocolVersion \<Rightarrow> u64" where
  "encode v = push_bit 8 (ucast (pv_Major v)) OR ucast (pv_Minor v)"

definition decodeVersion :: "u64 \<Rightarrow> ProtocolVersion" where
  "decodeVersion v = \<lparr>pv_Major = ucast (drop_bit 8 v), pv_Minor = ucast v\<rparr>"

datatype ProtocolState = ProtocolStateNone | ProtocolStateNegotiating | ProtocolStateNegotiated | ProtocolStateFailed

record negState =
  ng_state :: ProtocolState
  ng_negotiated :: u64
  ng_version :: ProtocolVersion
  ng_features :: u64

definition negFresh :: negState where
  "negFresh = \<lparr>ng_state = ProtocolStateNone, ng_negotiated = 0, ng_version = \<lparr>pv_Major = 0, pv_Minor = 0\<rparr>, ng_features = 0\<rparr>"

definition beginNegotiation :: "negState \<Rightarrow> err option \<times> negState" where
  "beginNegotiation s =
     (if ng_state s = ProtocolStateNone then (None, s\<lparr>ng_state := ProtocolStateNegotiating\<rparr>)
      else if ng_state s = ProtocolStateFailed then (Some ErrNegotiationFailed, s)
      else (Some ErrAlreadyNegotiated, s))"

definition setProtocolFailed :: "negState \<Rightarrow> negState" where
  "setProtocolFailed s = s\<lparr>ng_state := ProtocolStateFailed\<rparr>"

definition setNegotiated :: "ProtocolVersion \<Rightarrow> u64 \<Rightarrow> negState \<Rightarrow> negState" where
  "setNegotiated v f s = \<lparr>ng_state = ProtocolStateNegotiated, ng_negotiated = negotiatedBit OR f, ng_version = v, ng_features = f\<rparr>"

definition requireNegotiated :: "negState \<Rightarrow> err option" where
  "requireNegotiated s = (if ng_negotiated s AND negotiatedBit = 0 then Some ErrNotNegotiated else None)"

definition requireFeature :: "u64 \<Rightarrow> negState \<Rightarrow> err option" where
  "requireFeature feature s =
     (if ng_negotiated s AND negotiatedBit = 0 \<or> ng_negotiated s AND feature = 0 then Some ErrNotNegotiated else None)"

section \<open>One endpoint\<close>

definition requestPacket :: "ProtocolVersion \<Rightarrow> u64 \<Rightarrow> Packet" where
  "requestPacket version features = NewPacket OpProtoNegotiate [encode version, features, 0]"

definition ackPacket :: "ProtocolVersion \<Rightarrow> u64 \<Rightarrow> Packet" where
  "ackPacket version features = NewPacket OpProtoAck [encode version, features, 0]"

definition rejectPacket :: Packet where
  "rejectPacket = NewPacket OpError [0, ErrCodeInvalidOp]"

type_synonym negResult = "(bool \<times> err option) \<times> negState \<times> Packet list"

text \<open>
  \<^verbatim>\<open>answerNegotiation\<close>: the result, the state and the packets sent. The send of the acknowledgment
  may fail (\<open>sendErr\<close>); the one of the rejection may too, which the code ignores.
\<close>

definition answerVersion :: "Packet \<Rightarrow> ProtocolVersion" where
  "answerVersion p = (let requested = decodeVersion (Operand p 0) in
     \<lparr>pv_Major = pv_Major requested, pv_Minor = min (pv_Minor requested) HQQProtocolMinorVersion\<rparr>)"

definition answerFeatures :: "Packet \<Rightarrow> u64 \<Rightarrow> u64" where
  "answerFeatures p allowed =
     (let features = (Operand p 1 AND supportedFeatures) AND allowed in
      if pv_Minor (answerVersion p) < 1 then features AND NOT featuresSince11 else features)"

definition answerNegotiation :: "err option \<Rightarrow> Packet \<Rightarrow> u64 \<Rightarrow> negState \<Rightarrow> negResult" where
  "answerNegotiation sendErr p allowed s =
     (if pv_Major (decodeVersion (Operand p 0)) \<noteq> HQQProtocolMajorVersion
      then ((False, Some ErrNegotiationRejected), setProtocolFailed s, if sendErr = None then [rejectPacket] else [])
      else case sendErr of
        Some er \<Rightarrow> ((False, Some er), setProtocolFailed s, [])
      | None \<Rightarrow> ((True, None), setNegotiated (answerVersion p) (answerFeatures p allowed) s,
                 [ackPacket (answerVersion p) (answerFeatures p allowed)]))"

definition ackAcceptable :: "u64 \<Rightarrow> Packet \<Rightarrow> bool" where
  "ackAcceptable features p \<longleftrightarrow>
     \<not> (pv_Major (decodeVersion (Operand p 0)) \<noteq> HQQProtocolMajorVersion
        \<or> pv_Minor (decodeVersion (Operand p 0)) > HQQProtocolMinorVersion
        \<or> Operand p 1 AND NOT (features AND supportedFeatures) \<noteq> 0)"

text \<open>What an endpoint does with one packet of the negotiation; \<open>None\<close> means it receives the next.\<close>

definition negotiateTurn :: "LinkMode \<Rightarrow> u64 \<Rightarrow> err option \<Rightarrow> Packet \<Rightarrow> negState \<Rightarrow> negResult option" where
  "negotiateTurn mode features sendErr p s =
     (if Op p = OpStandardLinkTombstone then None
      else if Op p = OpProtoAck then
        if ackAcceptable features p
        then Some ((True, None), setNegotiated (decodeVersion (Operand p 0)) (Operand p 1) s, [])
        else Some ((False, Some ErrNegotiationRejected), setProtocolFailed s, [])
      else if Op p = OpProtoNegotiate then
        if mode = LinkModeSecondary then Some (answerNegotiation sendErr p features s) else None
      else if Op p = OpError then Some ((False, Some ErrNegotiationRejected), setProtocolFailed s, [])
      else Some ((False, Some ErrUnexpectedPacket), setProtocolFailed s, []))"

definition waitTurn :: "u64 \<Rightarrow> err option \<Rightarrow> Packet \<Rightarrow> negState \<Rightarrow> negResult option" where
  "waitTurn allowed sendErr p s =
     (if Op p = OpStandardLinkTombstone then None
      else if Op p = OpProtoNegotiate then Some (answerNegotiation sendErr p allowed s)
      else if Op p = OpError then Some ((False, Some ErrNegotiationRejected), setProtocolFailed s, [])
      else Some ((False, Some ErrUnexpectedPacket), setProtocolFailed s, []))"

text \<open>The receive loops, over what the receives return; still waiting after them is \<open>None\<close>.\<close>

fun negLoop :: "(Packet \<Rightarrow> negState \<Rightarrow> negResult option) \<Rightarrow> (err + Packet) list \<Rightarrow> negState \<Rightarrow> negResult option" where
  "negLoop turn [] s = None"
| "negLoop turn (Inl er # obs) s = Some ((False, Some er), setProtocolFailed s, [])"
| "negLoop turn (Inr p # obs) s = (case turn p s of None \<Rightarrow> negLoop turn obs s | Some r \<Rightarrow> Some r)"

record negEnv =
  ne_requestErr :: "err option"
  ne_answerErr :: "err option"
  ne_obs :: "(err + Packet) list"

definition NegotiateProtocol :: "LinkMode \<Rightarrow> negEnv \<Rightarrow> ProtocolVersion \<Rightarrow> u64 \<Rightarrow> negState \<Rightarrow> negResult option" where
  "NegotiateProtocol mode env version features s =
     (case beginNegotiation s of
        (Some er, s1) \<Rightarrow> Some ((False, Some er), s1, [])
      | (None, s1) \<Rightarrow>
        (case ne_requestErr env of
           Some er \<Rightarrow> Some ((False, Some er), setProtocolFailed s1, [])
         | None \<Rightarrow>
             map_option (\<lambda>(r, s2, ps). (r, s2, requestPacket version features # ps))
               (negLoop (negotiateTurn mode features (ne_answerErr env)) (ne_obs env) s1)))"

definition waitForNegotiation :: "negEnv \<Rightarrow> u64 \<Rightarrow> negState \<Rightarrow> negResult option" where
  "waitForNegotiation env allowed s =
     (case beginNegotiation s of
        (Some er, s1) \<Rightarrow> Some ((False, Some er), s1, [])
      | (None, s1) \<Rightarrow> negLoop (waitTurn allowed (ne_answerErr env)) (ne_obs env) s1)"

definition WaitForNegotiation :: "negEnv \<Rightarrow> negState \<Rightarrow> negResult option" where
  "WaitForNegotiation env s = waitForNegotiation env supportedFeatures s"

definition Negotiate :: "LinkMode \<Rightarrow> negEnv \<Rightarrow> u64 \<Rightarrow> negState \<Rightarrow> (err option \<times> negState \<times> Packet list) option" where
  "Negotiate mode env features0 s =
     (let features = (if features0 = FeatureNone then supportedFeatures else features0) in
      case (if mode = LinkModePrimary then NegotiateProtocol mode env currentProtocolVersion features s
            else waitForNegotiation env features s) of
        None \<Rightarrow> None
      | Some ((ok, er), s1, ps) \<Rightarrow> Some (if er = None \<and> \<not> ok then Some ErrNegotiationRejected else er, s1, ps))"

section \<open>Two endpoints\<close>

text \<open>
  An endpoint calls \<^verbatim>\<open>NegotiateProtocol\<close> (\<open>Ask\<close>) or \<^verbatim>\<open>WaitForNegotiation\<close> (\<open>Answer\<close>); a send or a receive
  may fail where \<open>faulty\<close> allows it. The system is the Primary, the Secondary, and the packets under
  way from the Primary and from the Secondary. An endpoint that took a packet sends its answer first
  (an acknowledgment or a rejection, if any) and stores its new state afterwards: in between it is at
  \<open>NStore\<close> with the state to store.
\<close>

datatype negPlan = Ask ProtocolVersion u64 | Answer u64

datatype negPc = NStart | NSend | NRecv | NStore negState | NEnd

record negEnd =
  nd_pc :: negPc
  nd_st :: negState

fun planFeatures :: "negPlan \<Rightarrow> u64" where
  "planFeatures (Ask v f) = f" | "planFeatures (Answer f) = f"

fun planTurn :: "LinkMode \<Rightarrow> negPlan \<Rightarrow> err option \<Rightarrow> Packet \<Rightarrow> negState \<Rightarrow> negResult option" where
  "planTurn mode (Ask v f) = negotiateTurn mode f"
| "planTurn mode (Answer f) = waitTurn f"

text \<open>A step of one endpoint: it may take the first packet under way to it and send packets.\<close>

inductive nstep :: "bool \<Rightarrow> LinkMode \<Rightarrow> negPlan \<Rightarrow> negEnd \<Rightarrow> Packet list \<Rightarrow> negEnd \<Rightarrow> Packet list \<Rightarrow> Packet list \<Rightarrow> bool" where
  n_begin: "nd_pc e = NStart \<Longrightarrow> beginNegotiation (nd_st e) = (None, s) \<Longrightarrow>
     nstep faulty mode pl e inq \<lparr>nd_pc = (case pl of Ask v f \<Rightarrow> NSend | Answer f \<Rightarrow> NRecv), nd_st = s\<rparr> inq []"
| n_request: "nd_pc e = NSend \<Longrightarrow> pl = Ask v f \<Longrightarrow>
     nstep faulty mode pl e inq (e\<lparr>nd_pc := NRecv\<rparr>) inq [requestPacket v f]"
| n_fault: "faulty \<Longrightarrow> nd_pc e = NSend \<or> nd_pc e = NRecv \<Longrightarrow>
     nstep faulty mode pl e inq \<lparr>nd_pc = NEnd, nd_st = setProtocolFailed (nd_st e)\<rparr> inq []"
| n_skip: "nd_pc e = NRecv \<Longrightarrow> planTurn mode pl se p (nd_st e) = None \<Longrightarrow>
     nstep faulty mode pl e (p # inq) e inq []"
| n_turn: "nd_pc e = NRecv \<Longrightarrow> se = None \<or> faulty \<Longrightarrow> planTurn mode pl se p (nd_st e) = Some (r, s, ps) \<Longrightarrow>
     nstep faulty mode pl e (p # inq) (e\<lparr>nd_pc := NStore s\<rparr>) inq ps"
| n_store: "nd_pc e = NStore s \<Longrightarrow> nstep faulty mode pl e inq \<lparr>nd_pc = NEnd, nd_st = s\<rparr> inq []"

record negSys =
  nP :: negEnd
  nS :: negEnd
  toS :: "Packet list"
  toP :: "Packet list"

inductive sysStep :: "bool \<Rightarrow> negPlan \<Rightarrow> negPlan \<Rightarrow> negSys \<Rightarrow> negSys \<Rightarrow> bool" for faulty pp ps where
  ss_primary: "nstep faulty LinkModePrimary pp (nP x) (toP x) e q out \<Longrightarrow>
     sysStep faulty pp ps x (x\<lparr>nP := e, toP := q, toS := toS x @ out\<rparr>)"
| ss_secondary: "nstep faulty LinkModeSecondary ps (nS x) (toS x) e q out \<Longrightarrow>
     sysStep faulty pp ps x (x\<lparr>nS := e, toS := q, toP := toP x @ out\<rparr>)"

definition negInit :: negSys where
  "negInit = \<lparr>nP = \<lparr>nd_pc = NStart, nd_st = negFresh\<rparr>, nS = \<lparr>nd_pc = NStart, nd_st = negFresh\<rparr>, toS = [], toP = []\<rparr>"

inductive negReach :: "bool \<Rightarrow> negPlan \<Rightarrow> negPlan \<Rightarrow> negSys \<Rightarrow> bool" for faulty pp ps where
  nr_init: "negReach faulty pp ps negInit"
| nr_step: "negReach faulty pp ps x \<Longrightarrow> sysStep faulty pp ps x y \<Longrightarrow> negReach faulty pp ps y"

section \<open>Merged steps\<close>

text \<open>
  A simpler system for the proofs: answering and storing the new state are one step. The next sections
  are about it; the system of the code refines it.
\<close>

inductive mstep :: "bool \<Rightarrow> LinkMode \<Rightarrow> negPlan \<Rightarrow> negEnd \<Rightarrow> Packet list \<Rightarrow> negEnd \<Rightarrow> Packet list \<Rightarrow> Packet list \<Rightarrow> bool" where
  m_begin: "nd_pc e = NStart \<Longrightarrow> beginNegotiation (nd_st e) = (None, s) \<Longrightarrow>
     mstep faulty mode pl e inq \<lparr>nd_pc = (case pl of Ask v f \<Rightarrow> NSend | Answer f \<Rightarrow> NRecv), nd_st = s\<rparr> inq []"
| m_request: "nd_pc e = NSend \<Longrightarrow> pl = Ask v f \<Longrightarrow>
     mstep faulty mode pl e inq (e\<lparr>nd_pc := NRecv\<rparr>) inq [requestPacket v f]"
| m_fault: "faulty \<Longrightarrow> nd_pc e = NSend \<or> nd_pc e = NRecv \<Longrightarrow>
     mstep faulty mode pl e inq \<lparr>nd_pc = NEnd, nd_st = setProtocolFailed (nd_st e)\<rparr> inq []"
| m_skip: "nd_pc e = NRecv \<Longrightarrow> planTurn mode pl se p (nd_st e) = None \<Longrightarrow>
     mstep faulty mode pl e (p # inq) e inq []"
| m_turn: "nd_pc e = NRecv \<Longrightarrow> se = None \<or> faulty \<Longrightarrow> planTurn mode pl se p (nd_st e) = Some (r, s, ps) \<Longrightarrow>
     mstep faulty mode pl e (p # inq) \<lparr>nd_pc = NEnd, nd_st = s\<rparr> inq ps"

inductive msysStep :: "bool \<Rightarrow> negPlan \<Rightarrow> negPlan \<Rightarrow> negSys \<Rightarrow> negSys \<Rightarrow> bool" for faulty pp ps where
  ms_primary: "mstep faulty LinkModePrimary pp (nP x) (toP x) e q out \<Longrightarrow>
     msysStep faulty pp ps x (x\<lparr>nP := e, toP := q, toS := toS x @ out\<rparr>)"
| ms_secondary: "mstep faulty LinkModeSecondary ps (nS x) (toS x) e q out \<Longrightarrow>
     msysStep faulty pp ps x (x\<lparr>nS := e, toS := q, toP := toP x @ out\<rparr>)"

inductive mergedReach :: "bool \<Rightarrow> negPlan \<Rightarrow> negPlan \<Rightarrow> negSys \<Rightarrow> bool" for faulty pp ps where
  mr_init: "mergedReach faulty pp ps negInit"
| mr_step: "mergedReach faulty pp ps x \<Longrightarrow> msysStep faulty pp ps x y \<Longrightarrow> mergedReach faulty pp ps y"

section \<open>Packets\<close>

lemma decode_encode [simp]: "decodeVersion (encode v) = v"
proof -
  have lo: "(ucast (encode v) :: u8) = pv_Minor v"
    unfolding encode_def by (rule bit_eqI) (auto simp: bit_simps dest: bit_imp_le_length)
  have hi: "(ucast (drop_bit 8 (encode v)) :: u8) = pv_Major v"
    unfolding encode_def by (rule bit_eqI) (auto simp: bit_simps dest: bit_imp_le_length)
  show ?thesis by (simp add: decodeVersion_def lo hi)
qed

lemma negotiation_packets [simp]:
  "Op (requestPacket v f) = OpProtoNegotiate" "Operand (requestPacket v f) 0 = encode v" "Operand (requestPacket v f) 1 = f"
  "Op (ackPacket v f) = OpProtoAck" "Operand (ackPacket v f) 0 = encode v" "Operand (ackPacket v f) 1 = f"
  "Op rejectPacket = OpError"
  by (simp_all add: requestPacket_def ackPacket_def rejectPacket_def Operand_NewPacket PacketOperandCount_def PacketWordCount_def)

lemma op_codes [simp]:
  "OpProtoNegotiate \<noteq> OpStandardLinkTombstone" "OpProtoAck \<noteq> OpStandardLinkTombstone" "OpError \<noteq> OpStandardLinkTombstone"
  "OpProtoNegotiate \<noteq> OpProtoAck" "OpError \<noteq> OpProtoAck" "OpError \<noteq> OpProtoNegotiate" "OpProtoAck \<noteq> OpProtoNegotiate"
  "OpProtoAck \<noteq> OpError" "OpProtoNegotiate \<noteq> OpError"
  by (simp_all add: hqq_consts)

text \<open>What the endpoints may agree on: features of both sides, and of the version.\<close>

definition dealOk :: "u64 \<Rightarrow> u64 \<Rightarrow> ProtocolVersion \<Rightarrow> u64 \<Rightarrow> bool" where
  "dealOk fp fs v f \<longleftrightarrow> f AND NOT (fp AND fs AND supportedFeatures) = 0 \<and> pv_Major v = HQQProtocolMajorVersion
     \<and> pv_Minor v \<le> HQQProtocolMinorVersion \<and> (pv_Minor v < 1 \<longrightarrow> f AND featuresSince11 = 0)"

definition isNeg :: "negEnd \<Rightarrow> ProtocolVersion \<Rightarrow> u64 \<Rightarrow> bool" where
  "isNeg e v f \<longleftrightarrow> nd_pc e = NEnd \<and> nd_st e = setNegotiated v f (nd_st e)"

lemma isNeg_state: "isNeg e v f \<Longrightarrow> ng_state (nd_st e) = ProtocolStateNegotiated"
  by (metis isNeg_def negState.simps(1) setNegotiated_def)

lemma setNegotiated_idem [simp]: "setNegotiated v f (setNegotiated v' f' s) = setNegotiated v f s"
  by (simp add: setNegotiated_def)

lemma isNeg_new [simp]: "isNeg \<lparr>nd_pc = NEnd, nd_st = setNegotiated v f s\<rparr> v' f' \<longleftrightarrow> v' = v \<and> f' = f"
  by (auto simp: isNeg_def setNegotiated_def)

lemma isNeg_failed [simp]: "\<not> isNeg \<lparr>nd_pc = pc, nd_st = setProtocolFailed s\<rparr> v f"
  using isNeg_state [of "\<lparr>nd_pc = pc, nd_st = setProtocolFailed s\<rparr>" v f] by (auto simp: setProtocolFailed_def)

lemma isNeg_pc: "isNeg e v f \<Longrightarrow> nd_pc e = NEnd"
  by (simp add: isNeg_def)

lemma dealOk_commute: "dealOk a b v f = dealOk b a v f"
proof -
  have "(a AND b AND c :: u64) = b AND a AND c" for c by (rule bit_eqI) (auto simp: bit_simps)
  then show ?thesis by (simp only: dealOk_def)
qed

lemma answer_deal:
  assumes "pv_Major v = HQQProtocolMajorVersion"
  shows "dealOk f allowed (answerVersion (requestPacket v f)) (answerFeatures (requestPacket v f) allowed)"
    "dealOk allowed f (answerVersion (requestPacket v f)) (answerFeatures (requestPacket v f) allowed)"
proof -
  have sub: "(((f AND supportedFeatures) AND allowed) AND x) AND NOT (f AND allowed AND supportedFeatures) = 0" for x
    by (rule bit_eqI) (auto simp: bit_simps)
  have one: "((f AND supportedFeatures) AND allowed) AND NOT (f AND allowed AND supportedFeatures) = 0"
    using sub [of "-1"] by simp
  have strip: "(((f AND supportedFeatures) AND allowed) AND NOT featuresSince11) AND featuresSince11 = 0"
    by (rule bit_eqI) (auto simp: bit_simps)
  show d: "dealOk f allowed (answerVersion (requestPacket v f)) (answerFeatures (requestPacket v f) allowed)"
    using assms sub one strip by (simp add: dealOk_def answerVersion_def answerFeatures_def Let_def)
  show "dealOk allowed f (answerVersion (requestPacket v f)) (answerFeatures (requestPacket v f) allowed)"
    using d dealOk_commute by blast
qed

section \<open>Agreement\<close>

definition toS_ok :: "negPlan \<Rightarrow> negEnd \<Rightarrow> Packet \<Rightarrow> bool" where
  "toS_ok pp e p \<longleftrightarrow> (case pp of
       Ask v f \<Rightarrow> p = requestPacket v f
     | Answer a \<Rightarrow> p = rejectPacket \<or> (\<exists>v f. p = ackPacket v f \<and> isNeg e v f))"

definition toP_ok :: "negPlan \<Rightarrow> negPlan \<Rightarrow> negEnd \<Rightarrow> Packet \<Rightarrow> bool" where
  "toP_ok pp ps e p \<longleftrightarrow> (\<exists>v f. ps = Ask v f \<and> p = requestPacket v f)
     \<or> (\<exists>w g. pp = Ask w g \<and> (p = rejectPacket \<or> (\<exists>v f. p = ackPacket v f \<and> isNeg e v f)))"

definition ninv :: "negPlan \<Rightarrow> negPlan \<Rightarrow> negSys \<Rightarrow> bool" where
  "ninv pp ps x \<longleftrightarrow>
     (\<forall>p \<in> set (toS x). toS_ok pp (nP x) p) \<and> (\<forall>p \<in> set (toP x). toP_ok pp ps (nS x) p)
     \<and> (\<forall>v f. isNeg (nP x) v f \<or> isNeg (nS x) v f \<longrightarrow> dealOk (planFeatures pp) (planFeatures ps) v f)
     \<and> (\<forall>v f. (\<exists>w g. pp = Ask w g) \<and> isNeg (nP x) v f \<longrightarrow> isNeg (nS x) v f)
     \<and> (\<forall>v f. (\<exists>a. pp = Answer a) \<and> isNeg (nS x) v f \<longrightarrow> isNeg (nP x) v f)"

text \<open>How an endpoint ends: what it took, what it sends, and its state.\<close>

lemma planTurn_request:
  assumes "planTurn mode pl se (requestPacket v f) s = Some (r, s', out)"
  shows "(\<exists>s0. s' = setProtocolFailed s0) \<and> (out = [] \<or> out = [rejectPacket])
    \<or> pv_Major v = HQQProtocolMajorVersion \<and>
      s' = setNegotiated (answerVersion (requestPacket v f)) (answerFeatures (requestPacket v f) (planFeatures pl)) s \<and>
      out = [ackPacket (answerVersion (requestPacket v f)) (answerFeatures (requestPacket v f) (planFeatures pl))]"
    "mode = LinkModePrimary \<Longrightarrow> \<exists>a. pl = Answer a"
  using assms
  by (cases pl; auto simp: negotiateTurn_def waitTurn_def answerNegotiation_def split: if_splits option.splits)+

lemma planTurn_ack:
  assumes "planTurn mode pl se (ackPacket v f) s = Some (r, s', out)"
  shows "out = [] \<and> ((\<exists>s0. s' = setProtocolFailed s0) \<or> s' = setNegotiated v f s)"
  using assms by (cases pl) (auto simp: negotiateTurn_def waitTurn_def split: if_splits)

lemma planTurn_reject:
  assumes "planTurn mode pl se rejectPacket s = Some (r, s', out)"
  shows "out = [] \<and> (\<exists>s0. s' = setProtocolFailed s0)"
  using assms by (cases pl) (auto simp: negotiateTurn_def waitTurn_def)

lemma mstep_isNeg:
  "mstep faulty mode pl e q e' q' out \<Longrightarrow> isNeg e v f \<Longrightarrow> False"
  by (auto simp: isNeg_def elim!: mstep.cases)

lemma not_neg_pc: "pc \<noteq> NEnd \<Longrightarrow> \<not> isNeg \<lparr>nd_pc = pc, nd_st = s\<rparr> v f" "nd_pc e = NRecv \<Longrightarrow> \<not> isNeg e v f"
  "pc \<noteq> NEnd \<Longrightarrow> \<not> isNeg (e\<lparr>nd_pc := pc\<rparr>) v f"
  by (auto simp: isNeg_def)

text \<open>The packets of one direction, and the agreement, after a step of the Primary.\<close>

lemma ninv_primary:
  assumes inv: "ninv pp ps x" and st: "mstep faulty LinkModePrimary pp (nP x) (toP x) e q out"
  shows "ninv pp ps (x\<lparr>nP := e, toP := q, toS := toS x @ out\<rparr>)"
proof -
  have old: "\<not> isNeg (nP x) v f" for v f using mstep_isNeg [OF st] by blast
  have S: "\<forall>p \<in> set (toS x). toS_ok pp (nP x) p" "\<forall>p \<in> set (toP x). toP_ok pp ps (nS x) p"
    "\<And>v f. isNeg (nS x) v f \<Longrightarrow> dealOk (planFeatures pp) (planFeatures ps) v f"
    "\<And>a v f. pp = Answer a \<Longrightarrow> \<not> isNeg (nS x) v f"
    using inv old by (auto simp: ninv_def)
  have keepS: "\<forall>p \<in> set (toS x). toS_ok pp e p"
    using S(1) old by (auto simp: toS_ok_def split: negPlan.splits)
  show ?thesis
    using st
  proof cases
    case (m_turn se p r s)
    have p: "toP_ok pp ps (nS x) p" and rest: "\<forall>p \<in> set q. toP_ok pp ps (nS x) p" using S(2) m_turn(1) by simp_all
    consider (req) v f where "ps = Ask v f" "p = requestPacket v f"
      | (rej) w g where "pp = Ask w g" "p = rejectPacket"
      | (ack) w g v f where "pp = Ask w g" "p = ackPacket v f" "isNeg (nS x) v f"
      using p by (auto simp: toP_ok_def)
    then show ?thesis
    proof cases
      case req
      obtain a where a: "pp = Answer a" using planTurn_request(2) m_turn(5) req(2) by blast
      show ?thesis
        using planTurn_request(1) [OF m_turn(5) [unfolded req(2)]] S keepS rest a answer_deal [where v = v and f = f and allowed = a] req(1) m_turn(2)
        by (auto simp: ninv_def toS_ok_def)
    next
      case rej
      show ?thesis
        using planTurn_reject [OF m_turn(5) [unfolded rej(2)]] S keepS rest rej(1) m_turn(2) by (auto simp: ninv_def)
    next
      case ack
      show ?thesis
        using planTurn_ack [OF m_turn(5) [unfolded ack(2)]] S keepS rest ack m_turn(2) by (auto simp: ninv_def)
    qed
  qed (use S keepS old in \<open>auto simp: ninv_def toS_ok_def not_neg_pc split: negPlan.splits\<close>)
qed

lemma ninv_secondary:
  assumes inv: "ninv pp ps x" and st: "mstep faulty LinkModeSecondary ps (nS x) (toS x) e q out"
  shows "ninv pp ps (x\<lparr>nS := e, toS := q, toP := toP x @ out\<rparr>)"
proof -
  have old: "\<not> isNeg (nS x) v f" for v f using mstep_isNeg [OF st] by blast
  have S: "\<forall>p \<in> set (toS x). toS_ok pp (nP x) p" "\<forall>p \<in> set (toP x). toP_ok pp ps (nS x) p"
    "\<And>v f. isNeg (nP x) v f \<Longrightarrow> dealOk (planFeatures pp) (planFeatures ps) v f"
    "\<And>w g v f. pp = Ask w g \<Longrightarrow> \<not> isNeg (nP x) v f"
    using inv old by (auto simp: ninv_def)
  have keepP: "\<forall>p \<in> set (toP x). toP_ok pp ps e p"
    using S(2) old by (auto simp: toP_ok_def)
  show ?thesis
    using st
  proof cases
    case (m_turn se p r s)
    have p: "toS_ok pp (nP x) p" and rest: "\<forall>p \<in> set q. toS_ok pp (nP x) p" using S(1) m_turn(1) by simp_all
    consider (req) v f where "pp = Ask v f" "p = requestPacket v f"
      | (rej) a where "pp = Answer a" "p = rejectPacket"
      | (ack) a v f where "pp = Answer a" "p = ackPacket v f" "isNeg (nP x) v f"
      using p by (auto simp: toS_ok_def split: negPlan.splits)
    then show ?thesis
    proof cases
      case req
      show ?thesis
        using planTurn_request(1) [OF m_turn(5) [unfolded req(2)]] S keepP rest answer_deal [where v = v and f = f and allowed = "planFeatures ps"] req(1) m_turn(2)
        by (auto simp: ninv_def toP_ok_def)
    next
      case rej
      show ?thesis
        using planTurn_reject [OF m_turn(5) [unfolded rej(2)]] S keepP rest rej(1) m_turn(2) by (auto simp: ninv_def)
    next
      case ack
      show ?thesis
        using planTurn_ack [OF m_turn(5) [unfolded ack(2)]] S keepP rest ack m_turn(2) by (auto simp: ninv_def)
    qed
  qed (use S keepP old in \<open>auto simp: ninv_def toP_ok_def not_neg_pc split: negPlan.splits\<close>)
qed

lemma mergedReach_ninv: "mergedReach faulty pp ps x \<Longrightarrow> ninv pp ps x"
proof (induction rule: mergedReach.induct)
  case mr_init
  show ?case by (simp add: ninv_def negInit_def isNeg_def)
next
  case (mr_step x y)
  from mr_step(2,3) show ?case by cases (simp_all add: ninv_primary ninv_secondary)
qed

section \<open>Without faults\<close>

lemma ack_accepted:
  assumes "dealOk f fs w g \<or> dealOk fs f w g"
  shows "ackAcceptable f (ackPacket w g)"
proof -
  have d: "dealOk f fs w g" using assms dealOk_commute by blast
  then have "g AND NOT (f AND fs AND supportedFeatures) = 0" by (simp add: dealOk_def)
  then have "g AND NOT (f AND supportedFeatures) = 0"
    by (simp add: bit_eq_iff bit_simps)
  with d show ?thesis by (simp add: ackAcceptable_def dealOk_def not_less)
qed

text \<open>Where the request and its answer are while \<open>a\<close> asks and \<open>b\<close> answers.\<close>

definition asks :: "negPlan \<Rightarrow> negEnd \<Rightarrow> negEnd \<Rightarrow> Packet list \<Rightarrow> Packet list \<Rightarrow> Packet set \<Rightarrow> bool" where
  "asks pl a b ab ba rest \<longleftrightarrow> (case pl of
     Ask v f \<Rightarrow>
       ab = (if nd_pc a \<in> {NRecv, NEnd} \<and> nd_pc b \<noteq> NEnd then [requestPacket v f] else [])
       \<and> (nd_pc a = NEnd \<longrightarrow> nd_pc b = NEnd) \<and> (nd_pc b = NEnd \<longrightarrow> nd_pc a \<in> {NRecv, NEnd})
       \<and> (nd_pc b \<noteq> NEnd \<longrightarrow> set ba \<subseteq> rest)
       \<and> (nd_pc b = NEnd \<and> nd_pc a \<noteq> NEnd \<longrightarrow> (\<exists>w g pre. ba = pre @ [ackPacket w g] \<and> set pre \<subseteq> rest \<and> isNeg b w g))
   | Answer f \<Rightarrow> False)"

definition requestsOf :: "negPlan \<Rightarrow> Packet set" where
  "requestsOf pl = (case pl of Ask v f \<Rightarrow> {requestPacket v f} | Answer f \<Rightarrow> {})"

definition pcs_ok :: "negPlan \<Rightarrow> negEnd \<Rightarrow> bool" where
  "pcs_ok pl e \<longleftrightarrow> (\<forall>s. nd_pc e \<noteq> NStore s) \<and> (nd_pc e = NStart \<longrightarrow> nd_st e = negFresh) \<and> (nd_pc e = NSend \<longrightarrow> (\<exists>v f. pl = Ask v f))
     \<and> (nd_pc e = NEnd \<longrightarrow> (\<exists>v f. isNeg e v f))"

definition quietInv :: "negPlan \<Rightarrow> negPlan \<Rightarrow> negSys \<Rightarrow> bool" where
  "quietInv pp ps x \<longleftrightarrow> pcs_ok pp (nP x) \<and> pcs_ok ps (nS x) \<and>
     (case pp of Ask v f \<Rightarrow> asks pp (nP x) (nS x) (toS x) (toP x) (requestsOf ps)
      | Answer a \<Rightarrow> asks ps (nS x) (nP x) (toP x) (toS x) {})"

definition mayAgree :: "negPlan \<Rightarrow> negPlan \<Rightarrow> bool" where
  "mayAgree pp ps \<longleftrightarrow> (case pp of
       Ask v f \<Rightarrow> pv_Major v = HQQProtocolMajorVersion
     | Answer a \<Rightarrow> (case ps of Ask v f \<Rightarrow> pv_Major v = HQQProtocolMajorVersion | Answer b \<Rightarrow> False))"

lemma turn_request:
  assumes "pv_Major v = HQQProtocolMajorVersion" "\<not> (mode = LinkModePrimary \<and> (\<exists>w g. pl = Ask w g))" "mode = LinkModePrimary \<or> mode = LinkModeSecondary"
  shows "planTurn mode pl None (requestPacket v f) s =
    Some ((True, None), setNegotiated (answerVersion (requestPacket v f)) (answerFeatures (requestPacket v f) (planFeatures pl)) s,
      [ackPacket (answerVersion (requestPacket v f)) (answerFeatures (requestPacket v f) (planFeatures pl))])"
  using assms by (cases pl) (auto simp: negotiateTurn_def waitTurn_def answerNegotiation_def)

lemma turn_ack:
  assumes "ackAcceptable f (ackPacket w g)"
  shows "planTurn mode (Ask v f) se (ackPacket w g) s = Some ((True, None), setNegotiated w g s, [])"
  using assms by (simp add: negotiateTurn_def)

lemma skip_request: "planTurn LinkModePrimary (Ask v f) se (requestPacket w g) s = None"
  by (simp add: negotiateTurn_def)

lemma begin_fresh: "nd_st e = negFresh \<Longrightarrow> \<exists>s. beginNegotiation (nd_st e) = (None, s)"
  by (simp add: beginNegotiation_def negFresh_def)

text \<open>The asking endpoint takes a step.\<close>

lemma asks_step_asker:
  assumes as: "asks (Ask v f) a b ab ba rest" and pc: "pcs_ok (Ask v f) a"
    and st: "mstep False mode (Ask v f) a ba a' ba' out"
    and skips: "\<And>p se s. p \<in> rest \<Longrightarrow> planTurn mode (Ask v f) se p s = None"
    and ok: "\<And>w g. isNeg b w g \<Longrightarrow> ackAcceptable f (ackPacket w g)"
  shows "asks (Ask v f) a' b (ab @ out) ba' rest \<and> pcs_ok (Ask v f) a'"
  using st
proof cases
  case (m_begin s)
  then show ?thesis using as pc by (auto simp: asks_def pcs_ok_def)
next
  case (m_request v' f')
  then show ?thesis using as pc by (auto simp: asks_def pcs_ok_def)
next
  case (m_skip se p)
  have "nd_pc b = NEnd \<Longrightarrow> \<exists>w g pre. ba' = pre @ [ackPacket w g] \<and> set pre \<subseteq> rest \<and> isNeg b w g"
  proof -
    assume "nd_pc b = NEnd"
    then obtain w g pre where b: "p # ba' = pre @ [ackPacket w g]" "set pre \<subseteq> rest" "isNeg b w g"
      using as m_skip by (auto simp: asks_def)
    have "pre \<noteq> []" using b(1) turn_ack [OF ok [OF b(3)]] m_skip(5) by (auto simp del: planTurn.simps)
    then obtain q pre' where "pre = q # pre'" by (cases pre) auto
    with b show ?thesis by auto
  qed
  then show ?thesis using as pc m_skip by (auto simp: asks_def)
next
  case (m_turn se p r s)
  have p: "p \<notin> rest" using skips m_turn(5) by fastforce
  then have b: "nd_pc b = NEnd" using as m_turn by (auto simp: asks_def)
  then obtain w g pre where bb: "p # ba' = pre @ [ackPacket w g]" "set pre \<subseteq> rest" "isNeg b w g"
    using as m_turn by (auto simp: asks_def)
  then have "pre = []" using p by (cases pre) auto
  then have "p = ackPacket w g" "ba' = []" using bb by auto
  then have "s = setNegotiated w g (nd_st a)" "out = []" using m_turn(5) turn_ack [OF ok [OF bb(3)]] by (auto simp del: planTurn.simps)
  then show ?thesis using as pc m_turn b by (auto simp: asks_def pcs_ok_def)
qed simp

text \<open>The answering endpoint takes a step.\<close>

lemma asks_step_answerer:
  assumes as: "asks (Ask v f) a b ab ba rest" and pc: "pcs_ok pl b"
    and st: "mstep False mode pl b ab b' ab' out"
    and major: "pv_Major v = HQQProtocolMajorVersion"
    and mode: "\<not> (mode = LinkModePrimary \<and> (\<exists>w g. pl = Ask w g))" "mode = LinkModePrimary \<or> mode = LinkModeSecondary"
    and skips: "requestsOf pl \<subseteq> rest"
  shows "asks (Ask v f) a b' ab' (ba @ out) rest \<and> pcs_ok pl b'"
  using st
proof cases
  case (m_begin s)
  then show ?thesis using as pc by (auto simp: asks_def pcs_ok_def split: negPlan.splits)
next
  case (m_request v' f')
  then show ?thesis using as pc skips by (auto simp: asks_def pcs_ok_def requestsOf_def)
next
  case (m_skip se p)
  then have "p = requestPacket v f" using as by (auto simp: asks_def split: if_splits)
  then have "planTurn mode pl se (requestPacket v f) (nd_st b) = None" using m_skip by simp
  then show ?thesis using mode by (cases pl) (auto simp: negotiateTurn_def waitTurn_def)
next
  case (m_turn se p r s)
  then have p: "p = requestPacket v f" "ab' = []" "nd_pc a \<in> {NRecv, NEnd}" using as by (auto simp: asks_def split: if_splits)
  have "s = setNegotiated (answerVersion (requestPacket v f)) (answerFeatures (requestPacket v f) (planFeatures pl)) (nd_st b) \<and>
     out = [ackPacket (answerVersion (requestPacket v f)) (answerFeatures (requestPacket v f) (planFeatures pl))]"
    using m_turn(4,5) p(1) turn_request [OF major mode] by (auto simp del: planTurn.simps)
  then show ?thesis using as pc m_turn p by (auto simp: asks_def pcs_ok_def)
qed simp

lemma quietInv_step:
  assumes q: "quietInv pp ps x" and may: "mayAgree pp ps" and inv: "ninv pp ps x" and st: "msysStep False pp ps x y"
  shows "quietInv pp ps y"
proof (cases pp)
  case (Ask v f)
  have major: "pv_Major v = HQQProtocolMajorVersion" using may Ask by (simp add: mayAgree_def)
  have as: "asks (Ask v f) (nP x) (nS x) (toS x) (toP x) (requestsOf ps)" and pcs: "pcs_ok (Ask v f) (nP x)" "pcs_ok ps (nS x)"
    using q Ask by (simp_all add: quietInv_def)
  have skip: "planTurn LinkModePrimary (Ask v f) se p s = None" if "p \<in> requestsOf ps" for p se s
    using that skip_request by (auto simp: requestsOf_def simp del: planTurn.simps split: negPlan.splits)
  have acc: "ackAcceptable f (ackPacket w g)" if "isNeg (nS x) w g" for w g
    using inv that Ask by (intro ack_accepted) (auto simp: ninv_def)
  from st show ?thesis
  proof cases
    case (ms_primary e q out)
    then show ?thesis
      using asks_step_asker [OF as pcs(1) _ skip acc] pcs(2) Ask by (simp add: quietInv_def)
  next
    case (ms_secondary e q out)
    then show ?thesis
      using asks_step_answerer [OF as pcs(2) _ major _ _ subset_refl] pcs(1) Ask by (simp add: quietInv_def)
  qed
next
  case (Answer a)
  then obtain v f where ps: "ps = Ask v f" and major: "pv_Major v = HQQProtocolMajorVersion"
    using may by (auto simp: mayAgree_def split: negPlan.splits)
  have as: "asks (Ask v f) (nS x) (nP x) (toP x) (toS x) {}" and pcs: "pcs_ok (Ask v f) (nS x)" "pcs_ok pp (nP x)"
    using q Answer ps by (simp_all add: quietInv_def)
  have acc: "ackAcceptable f (ackPacket w g)" if "isNeg (nP x) w g" for w g
    using inv that ps by (intro ack_accepted) (auto simp: ninv_def)
  from st show ?thesis
  proof cases
    case (ms_primary e q out)
    then show ?thesis
      using asks_step_answerer [OF as pcs(2), of LinkModePrimary e q out] pcs(1) Answer ps major
      by (simp add: quietInv_def requestsOf_def)
  next
    case (ms_secondary e q out)
    then show ?thesis
      using asks_step_asker [OF as pcs(1), of LinkModeSecondary e q out] acc pcs(2) Answer ps by (simp add: quietInv_def)
  qed
qed

lemma mergedReach_quiet: "mergedReach False pp ps x \<Longrightarrow> mayAgree pp ps \<Longrightarrow> quietInv pp ps x"
proof (induction rule: mergedReach.induct)
  case mr_init
  then show ?case
    by (auto simp: quietInv_def negInit_def pcs_ok_def asks_def mayAgree_def split: negPlan.splits)
next
  case (mr_step x y)
  then show ?case using quietInv_step mergedReach_ninv by blast
qed

text \<open>An endpoint that has not ended and has a packet to take, or none to wait for, can go on.\<close>

lemma can_step:
  assumes "pcs_ok pl e" "nd_pc e \<noteq> NEnd" "nd_pc e = NRecv \<longrightarrow> q \<noteq> []"
  shows "\<exists>e' q' out. mstep False mode pl e q e' q' out"
proof (cases "nd_pc e")
  case NStart
  then show ?thesis using assms(1) begin_fresh [of e] m_begin [of e] unfolding pcs_ok_def by blast
next
  case NSend
  then show ?thesis using assms(1) m_request [of e] unfolding pcs_ok_def by blast
next
  case NRecv
  then obtain p q' where q: "q = p # q'" using assms(3) by (cases q) auto
  then show ?thesis
    using NRecv m_skip [of e mode pl None p] m_turn [of e None False mode pl p]
    by (cases "planTurn mode pl None p (nd_st e)") (auto, blast+)
qed (use assms in \<open>simp_all add: pcs_ok_def\<close>)

lemma stuck_agreed:
  assumes reach: "mergedReach False pp ps x" and may: "mayAgree pp ps" and stuck: "\<forall>y. \<not> msysStep False pp ps x y"
  shows "nd_pc (nP x) = NEnd \<and> nd_pc (nS x) = NEnd"
proof -
  have q: "quietInv pp ps x" using mergedReach_quiet [OF reach may] .
  have P: "nd_pc (nP x) = NEnd \<or> nd_pc (nP x) = NRecv \<and> toP x = []"
    using can_step [of pp "nP x" "toP x" LinkModePrimary] q stuck ms_primary unfolding quietInv_def by metis
  have S: "nd_pc (nS x) = NEnd \<or> nd_pc (nS x) = NRecv \<and> toS x = []"
    using can_step [of ps "nS x" "toS x" LinkModeSecondary] q stuck ms_secondary unfolding quietInv_def by metis
  show ?thesis
    using q P S may by (cases pp) (auto simp: quietInv_def asks_def mayAgree_def split: negPlan.splits)
qed

section \<open>The system refines the merged one\<close>

text \<open>An endpoint with the state it is about to store.\<close>

definition settle :: "negEnd \<Rightarrow> negEnd" where
  "settle e = (case nd_pc e of NStore s \<Rightarrow> \<lparr>nd_pc = NEnd, nd_st = s\<rparr> | _ \<Rightarrow> e)"

definition settleSys :: "negSys \<Rightarrow> negSys" where
  "settleSys x = x\<lparr>nP := settle (nP x), nS := settle (nS x)\<rparr>"

lemma settle_simps [simp]:
  "nd_pc e = NStart \<Longrightarrow> settle e = e" "nd_pc e = NSend \<Longrightarrow> settle e = e" "nd_pc e = NRecv \<Longrightarrow> settle e = e"
  "nd_pc e = NEnd \<Longrightarrow> settle e = e" "nd_pc e = NStore s \<Longrightarrow> settle e = \<lparr>nd_pc = NEnd, nd_st = s\<rparr>"
  by (simp_all add: settle_def)

lemma nstep_sim:
  assumes "nstep faulty mode pl e q e' q' out"
  shows "mstep faulty mode pl (settle e) q (settle e') q' out \<or> settle e' = settle e \<and> q' = q \<and> out = []"
  using assms
proof cases
  case (n_begin s)
  then show ?thesis using mstep.m_begin [of e s faulty mode pl q] by (cases pl) simp_all
next
  case (n_request v f)
  then show ?thesis using mstep.m_request [of e pl v f faulty mode q] by simp
next
  case n_fault
  then show ?thesis using mstep.m_fault [of faulty e mode pl q] by auto
next
  case (n_skip se p)
  then show ?thesis using mstep.m_skip [of e mode pl se p faulty q'] by simp
next
  case (n_turn se p r s)
  then show ?thesis using mstep.m_turn [of e se faulty mode pl p r s out q'] by simp
next
  case (n_store s)
  then show ?thesis by simp
qed

lemma negReach_sim: "negReach faulty pp ps x \<Longrightarrow> mergedReach faulty pp ps (settleSys x)"
proof (induction rule: negReach.induct)
  case nr_init
  have "settleSys negInit = negInit" by (simp add: settleSys_def negInit_def)
  then show ?case using mr_init by simp
next
  case (nr_step x y)
  from nr_step(2) show ?case
  proof cases
    case (ss_primary e q out)
    have y: "settleSys y = (settleSys x)\<lparr>nP := settle e, toP := q, toS := toS (settleSys x) @ out\<rparr>"
      unfolding ss_primary(1) settleSys_def by (cases x) simp
    have stay: "settleSys y = settleSys x" if "settle e = settle (nP x) \<and> q = toP x \<and> out = []"
      unfolding y using that by (cases x) (simp add: settleSys_def)
    have "msysStep faulty pp ps (settleSys x) (settleSys y)" if "mstep faulty LinkModePrimary pp (settle (nP x)) (toP x) (settle e) q out"
      unfolding y by (rule ms_primary) (use that in \<open>simp add: settleSys_def\<close>)
    then show ?thesis using nstep_sim [OF ss_primary(2)] stay nr_step(3) mr_step [OF nr_step(3)] by metis
  next
    case (ss_secondary e q out)
    have y: "settleSys y = (settleSys x)\<lparr>nS := settle e, toS := q, toP := toP (settleSys x) @ out\<rparr>"
      unfolding ss_secondary(1) settleSys_def by (cases x) simp
    have stay: "settleSys y = settleSys x" if "settle e = settle (nS x) \<and> q = toS x \<and> out = []"
      unfolding y using that by (cases x) (simp add: settleSys_def)
    have "msysStep faulty pp ps (settleSys x) (settleSys y)" if "mstep faulty LinkModeSecondary ps (settle (nS x)) (toS x) (settle e) q out"
      unfolding y by (rule ms_secondary) (use that in \<open>simp add: settleSys_def\<close>)
    then show ?thesis using nstep_sim [OF ss_secondary(2)] stay nr_step(3) mr_step [OF nr_step(3)] by metis
  qed
qed

text \<open>Where the merged system can go on, the system can; so they end in the same states.\<close>

lemma mstep_back:
  assumes "mstep faulty mode pl e q e' q' out"
  shows "\<exists>e''. nstep faulty mode pl e q e'' q' out"
  using assms
proof cases
  case (m_begin s)
  then show ?thesis using nstep.n_begin [of e s] by blast
next
  case (m_request v f)
  then show ?thesis using nstep.n_request [of e pl v f] by blast
next
  case m_fault
  then show ?thesis using nstep.n_fault [of faulty e] by blast
next
  case (m_skip se p)
  then show ?thesis using nstep.n_skip [of e mode pl se p] by blast
next
  case (m_turn se p r s)
  then show ?thesis using nstep.n_turn [of e se faulty mode pl p r s] by blast
qed

lemma stuck_settled:
  assumes "\<forall>y. \<not> sysStep faulty pp ps x y"
  shows "settleSys x = x" "\<forall>y. \<not> msysStep faulty pp ps x y"
proof -
  have P: "\<not> nstep faulty LinkModePrimary pp (nP x) (toP x) e q out" and S: "\<not> nstep faulty LinkModeSecondary ps (nS x) (toS x) e q out" for e q out
    using assms ss_primary ss_secondary by blast+
  have "nd_pc (nP x) \<noteq> NStore s" "nd_pc (nS x) \<noteq> NStore s" for s
    using P n_store S by blast+
  then have "settle (nP x) = nP x" "settle (nS x) = nS x" by (auto simp: settle_def split: negPc.splits)
  then show "settleSys x = x" by (simp add: settleSys_def)
  show "\<forall>y. \<not> msysStep faulty pp ps x y"
  proof (intro allI notI)
    fix y assume "msysStep faulty pp ps x y"
    then show False using P S by cases (metis mstep_back)+
  qed
qed

section \<open>The agreement theorem\<close>

definition pcWork :: "negPc \<Rightarrow> nat" where
  "pcWork pc = (case pc of NStart \<Rightarrow> 5 | NSend \<Rightarrow> 4 | NRecv \<Rightarrow> 2 | NStore s \<Rightarrow> 1 | NEnd \<Rightarrow> 0)"

definition negWork :: "negSys \<Rightarrow> nat" where
  "negWork x = pcWork (nd_pc (nP x)) + pcWork (nd_pc (nS x)) + length (toS x) + length (toP x)"

lemma turn_sends: "planTurn mode pl se p s = Some (r, s', out) \<Longrightarrow> length out \<le> 1"
  by (cases pl) (auto simp: negotiateTurn_def waitTurn_def answerNegotiation_def split: if_splits option.splits)

lemma nstep_work:
  "nstep faulty mode pl e q e' q' out \<Longrightarrow> pcWork (nd_pc e') + length q' + length out < pcWork (nd_pc e) + length q"
  by (induction rule: nstep.induct) (auto simp: pcWork_def dest!: turn_sends split: negPlan.splits)

lemma sysStep_work: "sysStep faulty pp ps x y \<Longrightarrow> negWork y < negWork x"
  by (induction rule: sysStep.induct) (auto simp: negWork_def dest!: nstep_work)

lemma turn_state:
  "planTurn mode pl se p s = Some (r, s', out) \<Longrightarrow>
   ng_state s' \<noteq> ProtocolStateNegotiated \<or> (\<exists>v f. s' = setNegotiated v f s)"
  by (cases pl) (auto simp: negotiateTurn_def waitTurn_def answerNegotiation_def setProtocolFailed_def split: if_splits option.splits)

definition endOk :: "negEnd \<Rightarrow> bool" where
  "endOk e \<longleftrightarrow> (ng_state (nd_st e) = ProtocolStateNegotiated \<longrightarrow> isNeg e (ng_version (nd_st e)) (ng_features (nd_st e)))
     \<and> (\<forall>s. nd_pc e = NStore s \<and> ng_state s = ProtocolStateNegotiated \<longrightarrow> s = setNegotiated (ng_version s) (ng_features s) s)"

lemma endOk_step: "nstep faulty mode pl e q e' q' out \<Longrightarrow> endOk e \<Longrightarrow> endOk e'"
proof (induction rule: nstep.induct)
  case (n_turn e se faulty mode pl p r s ps inq)
  then show ?case using turn_state [OF n_turn(3)] by (auto simp: endOk_def isNeg_def setNegotiated_def)
qed (auto simp: endOk_def isNeg_def beginNegotiation_def setProtocolFailed_def split: if_splits negPlan.splits)

lemma negReach_endOk: "negReach faulty pp ps x \<Longrightarrow> endOk (nP x) \<and> endOk (nS x)"
proof (induction rule: negReach.induct)
  case nr_init
  show ?case by (simp add: endOk_def negInit_def negFresh_def)
next
  case (nr_step x y)
  from nr_step(2,3) show ?case by cases (auto dest: endOk_step)
qed

lemma isNeg_values: "isNeg e v f \<Longrightarrow> ng_state (nd_st e) = ProtocolStateNegotiated \<and> ng_version (nd_st e) = v \<and>
   ng_features (nd_st e) = f \<and> ng_negotiated (nd_st e) = negotiatedBit OR f"
  unfolding isNeg_def setNegotiated_def by (metis negState.select_convs)

text \<open>
  C11: the endpoints of a link negotiate one protocol. In every interleaving of two endpoints that ask or
  answer, also if both ask at once and if sends and receives fail: an endpoint that is negotiated
  has features that both sides want and this version supports, version 1.0 or 1.1, and no 1.1
  feature with version 1.0; if both are negotiated they have the same version and features;
  and if the endpoint that asked (the Primary, if both did) is negotiated, the other one is negotiated
  too or has sent its acknowledgment and is about to store the same version and features.
  Every run ends; if sends and receives do not fail and the Primary asks with the right major version,
  or answers while the Secondary asks so, it ends with both negotiated.
\<close>

theorem negotiation_agrees:
  assumes "negReach faulty pp ps x"
  shows "(\<forall>e \<in> {nP x, nS x}. ng_state (nd_st e) = ProtocolStateNegotiated \<longrightarrow>
      ng_features (nd_st e) AND NOT (planFeatures pp AND planFeatures ps AND supportedFeatures) = 0 \<and>
      pv_Major (ng_version (nd_st e)) = 1 \<and> pv_Minor (ng_version (nd_st e)) \<le> 1 \<and>
      (pv_Minor (ng_version (nd_st e)) = 0 \<longrightarrow> ng_features (nd_st e) AND featuresSince11 = 0)) \<and>
    (ng_state (nd_st (nP x)) = ProtocolStateNegotiated \<and> ng_state (nd_st (nS x)) = ProtocolStateNegotiated \<longrightarrow>
      ng_version (nd_st (nP x)) = ng_version (nd_st (nS x)) \<and> ng_features (nd_st (nP x)) = ng_features (nd_st (nS x))) \<and>
    (\<forall>v f. pp = Ask v f \<longrightarrow> ng_state (nd_st (nP x)) = ProtocolStateNegotiated \<longrightarrow>
      ng_state (nd_st (nS x)) = ProtocolStateNegotiated \<or>
      nd_pc (nS x) = NStore (setNegotiated (ng_version (nd_st (nP x))) (ng_features (nd_st (nP x))) (nd_st (nS x)))) \<and>
    (\<forall>a. pp = Answer a \<longrightarrow> ng_state (nd_st (nS x)) = ProtocolStateNegotiated \<longrightarrow>
      ng_state (nd_st (nP x)) = ProtocolStateNegotiated \<or>
      nd_pc (nP x) = NStore (setNegotiated (ng_version (nd_st (nS x))) (ng_features (nd_st (nS x))) (nd_st (nP x)))) \<and>
    (\<forall>y. sysStep faulty pp ps x y \<longrightarrow> negWork y < negWork x) \<and>
    (\<not> faulty \<and> mayAgree pp ps \<and> (\<forall>y. \<not> sysStep faulty pp ps x y) \<longrightarrow>
      ng_state (nd_st (nP x)) = ProtocolStateNegotiated \<and> ng_state (nd_st (nS x)) = ProtocolStateNegotiated)"
proof -
  let ?neg = "\<lambda>e. ng_state (nd_st e) = ProtocolStateNegotiated" and ?v = "\<lambda>e. ng_version (nd_st e)" and ?f = "\<lambda>e. ng_features (nd_st e)"
  have sim: "mergedReach faulty pp ps (settleSys x)" by (rule negReach_sim [OF assms])
  have inv: "ninv pp ps (settleSys x)" by (rule mergedReach_ninv [OF sim])
  have neg: "isNeg e (?v e) (?f e) \<and> settle e = e" if "e \<in> {nP x, nS x}" "?neg e" for e
    using negReach_endOk [OF assms] that by (auto simp: endOk_def isNeg_def)
  have deal: "dealOk (planFeatures pp) (planFeatures ps) (?v e) (?f e)" if "e \<in> {nP x, nS x}" "?neg e" for e
    using neg [OF that] inv that by (auto simp: ninv_def settleSys_def)
  have ask: "isNeg (settle (nS x)) (?v (nP x)) (?f (nP x))" if "pp = Ask v f" "?neg (nP x)" for v f
    using neg [of "nP x"] inv that by (auto simp: ninv_def settleSys_def)
  have ans: "isNeg (settle (nP x)) (?v (nS x)) (?f (nS x))" if "pp = Answer a" "?neg (nS x)" for a
    using neg [of "nS x"] inv that by (auto simp: ninv_def settleSys_def)
  have same: "?v (nP x) = ?v (nS x) \<and> ?f (nP x) = ?f (nS x)" if "?neg (nP x)" "?neg (nS x)"
    using ask ans isNeg_values that neg [of "nP x"] neg [of "nS x"] by (cases pp) (metis insertI1 insertI2 singletonI)+
  have stored: "?neg e \<or> nd_pc e = NStore (setNegotiated v f (nd_st e))" if "isNeg (settle e) v f" for e v f
    using that isNeg_state [OF that] by (auto simp: settle_def isNeg_def setNegotiated_def split: negPc.splits)
  have c1: "\<forall>e \<in> {nP x, nS x}. ?neg e \<longrightarrow>
      ng_features (nd_st e) AND NOT (planFeatures pp AND planFeatures ps AND supportedFeatures) = 0 \<and>
      pv_Major (ng_version (nd_st e)) = 1 \<and> pv_Minor (ng_version (nd_st e)) \<le> 1 \<and>
      (pv_Minor (ng_version (nd_st e)) = 0 \<longrightarrow> ng_features (nd_st e) AND featuresSince11 = 0)"
    using deal by (simp add: dealOk_def HQQProtocolMajorVersion_def HQQProtocolMinorVersion_def)
  have c2: "?neg (nP x) \<and> ?neg (nS x) \<longrightarrow> ?v (nP x) = ?v (nS x) \<and> ?f (nP x) = ?f (nS x)"
    using same by simp
  have c3: "\<forall>v f. pp = Ask v f \<longrightarrow> ?neg (nP x) \<longrightarrow> ?neg (nS x) \<or> nd_pc (nS x) = NStore (setNegotiated (?v (nP x)) (?f (nP x)) (nd_st (nS x)))"
    using stored ask by blast
  have c4: "\<forall>a. pp = Answer a \<longrightarrow> ?neg (nS x) \<longrightarrow> ?neg (nP x) \<or> nd_pc (nP x) = NStore (setNegotiated (?v (nS x)) (?f (nS x)) (nd_st (nP x)))"
    using stored ans by blast
  have c5: "\<forall>y. sysStep faulty pp ps x y \<longrightarrow> negWork y < negWork x" using sysStep_work by simp
  have c6: "\<not> faulty \<and> mayAgree pp ps \<and> (\<forall>y. \<not> sysStep faulty pp ps x y) \<longrightarrow> ?neg (nP x) \<and> ?neg (nS x)"
  proof (intro impI, elim conjE)
    assume h: "\<not> faulty" "mayAgree pp ps" "\<forall>y. \<not> sysStep faulty pp ps x y"
    have r: "mergedReach False pp ps x" and st: "\<forall>y. \<not> msysStep False pp ps x y"
      using sim stuck_settled [OF h(3)] h(1) by simp_all
    show "?neg (nP x) \<and> ?neg (nS x)"
      using stuck_agreed [OF r h(2) st] mergedReach_quiet [OF r h(2)] isNeg_state by (auto simp: quietInv_def pcs_ok_def)
  qed
  show ?thesis by (intro conjI c1 c2 c3 c4 c5 c6)
qed

text \<open>Both endpoints ask, the Secondary with fewer features: the run ends with the common ones.\<close>

theorem negotiation_agrees_witness:
  "\<exists>x. negReach False (Ask currentProtocolVersion supportedFeatures) (Ask currentProtocolVersion FeatureMessages) x \<and>
     ng_state (nd_st (nP x)) = ProtocolStateNegotiated \<and> ng_state (nd_st (nS x)) = ProtocolStateNegotiated \<and>
     ng_features (nd_st (nP x)) AND NOT FeatureMessages = 0"
proof -
  let ?pp = "Ask currentProtocolVersion supportedFeatures" and ?ps = "Ask currentProtocolVersion FeatureMessages"
  have wf: "\<exists>y. negReach False ?pp ?ps y \<and> (\<forall>z. \<not> sysStep False ?pp ?ps y z)" if "negReach False ?pp ?ps x" for x
    using that
  proof (induction "negWork x" arbitrary: x rule: less_induct)
    case less
    show ?case
    proof (cases "\<exists>z. sysStep False ?pp ?ps x z")
      case True
      then obtain z where z: "sysStep False ?pp ?ps x z" by blast
      have "negWork z < negWork x" using negotiation_agrees [OF less.prems] z by blast
      then show ?thesis using less.hyps nr_step [OF less.prems z] by blast
    next
      case False
      then show ?thesis using less.prems by blast
    qed
  qed
  obtain y where y: "negReach False ?pp ?ps y" "\<forall>z. \<not> sysStep False ?pp ?ps y z" using wf [OF nr_init] by blast
  have may: "mayAgree ?pp ?ps" by (simp add: mayAgree_def currentProtocolVersion_def)
  have "ng_state (nd_st (nP y)) = ProtocolStateNegotiated" "ng_state (nd_st (nS y)) = ProtocolStateNegotiated"
    using negotiation_agrees [OF y(1)] y(2) may by blast+
  moreover have "ng_features (nd_st (nP y)) AND NOT (supportedFeatures AND FeatureMessages AND supportedFeatures) = 0"
    using negotiation_agrees [OF y(1)] calculation(1) by (simp del: bit.de_Morgan_conj)
  moreover have "supportedFeatures AND FeatureMessages AND supportedFeatures = FeatureMessages"
    by (simp add: hqq_consts supportedFeatures_def)
  ultimately show ?thesis using y(1) by metis
qed

end
