(* ===== verification/Adv_Shutdown.thy ===== *)
theory Adv_Shutdown
  imports Errors
begin

text \<open>
  Requests in flight and \<^verbatim>\<open>Shutdown\<close> (\<^verbatim>\<open>src/advanced_request.go\<close>) as a step relation: any number of
  received requests, each counted by \<^verbatim>\<open>newRequestCtx\<close>, accepted or refused by \<^verbatim>\<open>routeRequest\<close> and
  accounted by \<^verbatim>\<open>requestDone\<close> when it is released, and any number of calls of \<^verbatim>\<open>Shutdown\<close>. Every
  access to an atomic variable or a channel is a step of its own. The channel \<^verbatim>\<open>drained\<close> holds at
  most one token.
\<close>

section \<open>The step relation\<close>

datatype reqPc =
    RNone
  | RCounted     \<comment> \<open>counted in flight, \<^verbatim>\<open>shuttingDown\<close> not read yet\<close>
  | RAccepted    \<comment> \<open>handed to the request queue\<close>
  | RRefused     \<comment> \<open>answered with \<^verbatim>\<open>ErrCodeShuttingDown\<close>\<close>
  | RZero        \<comment> \<open>released as the last one, \<^verbatim>\<open>shuttingDown\<close> not read yet\<close>
  | RSignal      \<comment> \<open>about to send on \<^verbatim>\<open>drained\<close>\<close>
  | RGone

datatype sdPc = SIdle | SCheck | SWait | SStop | SReturned "err option"

record shutState =
  sh_inflight :: int
  sh_shutting :: bool
  sh_drained :: bool
  sh_stopped :: bool
  sh_closed :: bool
  sh_req :: "nat \<Rightarrow> reqPc"
  sh_sd :: "nat \<Rightarrow> sdPc"

text \<open>The label tells which steps come from outside: a request, a context that ends, the closing of the link.\<close>

datatype shutLabel = Arrive | CtxEnds nat | LinkCloses | Internal

inductive shutStep :: "shutLabel \<Rightarrow> shutState \<Rightarrow> shutState \<Rightarrow> bool" where
  q_new: "sh_req s i = RNone \<Longrightarrow>
     shutStep Arrive s (s\<lparr>sh_req := (sh_req s)(i := RCounted), sh_inflight := sh_inflight s + 1\<rparr>)"
| q_accept: "sh_req s i = RCounted \<Longrightarrow> \<not> sh_shutting s \<Longrightarrow>
     shutStep Internal s (s\<lparr>sh_req := (sh_req s)(i := RAccepted)\<rparr>)"
| q_refuse: "sh_req s i = RCounted \<Longrightarrow> sh_shutting s \<Longrightarrow>
     shutStep Internal s (s\<lparr>sh_req := (sh_req s)(i := RRefused)\<rparr>)"
| q_release: "sh_req s i = RAccepted \<or> sh_req s i = RRefused \<Longrightarrow>
     shutStep Internal s (s\<lparr>sh_inflight := sh_inflight s - 1,
       sh_req := (sh_req s)(i := if sh_inflight s - 1 = 0 then RZero else RGone)\<rparr>)"
| q_zero: "sh_req s i = RZero \<Longrightarrow>
     shutStep Internal s (s\<lparr>sh_req := (sh_req s)(i := if sh_shutting s then RSignal else RGone)\<rparr>)"
| q_signal: "sh_req s i = RSignal \<Longrightarrow>
     shutStep Internal s (s\<lparr>sh_drained := True, sh_req := (sh_req s)(i := RGone)\<rparr>)"
| d_start: "sh_sd s k = SIdle \<Longrightarrow>
     shutStep Internal s (s\<lparr>sh_shutting := True, sh_sd := (sh_sd s)(k := SCheck)\<rparr>)"
| d_wait: "sh_sd s k = SCheck \<Longrightarrow> sh_inflight s > 0 \<Longrightarrow>
     shutStep Internal s (s\<lparr>sh_sd := (sh_sd s)(k := SWait)\<rparr>)"
| d_leave: "sh_sd s k = SCheck \<Longrightarrow> \<not> sh_inflight s > 0 \<Longrightarrow>
     shutStep Internal s (s\<lparr>sh_sd := (sh_sd s)(k := SStop)\<rparr>)"
| d_token: "sh_sd s k = SWait \<Longrightarrow> sh_drained s \<Longrightarrow>
     shutStep Internal s (s\<lparr>sh_drained := False, sh_sd := (sh_sd s)(k := SCheck)\<rparr>)"
| d_ctx: "sh_sd s k = SWait \<Longrightarrow>
     shutStep (CtxEnds k) s (s\<lparr>sh_sd := (sh_sd s)(k := SReturned (Some er))\<rparr>)"
| d_closed: "sh_sd s k = SWait \<Longrightarrow> sh_closed s \<Longrightarrow>
     shutStep Internal s (s\<lparr>sh_sd := (sh_sd s)(k := SReturned (Some ErrClosed))\<rparr>)"
| d_stop: "sh_sd s k = SStop \<Longrightarrow>
     shutStep Internal s (s\<lparr>sh_stopped := True, sh_sd := (sh_sd s)(k := SReturned None)\<rparr>)"
| l_close: "shutStep LinkCloses s (s\<lparr>sh_closed := True\<rparr>)"

definition shutInit :: shutState where
  "shutInit = \<lparr>sh_inflight = 0, sh_shutting = False, sh_drained = False, sh_stopped = False, sh_closed = False,
     sh_req = (\<lambda>_. RNone), sh_sd = (\<lambda>_. SIdle)\<rparr>"

inductive shutRun :: "shutState \<Rightarrow> shutLabel list \<Rightarrow> shutState \<Rightarrow> bool" where
  run_nil: "shutRun s [] s"
| run_step: "shutRun s ls t \<Longrightarrow> shutStep l t u \<Longrightarrow> shutRun s (ls @ [l]) u"

section \<open>The count and the exit\<close>

definition countedReqs :: "(nat \<Rightarrow> reqPc) \<Rightarrow> nat set" where
  "countedReqs r = {i. r i = RCounted \<or> r i = RAccepted \<or> r i = RRefused}"

definition leftLoop :: "sdPc \<Rightarrow> bool" where
  "leftLoop p \<longleftrightarrow> p = SStop \<or> p = SReturned None"

definition shutInv :: "shutState \<Rightarrow> bool" where
  "shutInv s \<longleftrightarrow> finite (countedReqs (sh_req s)) \<and> sh_inflight s = int (card (countedReqs (sh_req s)))
     \<and> (\<forall>k. sh_sd s k \<noteq> SIdle \<longrightarrow> sh_shutting s)
     \<and> (\<forall>k i. leftLoop (sh_sd s k) \<longrightarrow> sh_req s i \<noteq> RAccepted)
     \<and> (sh_stopped s \<longrightarrow> (\<exists>k. sh_sd s k = SReturned None))"

lemma counted_update:
  "countedReqs (r(i := pc)) =
     (if pc = RCounted \<or> pc = RAccepted \<or> pc = RRefused then insert i (countedReqs r) else countedReqs r - {i})"
  by (auto simp: countedReqs_def)

lemma counted_mem: "i \<in> countedReqs r \<longleftrightarrow> r i = RCounted \<or> r i = RAccepted \<or> r i = RRefused"
  by (simp add: countedReqs_def)

lemma shutInv_step: "shutStep l s t \<Longrightarrow> shutInv s \<Longrightarrow> shutInv t"
proof (induction rule: shutStep.induct)
  case (q_release s i)
  have "i \<in> countedReqs (sh_req s)" using q_release(1) by (auto simp: counted_mem)
  then have "int (card (countedReqs (sh_req s) - {i})) = sh_inflight s - 1"
    using q_release(2) card_Suc_Diff1 [of "countedReqs (sh_req s)" i] by (simp add: shutInv_def)
  then show ?case using q_release(2) by (auto simp: shutInv_def counted_update)
next
  case (d_leave s k)
  then have "countedReqs (sh_req s) = {}" by (auto simp: shutInv_def card_gt_0_iff)
  then have "sh_req s i \<noteq> RAccepted" for i using counted_mem [of i "sh_req s"] by auto
  then show ?case using d_leave by (auto simp: shutInv_def leftLoop_def; metis sdPc.distinct)
qed (auto simp: shutInv_def counted_update counted_mem insert_absorb leftLoop_def; metis sdPc.distinct)+

lemma shutInv_init: "shutInv shutInit"
  by (simp add: shutInv_def shutInit_def countedReqs_def leftLoop_def)

lemma shutRun_inv: "shutRun s ls t \<Longrightarrow> shutInv s \<Longrightarrow> shutInv t"
  by (induction rule: shutRun.induct) (auto intro: shutInv_step)

section \<open>The wake-up of one call\<close>

definition wakeInv :: "nat \<Rightarrow> shutState \<Rightarrow> bool" where
  "wakeInv k s \<longleftrightarrow> (\<forall>j. j \<noteq> k \<longrightarrow> sh_sd s j \<noteq> SWait) \<and>
     (sh_sd s k = SWait \<and> sh_inflight s = 0 \<longrightarrow> sh_drained s \<or> (\<exists>i. sh_req s i = RZero \<or> sh_req s i = RSignal))"

text \<open>Calls other than \<open>k\<close> that never wait, as when there are none.\<close>

lemma wakeInv_step:
  "shutStep l s t \<Longrightarrow> wakeInv k s \<Longrightarrow> shutInv s \<Longrightarrow> (\<And>j. j \<noteq> k \<Longrightarrow> sh_sd t j \<noteq> SWait) \<Longrightarrow> wakeInv k t"
proof (induction rule: shutStep.induct)
  case (q_new s i)
  have "0 \<le> sh_inflight s" using q_new by (simp add: shutInv_def)
  then show ?case using q_new by (simp add: wakeInv_def)
next
  case (q_release s i)
  then show ?case by (auto simp: wakeInv_def)
next
  case (q_zero s i)
  then show ?case by (auto simp: wakeInv_def shutInv_def)
qed (auto simp: wakeInv_def split: if_splits; metis reqPc.distinct)+

lemma returned_final: "shutStep l s t \<Longrightarrow> sh_sd s k = SReturned r \<Longrightarrow> sh_sd t k = SReturned r"
  by (induction rule: shutStep.induct) auto

lemma idle_before: "shutStep l s t \<Longrightarrow> sh_sd t k = SIdle \<Longrightarrow> sh_sd s k = SIdle"
  by (induction rule: shutStep.induct) (auto split: if_splits)

lemma shutRun_wake:
  assumes "shutRun shutInit ls s" "\<forall>j. j \<noteq> k \<longrightarrow> sh_sd s j = SIdle"
  shows "wakeInv k s"
  using assms
proof (induction shutInit ls s rule: shutRun.induct)
  case run_nil
  then show ?case by (simp add: wakeInv_def shutInit_def)
next
  case (run_step ls t l u)
  have "\<forall>j. j \<noteq> k \<longrightarrow> sh_sd t j = SIdle" using idle_before [OF run_step(3)] run_step(4) by blast
  then have "wakeInv k t" using run_step(2) by blast
  then show ?case using wakeInv_step [OF run_step(3)] shutRun_inv [OF run_step(1) shutInv_init] run_step(4) by simp
qed

text \<open>A run of steps of the link's own.\<close>

definition goesOn :: "shutState \<Rightarrow> shutState \<Rightarrow> bool" where
  "goesOn s t \<longleftrightarrow> (\<exists>n. shutRun s (replicate n Internal) t)"

lemma goesOn_refl: "goesOn s s"
  unfolding goesOn_def by (rule exI [of _ 0]) (simp add: run_nil)

lemma goesOn_step: "goesOn s t \<Longrightarrow> shutStep Internal t u \<Longrightarrow> goesOn s u"
  unfolding goesOn_def using run_step [of s _ t Internal u] by (metis replicate_Suc replicate_append_same)

lemma goesOn_trans: "goesOn s t \<Longrightarrow> goesOn t u \<Longrightarrow> goesOn s u"
proof -
  have "shutRun t ls u \<Longrightarrow> (\<forall>l \<in> set ls. l = Internal) \<Longrightarrow> goesOn s t \<Longrightarrow> goesOn s u" for ls
    by (induction rule: shutRun.induct) (auto intro: goesOn_step)
  then show "goesOn s t \<Longrightarrow> goesOn t u \<Longrightarrow> goesOn s u" unfolding goesOn_def [of t u] by force
qed

lemma drained_returns:
  assumes "sh_sd s k = SWait" "sh_inflight s = 0" "sh_drained s"
  shows "\<exists>t. goesOn s t \<and> sh_sd t k = SReturned None"
proof -
  let ?s1 = "s\<lparr>sh_drained := False, sh_sd := (sh_sd s)(k := SCheck)\<rparr>"
  let ?s2 = "?s1\<lparr>sh_sd := (sh_sd ?s1)(k := SStop)\<rparr>"
  let ?s3 = "?s2\<lparr>sh_stopped := True, sh_sd := (sh_sd ?s2)(k := SReturned None)\<rparr>"
  have "goesOn s ?s1" by (rule goesOn_step [OF goesOn_refl d_token [OF assms(1,3)]])
  moreover have "shutStep Internal ?s1 ?s2" using assms(2) by (intro d_leave) simp_all
  moreover have "shutStep Internal ?s2 ?s3" by (intro d_stop) simp
  ultimately have "goesOn s ?s3" using goesOn_step by blast
  then show ?thesis by (intro exI [of _ ?s3]) simp
qed

lemma signal_returns:
  assumes "sh_sd s k = SWait" "sh_inflight s = 0" "sh_req s i = RSignal"
  shows "\<exists>t. goesOn s t \<and> sh_sd t k = SReturned None"
proof -
  let ?s1 = "s\<lparr>sh_drained := True, sh_req := (sh_req s)(i := RGone)\<rparr>"
  have "goesOn s ?s1" by (rule goesOn_step [OF goesOn_refl q_signal [OF assms(3)]])
  then show ?thesis using drained_returns [of ?s1 k] assms goesOn_trans by auto
qed

lemma zero_returns:
  assumes "sh_sd s k = SWait" "sh_inflight s = 0" "sh_req s i = RZero" "sh_shutting s"
  shows "\<exists>t. goesOn s t \<and> sh_sd t k = SReturned None"
proof -
  let ?s1 = "s\<lparr>sh_req := (sh_req s)(i := RSignal)\<rparr>"
  have "shutStep Internal s ?s1" using q_zero [OF assms(3)] assms(4) by simp
  then have "goesOn s ?s1" by (rule goesOn_step [OF goesOn_refl])
  then show ?thesis using signal_returns [of ?s1 k i] assms goesOn_trans by auto
qed

section \<open>What Shutdown guarantees\<close>

text \<open>
  C12: \<^verbatim>\<open>Shutdown\<close> drains. Whatever the interleaving of arriving, accepted, refused and released
  requests with any number of \<^verbatim>\<open>Shutdown\<close> calls: from the moment a call has left its loop, and
  ever after, no request that was accepted is unanswered, and \<^verbatim>\<open>Serve\<close> is stopped only after a call
  returned nil. If only one call was made, it is never left waiting: when nothing is in flight,
  steps of the link alone, without a further request, lead it to return nil.
\<close>

theorem shutdown_drains:
  assumes "shutRun shutInit ls s"
  shows "((\<exists>k. sh_sd s k = SStop \<or> sh_sd s k = SReturned None) \<longrightarrow> (\<forall>i. sh_req s i \<noteq> RAccepted)) \<and>
    (sh_stopped s \<longrightarrow> (\<exists>k. sh_sd s k = SReturned None)) \<and>
    (\<forall>l t k r. shutStep l s t \<and> sh_sd s k = SReturned r \<longrightarrow> sh_sd t k = SReturned r) \<and>
    (\<forall>k. sh_sd s k = SWait \<and> (\<forall>j. j \<noteq> k \<longrightarrow> sh_sd s j = SIdle) \<and> sh_inflight s = 0 \<longrightarrow>
      (\<exists>n t. shutRun s (replicate n Internal) t \<and> sh_sd t k = SReturned None))"
proof -
  have inv: "shutInv s" by (rule shutRun_inv [OF assms shutInv_init])
  have wake: "\<exists>t. goesOn s t \<and> sh_sd t k = SReturned None"
    if "sh_sd s k = SWait" "\<forall>j. j \<noteq> k \<longrightarrow> sh_sd s j = SIdle" "sh_inflight s = 0" for k
  proof -
    note k = that
    have sh: "sh_shutting s" using inv k(1) unfolding shutInv_def by (metis sdPc.distinct)
    consider "sh_drained s" | i where "sh_req s i = RZero" | i where "sh_req s i = RSignal"
      using shutRun_wake [OF assms k(2)] k(1,3) by (auto simp: wakeInv_def)
    then show ?thesis using drained_returns zero_returns signal_returns k(1,3) sh by cases blast+
  qed
  have "(\<exists>k. sh_sd s k = SStop \<or> sh_sd s k = SReturned None) \<longrightarrow> (\<forall>i. sh_req s i \<noteq> RAccepted)"
    using inv by (auto simp: shutInv_def leftLoop_def)
  moreover have "sh_stopped s \<longrightarrow> (\<exists>k. sh_sd s k = SReturned None)" using inv by (simp add: shutInv_def)
  ultimately show ?thesis using wake returned_final unfolding goesOn_def by blast
qed

text \<open>A run with one request; calls 0 and 1 of \<^verbatim>\<open>Shutdown\<close>.\<close>

definition wit_shut :: "int \<Rightarrow> bool \<Rightarrow> bool \<Rightarrow> bool \<Rightarrow> reqPc \<Rightarrow> sdPc \<Rightarrow> sdPc \<Rightarrow> shutState" where
  "wit_shut n shutting drained stopped r d0 d1 =
     \<lparr>sh_inflight = n, sh_shutting = shutting, sh_drained = drained, sh_stopped = stopped, sh_closed = False,
      sh_req = (\<lambda>_. RNone)(0 := r), sh_sd = (\<lambda>_. SIdle)(0 := d0, 1 := d1)\<rparr>"

lemma wit_shut_eq: "wit_shut 0 False False False RNone SIdle SIdle = shutInit"
  by (simp add: wit_shut_def shutInit_def fun_eq_iff)

lemma wit_steps:
  "shutStep Arrive (wit_shut 0 False dr sp RNone d0 d1) (wit_shut 1 False dr sp RCounted d0 d1)"
  "shutStep Internal (wit_shut 1 False dr sp RCounted d0 d1) (wit_shut 1 False dr sp RAccepted d0 d1)"
  "shutStep Internal (wit_shut n sh dr sp r SIdle d1) (wit_shut n True dr sp r SCheck d1)"
  "shutStep Internal (wit_shut n sh dr sp r d0 SIdle) (wit_shut n True dr sp r d0 SCheck)"
  "shutStep Internal (wit_shut 1 sh dr sp r SCheck d1) (wit_shut 1 sh dr sp r SWait d1)"
  "shutStep Internal (wit_shut 1 sh dr sp r d0 SCheck) (wit_shut 1 sh dr sp r d0 SWait)"
  "shutStep Internal (wit_shut 1 sh dr sp RAccepted d0 d1) (wit_shut 0 sh dr sp RZero d0 d1)"
  "shutStep Internal (wit_shut n True dr sp RZero d0 d1) (wit_shut n True dr sp RSignal d0 d1)"
  "shutStep Internal (wit_shut n sh dr sp RSignal d0 d1) (wit_shut n sh True sp RGone d0 d1)"
  "shutStep Internal (wit_shut n sh True sp r SWait d1) (wit_shut n sh False sp r SCheck d1)"
  "shutStep Internal (wit_shut 0 sh dr sp r SCheck d1) (wit_shut 0 sh dr sp r SStop d1)"
  "shutStep Internal (wit_shut n sh dr sp r SStop d1) (wit_shut n sh dr True r (SReturned None) d1)"
  using q_new [of "wit_shut 0 False dr sp RNone d0 d1" 0] q_accept [of "wit_shut 1 False dr sp RCounted d0 d1" 0]
    d_start [of "wit_shut n sh dr sp r SIdle d1" 0] d_start [of "wit_shut n sh dr sp r d0 SIdle" 1]
    d_wait [of "wit_shut 1 sh dr sp r SCheck d1" 0] d_wait [of "wit_shut 1 sh dr sp r d0 SCheck" 1]
    q_release [of "wit_shut 1 sh dr sp RAccepted d0 d1" 0] q_zero [of "wit_shut n True dr sp RZero d0 d1" 0]
    q_signal [of "wit_shut n sh dr sp RSignal d0 d1" 0] d_token [of "wit_shut n sh True sp r SWait d1" 0]
    d_leave [of "wit_shut 0 sh dr sp r SCheck d1" 0] d_stop [of "wit_shut n sh dr sp r SStop d1" 0]
  by (simp_all add: wit_shut_def fun_upd_twist [of "0::nat" "1::nat"] fun_upd_twist [of "0::nat" "Suc 0"])

text \<open>One call waits while the request is released: it will return.\<close>

lemma wit_run_one:
  "\<exists>ls. shutRun shutInit ls (wit_shut 0 True False False RZero SWait SIdle)"
  using run_step [OF run_step [OF run_step [OF run_step [OF run_step [OF run_nil
    wit_steps(1)] wit_steps(2)] wit_steps(3)] wit_steps(5)] wit_steps(7), of False False SIdle]
  unfolding wit_shut_eq by blast

theorem shutdown_drains_witness:
  "\<exists>ls s. shutRun shutInit ls s \<and> sh_sd s 0 = SWait \<and> sh_inflight s = 0 \<and>
     (\<exists>n t. shutRun s (replicate n Internal) t \<and> sh_sd t 0 = SReturned None)"
proof -
  let ?s = "wit_shut 0 True False False RZero SWait SIdle"
  obtain ls where r: "shutRun shutInit ls ?s" using wit_run_one by blast
  have k: "sh_sd ?s 0 = SWait \<and> (\<forall>j. j \<noteq> 0 \<longrightarrow> sh_sd ?s j = SIdle) \<and> sh_inflight ?s = 0"
    by (simp add: wit_shut_def)
  then show ?thesis using shutdown_drains [OF r] r by blast
qed

section \<open>Two calls\<close>

text \<open>Two calls wait; the last request ends, and its token wakes call 0 only.\<close>

lemma wit_run_two:
  "\<exists>ls. shutRun shutInit ls (wit_shut 0 True False True RGone (SReturned None) SWait)"
proof -
  have "\<exists>ls. shutRun shutInit ls (wit_shut 0 True False False RZero SWait SWait)"
    using run_step [OF run_step [OF run_step [OF run_step [OF run_step [OF run_step [OF run_step [OF run_nil
      wit_steps(1)] wit_steps(2)] wit_steps(3)] wit_steps(5)] wit_steps(4)] wit_steps(6)] wit_steps(7), of False False]
    unfolding wit_shut_eq by blast
  then obtain ls where "shutRun shutInit ls (wit_shut 0 True False False RZero SWait SWait)" ..
  from run_step [OF run_step [OF run_step [OF run_step [OF run_step [OF this
    wit_steps(8)] wit_steps(9)] wit_steps(10)] wit_steps(11)] wit_steps(12)]
  show ?thesis by blast
qed

definition deadWait :: "nat \<Rightarrow> shutState \<Rightarrow> bool" where
  "deadWait k s \<longleftrightarrow> sh_sd s k = SWait \<and> \<not> sh_drained s \<and> \<not> sh_closed s \<and> (\<forall>i. sh_req s i = RNone \<or> sh_req s i = RGone)"

lemma deadWait_step:
  "shutStep l s t \<Longrightarrow> deadWait k s \<Longrightarrow> l \<noteq> Arrive \<Longrightarrow> l \<noteq> CtxEnds k \<Longrightarrow> l \<noteq> LinkCloses \<Longrightarrow> deadWait k t"
proof (induction rule: shutStep.induct)
  case (q_accept s i) then show ?case by (auto simp: deadWait_def dest: spec [of _ i])
next
  case (q_refuse s i) then show ?case by (auto simp: deadWait_def dest: spec [of _ i])
next
  case (q_release s i) then show ?case by (auto simp: deadWait_def dest: spec [of _ i])
next
  case (q_zero s i) then show ?case by (auto simp: deadWait_def dest: spec [of _ i])
next
  case (q_signal s i) then show ?case by (auto simp: deadWait_def dest: spec [of _ i])
qed (auto simp: deadWait_def)

lemma deadWait_run:
  "shutRun s ls t \<Longrightarrow> deadWait k s \<Longrightarrow> Arrive \<notin> set ls \<Longrightarrow> CtxEnds k \<notin> set ls \<Longrightarrow> LinkCloses \<notin> set ls \<Longrightarrow> deadWait k t"
proof (induction rule: shutRun.induct)
  case (run_step s ls t l u)
  then show ?case using deadWait_step [OF run_step(2), of k] by (cases l) auto
qed

text \<open>
  C40: the limit of the guarantee: two calls of \<^verbatim>\<open>Shutdown\<close> that wait at the same time share one token.
  There is a run in which the last request ends, one call takes the token and returns nil, and the
  other waits although nothing is in flight; whatever the link does from there on, it keeps waiting
  until another request arrives, its context ends or the link is closed.
\<close>

theorem concurrent_shutdown_stranded:
  "\<exists>ls s. shutRun shutInit ls s \<and> sh_inflight s = 0 \<and> sh_stopped s \<and> sh_sd s 0 = SReturned None \<and> sh_sd s 1 = SWait \<and>
     (\<forall>ls' t. shutRun s ls' t \<and> Arrive \<notin> set ls' \<and> CtxEnds 1 \<notin> set ls' \<and> LinkCloses \<notin> set ls' \<longrightarrow> sh_sd t 1 = SWait)"
proof -
  let ?s = "wit_shut 0 True False True RGone (SReturned None) SWait"
  obtain ls where r: "shutRun shutInit ls ?s" using wit_run_two by blast
  have d: "deadWait 1 ?s" by (simp add: deadWait_def wit_shut_def)
  have f: "sh_inflight ?s = 0 \<and> sh_stopped ?s \<and> sh_sd ?s 0 = SReturned None \<and> sh_sd ?s 1 = SWait"
    by (simp add: wit_shut_def)
  have "\<forall>ls' t. shutRun ?s ls' t \<and> Arrive \<notin> set ls' \<and> CtxEnds 1 \<notin> set ls' \<and> LinkCloses \<notin> set ls' \<longrightarrow> sh_sd t 1 = SWait"
    using deadWait_run [OF _ d] unfolding deadWait_def by blast
  with r f show ?thesis by blast
qed

theorem concurrent_shutdown_stranded_witness:
  "\<exists>s. sh_sd s 1 = SWait \<and> sh_inflight s = 0 \<and> (\<forall>t. shutStep Internal s t \<longrightarrow> sh_sd t 1 = SWait)"
proof -
  obtain ls s where s: "sh_inflight s = 0" "sh_sd s 1 = SWait"
    "\<forall>ls' t. shutRun s ls' t \<and> Arrive \<notin> set ls' \<and> CtxEnds 1 \<notin> set ls' \<and> LinkCloses \<notin> set ls' \<longrightarrow> sh_sd t 1 = SWait"
    using concurrent_shutdown_stranded by blast
  have "sh_sd t 1 = SWait" if "shutStep Internal s t" for t
  proof -
    have "shutRun s [Internal] t" using run_step [OF run_nil that] by simp
    then show ?thesis using s(3) by (metis empty_iff empty_set set_ConsD shutLabel.distinct)
  qed
  with s show ?thesis by blast
qed

end
