(* ===== verification/Adv_Calls.thy ===== *)
theory Adv_Calls
  imports Adv_Send Adv_Negotiate
begin

text \<open>
  The calls that wait for a response (\<^verbatim>\<open>src/advanced_dispatch.go\<close>, \<^verbatim>\<open>awaitResponse\<close> of
  \<^verbatim>\<open>advanced_io.go\<close>): the table of pending calls, the one-shot channels they wait on, which are
  recycled through \<^verbatim>\<open>pendingPool\<close>, and the calls that gave up. Then the goroutines that use them, as a
  step relation: a section under \<^verbatim>\<open>pendingMu\<close>, and each use of a channel, is one step.
\<close>

section \<open>The table\<close>

type_synonym advancedCallKey = "u64 \<times> u64"
type_synonym advancedDispatchResult = "Message option \<times> err option"

definition maxAbandonedCalls :: nat where [hqq_consts]: "maxAbandonedCalls = 4096"

text \<open>Channels are numbered; \<open>ct_chan\<close> is what a channel, of capacity 1, holds.\<close>

record callTable =
  ct_pendingCalls :: "advancedCallKey \<rightharpoonup> nat"
  ct_abandoned :: "advancedCallKey set"
  ct_abandonedOrder :: "advancedCallKey list"
  ct_chan :: "nat \<rightharpoonup> advancedDispatchResult"
  ct_pool :: "nat set"
  ct_droppedMessages :: nat
  ct_abandonedResponses :: nat

definition noCalls :: callTable where
  "noCalls = \<lparr>ct_pendingCalls = Map.empty, ct_abandoned = {}, ct_abandonedOrder = [], ct_chan = Map.empty,
     ct_pool = {}, ct_droppedMessages = 0, ct_abandonedResponses = 0\<rparr>"

definition callKey :: "advHeader \<Rightarrow> advancedCallKey" where
  "callKey h = (ah_streamID h, ah_messageID h)"

text \<open>The channel \<open>ch\<close> comes from \<^verbatim>\<open>pendingPool.Get\<close>.\<close>

definition registerPendingCall :: "advancedCallKey \<Rightarrow> nat \<Rightarrow> callTable \<Rightarrow> callTable" where
  "registerPendingCall key ch t =
     t\<lparr>ct_pendingCalls := (ct_pendingCalls t)(key \<mapsto> ch), ct_pool := ct_pool t - {ch}\<rparr>"

definition unregisterPendingCall :: "advancedCallKey \<Rightarrow> nat \<Rightarrow> callTable \<Rightarrow> bool \<times> callTable" where
  "unregisterPendingCall key ch t =
     (if ct_pendingCalls t key = Some ch
      then (True, t\<lparr>ct_pendingCalls := (ct_pendingCalls t)(key := None), ct_pool := insert ch (ct_pool t)\<rparr>)
      else (False, t))"

definition abandonCall :: "advancedCallKey \<Rightarrow> nat \<Rightarrow> callTable \<Rightarrow> bool \<times> callTable" where
  "abandonCall key ch t =
     (if ct_pendingCalls t key \<noteq> Some ch then (False, t)
      else (let full = length (ct_abandonedOrder t) \<ge> maxAbandonedCalls;
                order = (if full then tl (ct_abandonedOrder t) else ct_abandonedOrder t);
                abandoned = (if full then ct_abandoned t - {hd (ct_abandonedOrder t)} else ct_abandoned t) in
            (True, t\<lparr>ct_pendingCalls := (ct_pendingCalls t)(key := None),
               ct_abandoned := insert key abandoned, ct_abandonedOrder := order @ [key]\<rparr>)))"

text \<open>The packet for the control sender, if the peer is told.\<close>

definition cancelPending :: "u64 \<Rightarrow> advancedCallKey \<Rightarrow> Packet option" where
  "cancelPending negotiated key =
     (if negotiated AND FeatureCancel = 0 then None else Some (NewPacket OpCancel [fst key, snd key]))"

definition giveUp :: "u64 \<Rightarrow> advancedCallKey \<Rightarrow> nat \<Rightarrow> bool \<Rightarrow> callTable \<Rightarrow> Packet option \<times> callTable" where
  "giveUp negotiated key ch canceled t =
     (let (ok, t') = abandonCall key ch t in
      (if ok \<and> canceled then cancelPending negotiated key else None, t'))"

text \<open>\<^verbatim>\<open>routeResponse\<close> up to its unlock: the channel of the call, or what becomes of the response.\<close>

definition takePending :: "advHeader \<Rightarrow> Message option \<Rightarrow> callTable \<Rightarrow> nat option \<times> callTable" where
  "takePending hdr m t =
     (let key = callKey hdr in
      case ct_pendingCalls t key of
        Some ch \<Rightarrow> (Some ch, t\<lparr>ct_pendingCalls := (ct_pendingCalls t)(key := None)\<rparr>)
      | None \<Rightarrow>
          if key \<in> ct_abandoned t
          then (None, t\<lparr>ct_abandoned := ct_abandoned t - {key}, ct_abandonedResponses := ct_abandonedResponses t + 1\<rparr>)
          else (None, if m = None then t else t\<lparr>ct_droppedMessages := ct_droppedMessages t + 1\<rparr>))"

text \<open>A send on a channel; \<open>None\<close> while the channel is full.\<close>

definition sendResult :: "nat \<Rightarrow> advancedDispatchResult \<Rightarrow> callTable \<Rightarrow> callTable option" where
  "sendResult ch r t =
     (case ct_chan t ch of None \<Rightarrow> Some (t\<lparr>ct_chan := (ct_chan t)(ch \<mapsto> r)\<rparr>) | Some _ \<Rightarrow> None)"

definition routeResponse :: "advHeader \<Rightarrow> Message option \<Rightarrow> err option \<Rightarrow> callTable \<Rightarrow> (bool \<times> callTable) option" where
  "routeResponse hdr m abortErr t =
     (case takePending hdr m t of
        (None, t1) \<Rightarrow> Some (False, t1)
      | (Some ch, t1) \<Rightarrow> map_option (Pair True) (sendResult ch (m, abortErr) t1))"

definition failCall :: "err \<Rightarrow> advancedCallKey \<Rightarrow> callTable \<Rightarrow> callTable" where
  "failCall er key t =
     (case ct_pendingCalls t key of
        None \<Rightarrow> t
      | Some ch \<Rightarrow>
          (let t1 = t\<lparr>ct_pendingCalls := (ct_pendingCalls t)(key := None)\<rparr> in
           case sendResult ch (None, Some er) t1 of Some t2 \<Rightarrow> t2 | None \<Rightarrow> t1))"

text \<open>The keys in the order the map is swept.\<close>

definition failPendingCalls :: "err \<Rightarrow> advancedCallKey list \<Rightarrow> callTable \<Rightarrow> callTable" where
  "failPendingCalls er keys t = fold (failCall er) keys t"

text \<open>A caller takes its result and recycles the channel.\<close>

definition receiveResult :: "nat \<Rightarrow> callTable \<Rightarrow> (advancedDispatchResult \<times> callTable) option" where
  "receiveResult ch t =
     (case ct_chan t ch of
        None \<Rightarrow> None
      | Some r \<Rightarrow> Some (r, t\<lparr>ct_chan := (ct_chan t)(ch := None), ct_pool := insert ch (ct_pool t)\<rparr>))"

section \<open>Callers and receivers\<close>

text \<open>
  A caller sends its request, then waits in \<^verbatim>\<open>awaitResponse\<close>; a receiver has taken the entry of a call
  and is about to send on its channel.
\<close>

datatype callPc =
    KIdle
  | KSend advancedCallKey nat
  | KWait advancedCallKey nat
  | KDone advancedCallKey advancedDispatchResult

datatype routePc = RouteIdle | RoutePut advHeader nat advancedDispatchResult

record callSys =
  cs_gen :: u64
  cs_tab :: callTable
  cs_call :: "nat \<Rightarrow> callPc"
  cs_route :: "nat \<Rightarrow> routePc"

fun callHolds :: "callPc \<Rightarrow> (advancedCallKey \<times> nat) option" where
  "callHolds (KSend k ch) = Some (k, ch)"
| "callHolds (KWait k ch) = Some (k, ch)"
| "callHolds _ = None"

text \<open>A channel for \<^verbatim>\<open>pendingPool.Get\<close> is a pooled one or a new one, which nobody refers to.\<close>

definition freshCall :: "nat \<Rightarrow> callSys \<Rightarrow> bool" where
  "freshCall ch s \<longleftrightarrow> ch \<in> ct_pool (cs_tab s) \<or>
     ct_chan (cs_tab s) ch = None \<and> ch \<notin> ran (ct_pendingCalls (cs_tab s)) \<and>
     (\<forall>c k. callHolds (cs_call s c) \<noteq> Some (k, ch)) \<and> (\<forall>j hdr r. cs_route s j \<noteq> RoutePut hdr ch r)"

text \<open>The flag tells whether the step takes a message ID.\<close>

inductive callStep :: "bool \<Rightarrow> callSys \<Rightarrow> callSys \<Rightarrow> bool" where
  c_call: "cs_call s c = KIdle \<Longrightarrow> freshCall ch s \<Longrightarrow> nextMessageID (cs_gen s) = (g, mid) \<Longrightarrow>
     callStep True s (s\<lparr>cs_gen := g, cs_tab := registerPendingCall (sid, mid) ch (cs_tab s),
       cs_call := (cs_call s)(c := KSend (sid, mid) ch)\<rparr>)"
| c_sendFails: "cs_call s c = KSend k ch \<Longrightarrow>
     callStep False s (s\<lparr>cs_tab := snd (unregisterPendingCall k ch (cs_tab s)),
       cs_call := (cs_call s)(c := KDone k (None, Some er))\<rparr>)"
| c_sent: "cs_call s c = KSend k ch \<Longrightarrow>
     callStep False s (s\<lparr>cs_call := (cs_call s)(c := KWait k ch)\<rparr>)"
| c_receive: "cs_call s c = KWait k ch \<Longrightarrow> receiveResult ch (cs_tab s) = Some (r, t) \<Longrightarrow>
     callStep False s (s\<lparr>cs_tab := t, cs_call := (cs_call s)(c := KDone k r)\<rparr>)"
| c_giveUp: "cs_call s c = KWait k ch \<Longrightarrow>
     callStep False s (s\<lparr>cs_tab := snd (giveUp negotiated k ch canceled (cs_tab s)),
       cs_call := (cs_call s)(c := KDone k (None, Some er))\<rparr>)"
| c_noDispatcher: "cs_call s c = KWait k ch \<Longrightarrow>
     callStep False s (s\<lparr>cs_tab := snd (unregisterPendingCall k ch (cs_tab s)),
       cs_call := (cs_call s)(c := KDone k (None, Some er))\<rparr>)"
| r_take: "cs_route s j = RouteIdle \<Longrightarrow> takePending hdr m (cs_tab s) = (Some ch, t) \<Longrightarrow>
     (case m of Some x \<Rightarrow> ms_hdr x = hdr \<and> abortErr = None | None \<Rightarrow> abortErr \<noteq> None) \<Longrightarrow>
     callStep False s (s\<lparr>cs_tab := t, cs_route := (cs_route s)(j := RoutePut hdr ch (m, abortErr))\<rparr>)"
| r_none: "takePending hdr m (cs_tab s) = (None, t) \<Longrightarrow> callStep False s (s\<lparr>cs_tab := t\<rparr>)"
| r_put: "cs_route s j = RoutePut hdr ch r \<Longrightarrow> sendResult ch r (cs_tab s) = Some t \<Longrightarrow>
     callStep False s (s\<lparr>cs_tab := t, cs_route := (cs_route s)(j := RouteIdle)\<rparr>)"
| f_fail: "set keys = dom (ct_pendingCalls (cs_tab s)) \<Longrightarrow>
     callStep False s (s\<lparr>cs_tab := failPendingCalls er keys (cs_tab s)\<rparr>)"

definition callInit :: "callSys" where
  "callInit = \<lparr>cs_gen = 0, cs_tab = noCalls, cs_call = (\<lambda>_. KIdle), cs_route = (\<lambda>_. RouteIdle)\<rparr>"

text \<open>Reached with \<open>n\<close> calls made so far.\<close>

inductive callReach :: "nat \<Rightarrow> callSys \<Rightarrow> bool" where
  reach_init: "callReach 0 callInit"
| reach_step: "callReach n s \<Longrightarrow> callStep new s t \<Longrightarrow> callReach (if new then Suc n else n) t"

section \<open>Who refers to a channel\<close>

fun callOf :: "callPc \<Rightarrow> advancedCallKey option" where
  "callOf KIdle = None"
| "callOf (KSend k ch) = Some k"
| "callOf (KWait k ch) = Some k"
| "callOf (KDone k r) = Some k"

definition keysInv :: "nat \<Rightarrow> callSys \<Rightarrow> bool" where
  "keysInv n s \<longleftrightarrow> cs_gen s = of_nat n \<and>
     (\<forall>c k. callOf (cs_call s c) = Some k \<longrightarrow> (\<exists>j. 0 < j \<and> j \<le> n \<and> snd k = of_nat j)) \<and>
     (\<forall>c c' k k'. callOf (cs_call s c) = Some k \<longrightarrow> callOf (cs_call s c') = Some k' \<longrightarrow> snd k = snd k' \<longrightarrow> c = c')"

definition forCall :: "advancedCallKey \<Rightarrow> advancedDispatchResult \<Rightarrow> bool" where
  "forCall k r \<longleftrightarrow> (\<forall>m. fst r = Some m \<longrightarrow> callKey (ms_hdr m) = k)"

text \<open>
  The invariant for the callers \<open>C\<close>, the receivers \<open>R\<close> and the table: who may refer to a channel.
\<close>

definition chanInv :: "(nat \<Rightarrow> callPc) \<Rightarrow> (nat \<Rightarrow> routePc) \<Rightarrow> (advancedCallKey \<rightharpoonup> nat) \<Rightarrow> (nat \<rightharpoonup> advancedDispatchResult) \<Rightarrow> nat set \<Rightarrow> bool" where
  "chanInv C R pend chan pool \<longleftrightarrow>
     (\<forall>k ch. pend k = Some ch \<longrightarrow> (\<exists>c. callHolds (C c) = Some (k, ch))) \<and>
     (\<forall>c c' k k' ch. callHolds (C c) = Some (k, ch) \<longrightarrow> callHolds (C c') = Some (k', ch) \<longrightarrow> c = c') \<and>
     (\<forall>j hdr ch r. R j = RoutePut hdr ch r \<longrightarrow>
        chan ch = None \<and> ch \<notin> pool \<and> (\<forall>k. pend k \<noteq> Some ch) \<and> forCall (callKey hdr) r \<and>
        (\<forall>c k. callHolds (C c) = Some (k, ch) \<longrightarrow> k = callKey hdr)) \<and>
     (\<forall>j j' hdr hdr' ch r r'. R j = RoutePut hdr ch r \<longrightarrow> R j' = RoutePut hdr' ch r' \<longrightarrow> j = j') \<and>
     (\<forall>ch r. chan ch = Some r \<longrightarrow>
        ch \<notin> pool \<and> (\<forall>k. pend k \<noteq> Some ch) \<and> (\<forall>c k. callHolds (C c) = Some (k, ch) \<longrightarrow> forCall k r)) \<and>
     (\<forall>ch k. ch \<in> pool \<longrightarrow> pend k \<noteq> Some ch \<and> (\<forall>c. callHolds (C c) \<noteq> Some (k, ch))) \<and>
     (\<forall>c k ch. callHolds (C c) = Some (k, ch) \<longrightarrow>
        pend k = Some ch \<or> chan ch \<noteq> None \<or> (\<exists>j hdr r. R j = RoutePut hdr ch r)) \<and>
     (\<forall>c k r. C c = KDone k r \<longrightarrow> forCall k r)"

lemma chanInvD:
  assumes "chanInv C R pend chan pool"
  shows "pend k = Some ch \<Longrightarrow> \<exists>c. callHolds (C c) = Some (k, ch)"
    "callHolds (C c) = Some (k, ch) \<Longrightarrow> callHolds (C c') = Some (k', ch) \<Longrightarrow> c = c'"
    "R j = RoutePut hdr ch r \<Longrightarrow> chan ch = None \<and> ch \<notin> pool \<and> pend k \<noteq> Some ch \<and> forCall (callKey hdr) r"
    "R j = RoutePut hdr ch r \<Longrightarrow> callHolds (C c) = Some (k, ch) \<Longrightarrow> k = callKey hdr"
    "R j = RoutePut hdr ch r \<Longrightarrow> R j' = RoutePut hdr' ch r' \<Longrightarrow> j = j'"
    "chan ch = Some r \<Longrightarrow> ch \<notin> pool \<and> pend k \<noteq> Some ch"
    "chan ch = Some r \<Longrightarrow> callHolds (C c) = Some (k, ch) \<Longrightarrow> forCall k r"
    "ch \<in> pool \<Longrightarrow> pend k \<noteq> Some ch \<and> callHolds (C c) \<noteq> Some (k, ch)"
    "callHolds (C c) = Some (k, ch) \<Longrightarrow>
        pend k = Some ch \<or> chan ch \<noteq> None \<or> (\<exists>j hdr r. R j = RoutePut hdr ch r)"
    "C c = KDone k r \<Longrightarrow> forCall k r"
proof -
  note a = assms [unfolded chanInv_def]
  show "pend k = Some ch \<Longrightarrow> \<exists>c. callHolds (C c) = Some (k, ch)" using a by (elim conjE) metis
  show "callHolds (C c) = Some (k, ch) \<Longrightarrow> callHolds (C c') = Some (k', ch) \<Longrightarrow> c = c'" using a by (elim conjE) metis
  show "R j = RoutePut hdr ch r \<Longrightarrow> chan ch = None \<and> ch \<notin> pool \<and> pend k \<noteq> Some ch \<and> forCall (callKey hdr) r" using a by (elim conjE) metis
  show "R j = RoutePut hdr ch r \<Longrightarrow> callHolds (C c) = Some (k, ch) \<Longrightarrow> k = callKey hdr" using a by (elim conjE) metis
  show "R j = RoutePut hdr ch r \<Longrightarrow> R j' = RoutePut hdr' ch r' \<Longrightarrow> j = j'" using a by (elim conjE) metis
  show "chan ch = Some r \<Longrightarrow> ch \<notin> pool \<and> pend k \<noteq> Some ch" using a by (elim conjE) metis
  show "chan ch = Some r \<Longrightarrow> callHolds (C c) = Some (k, ch) \<Longrightarrow> forCall k r" using a by (elim conjE) metis
  show "ch \<in> pool \<Longrightarrow> pend k \<noteq> Some ch \<and> callHolds (C c) \<noteq> Some (k, ch)" using a by (elim conjE) metis
  show "callHolds (C c) = Some (k, ch) \<Longrightarrow>
      pend k = Some ch \<or> chan ch \<noteq> None \<or> (\<exists>j hdr r. R j = RoutePut hdr ch r)" using a by (elim conjE) metis
  show "C c = KDone k r \<Longrightarrow> forCall k r" using a by (elim conjE) metis
qed

lemma chanInvI:
  assumes "\<And>k ch. pend k = Some ch \<Longrightarrow> \<exists>c. callHolds (C c) = Some (k, ch)"
    "\<And>c c' k k' ch. callHolds (C c) = Some (k, ch) \<Longrightarrow> callHolds (C c') = Some (k', ch) \<Longrightarrow> c = c'"
    "\<And>j hdr ch r k. R j = RoutePut hdr ch r \<Longrightarrow> chan ch = None \<and> ch \<notin> pool \<and> pend k \<noteq> Some ch \<and> forCall (callKey hdr) r"
    "\<And>j hdr ch r c k. R j = RoutePut hdr ch r \<Longrightarrow> callHolds (C c) = Some (k, ch) \<Longrightarrow> k = callKey hdr"
    "\<And>j j' hdr hdr' ch r r'. R j = RoutePut hdr ch r \<Longrightarrow> R j' = RoutePut hdr' ch r' \<Longrightarrow> j = j'"
    "\<And>ch r k. chan ch = Some r \<Longrightarrow> ch \<notin> pool \<and> pend k \<noteq> Some ch"
    "\<And>ch r c k. chan ch = Some r \<Longrightarrow> callHolds (C c) = Some (k, ch) \<Longrightarrow> forCall k r"
    "\<And>ch k c. ch \<in> pool \<Longrightarrow> pend k \<noteq> Some ch \<and> callHolds (C c) \<noteq> Some (k, ch)"
    "\<And>c k ch. callHolds (C c) = Some (k, ch) \<Longrightarrow>
        pend k = Some ch \<or> chan ch \<noteq> None \<or> (\<exists>j hdr r. R j = RoutePut hdr ch r)"
    "\<And>c k r. C c = KDone k r \<Longrightarrow> forCall k r"
  shows "chanInv C R pend chan pool"
  unfolding chanInv_def by (intro conjI allI impI) (fact assms | metis assms)+

lemmas pairs_off = split_paired_All split_paired_Ex

abbreviation tabInv :: "(nat \<Rightarrow> callPc) \<Rightarrow> (nat \<Rightarrow> routePc) \<Rightarrow> callTable \<Rightarrow> bool" where
  "tabInv C R t \<equiv> chanInv C R (ct_pendingCalls t) (ct_chan t) (ct_pool t)"

lemma forCall_None [simp]: "forCall k (None, e)"
  by (simp add: forCall_def)

lemma callHolds_callOf: "callHolds p = Some (k, ch) \<Longrightarrow> callOf p = Some k"
  by (cases p) auto

lemma chanInv_start:
  assumes inv: "chanInv C R pend chan pool" and c: "C c = KIdle" and k: "\<forall>c'. callOf (C c') \<noteq> Some k"
    and ch: "ch \<in> pool \<or> chan ch = None \<and> ch \<notin> ran pend \<and> (\<forall>c k. callHolds (C c) \<noteq> Some (k, ch)) \<and> (\<forall>j hdr r. R j \<noteq> RoutePut hdr ch r)"
  shows "chanInv (C(c := KSend k ch)) R (pend(k \<mapsto> ch)) chan (pool - {ch})"
proof -
  note D = chanInvD [OF inv]
  have nh: "callHolds (C c') \<noteq> Some (k', ch)" for c' k' using ch D(8) by blast
  have np: "pend k' \<noteq> Some ch" for k' using D(1) nh by blast
  have nc: "chan ch = None" using ch D(6) by (metis option.exhaust)
  have nr: "R j \<noteq> RoutePut hdr ch r" for j hdr r using ch D(3) by blast
  have nk: "pend k = None" using D(1) k callHolds_callOf by (metis not_None_eq)
  have c': "callHolds (C c) = None" using c by simp
  have h: "callHolds ((C(c := KSend k ch)) c') = Some (k', ch') \<longleftrightarrow>
      c' = c \<and> k' = k \<and> ch' = ch \<or> callHolds (C c') = Some (k', ch')" for c' k' ch'
    using c' by auto
  have p: "(pend(k \<mapsto> ch)) k' = Some ch' \<longleftrightarrow> k' = k \<and> ch' = ch \<or> pend k' = Some ch'" for k' ch'
    using nk by auto
  show ?thesis
  proof (rule chanInvI, unfold h p, goal_cases)
    case (1 k' ch') then show ?case using D(1) by blast
  next
    case (2 c1 c2 k1 k2 ch') then show ?case using D(2) nh by blast
  next
    case (3 j hdr ch' r k') then show ?case using D(3) nr by blast
  next
    case (4 j hdr ch' r c1 k') then show ?case using D(4) nr by blast
  next
    case (5 j j' hdr hdr' ch' r r') then show ?case using D(5) by blast
  next
    case (6 ch' r k') then show ?case using D(6) nc by auto
  next
    case (7 ch' r c1 k') then show ?case using D(7) nc by (metis option.distinct(1))
  next
    case (8 ch' k' c1) then show ?case using D(8) by auto
  next
    case (9 c1 k' ch') then show ?case using D(9) [of c1 k' ch'] by (cases "ch' = ch") blast+
  next
    case (10 c1 k' r) then show ?case using D(10) [of c1 k' r] by (auto split: if_splits)
  qed
qed

text \<open>A caller leaves with its result; if it removed its entry itself its channel may be recycled.\<close>

lemma chanInv_leave:
  assumes inv: "chanInv C R pend chan pool" and c: "callHolds (C c) = Some (k, ch)" and r: "forCall k r"
    and p: "\<And>k' ch'. pend' k' = Some ch' \<longleftrightarrow> pend k' = Some ch' \<and> ch' \<noteq> ch"
    and q: "pool' = pool \<or> pool' = insert ch pool \<and> pend k = Some ch"
  shows "chanInv (C(c := KDone k r)) R pend' chan pool'"
proof -
  note D = chanInvD [OF inv]
  have h: "callHolds ((C(c := KDone k r)) c') = Some (k', ch') \<longleftrightarrow> callHolds (C c') = Some (k', ch') \<and> ch' \<noteq> ch" for c' k' ch'
    using c D(2) [OF c, of c' k'] by auto
  have pq: "ch' \<in> pool' \<longleftrightarrow> ch' \<in> pool \<or> ch' = ch \<and> pool' \<noteq> pool" for ch' using q by auto
  have ent: "pool' \<noteq> pool \<Longrightarrow> pend k = Some ch" using q by auto
  show ?thesis
  proof (rule chanInvI, unfold h p pq, goal_cases)
    case (1 k' ch') then show ?case using D(1) by blast
  next
    case (2 c1 c2 k1 k2 ch') then show ?case using D(2) by blast
  next
    case (3 j hdr ch' r k') then show ?case using D(3) ent by blast
  next
    case (4 j hdr ch' r c1 k') then show ?case using D(4) by blast
  next
    case (5 j j' hdr hdr' ch' r r') then show ?case using D(5) by blast
  next
    case (6 ch' r k') then show ?case using D(6) ent by blast
  next
    case (7 ch' r c1 k') then show ?case using D(7) by blast
  next
    case (8 ch' k' c1) then show ?case using D(8) by blast
  next
    case (9 c1 k' ch') then show ?case using D(9) [of c1 k' ch'] by (cases "ch' = ch") blast+
  next
    case (10 c1 k' r') then show ?case using D(10) [of c1 k' r'] r by (auto split: if_splits)
  qed
qed

lemma chanInv_receive:
  assumes inv: "chanInv C R pend chan pool" and c: "callHolds (C c) = Some (k, ch)" and r: "chan ch = Some r"
  shows "chanInv (C(c := KDone k r)) R pend (chan(ch := None)) (insert ch pool)"
proof -
  note D = chanInvD [OF inv]
  have h: "callHolds ((C(c := KDone k r)) c') = Some (k', ch') \<longleftrightarrow> callHolds (C c') = Some (k', ch') \<and> ch' \<noteq> ch" for c' k' ch'
    using c D(2) [OF c, of c' k'] by auto
  have g: "(chan(ch := None)) ch' = Some r' \<longleftrightarrow> chan ch' = Some r' \<and> ch' \<noteq> ch"
    "(chan(ch := None)) ch' = None \<longleftrightarrow> chan ch' = None \<or> ch' = ch" for ch' r' by auto
  have nr: "R j \<noteq> RoutePut hdr ch r'" for j hdr r' using D(3) r by (metis option.distinct(1))
  have np: "pend k' \<noteq> Some ch" for k' using D(6) r by blast
  show ?thesis
  proof (rule chanInvI, unfold h g insert_iff, goal_cases)
    case (1 k' ch') then show ?case using D(1) np by blast
  next
    case (2 c1 c2 k1 k2 ch') then show ?case using D(2) by blast
  next
    case (3 j hdr ch' r k') then show ?case using D(3) nr by blast
  next
    case (4 j hdr ch' r c1 k') then show ?case using D(4) by blast
  next
    case (5 j j' hdr hdr' ch' r r') then show ?case using D(5) by blast
  next
    case (6 ch' r k') then show ?case using D(6) by blast
  next
    case (7 ch' r c1 k') then show ?case using D(7) by blast
  next
    case (8 ch' k' c1) then show ?case using D(8) np by blast
  next
    case (9 c1 k' ch') then show ?case using D(9) [of c1 k' ch'] by (cases "ch' = ch") blast+
  next
    case (10 c1 k' r') then show ?case using D(10) [of c1 k' r'] D(7) [OF r c] by (auto split: if_splits)
  qed
qed

lemma chanInv_sent:
  assumes inv: "chanInv C R pend chan pool" and c: "C c = KSend k ch"
  shows "chanInv (C(c := KWait k ch)) R pend chan pool"
proof -
  have h: "callHolds ((C(c := KWait k ch)) c') = callHolds (C c')" for c' using c by simp
  have d: "(C(c := KWait k ch)) c' = KDone k' r \<longleftrightarrow> C c' = KDone k' r" for c' k' r using c by auto
  show ?thesis using inv unfolding chanInv_def h d .
qed

lemma chanInv_take:
  assumes inv: "chanInv C R pend chan pool" and j: "R j = RouteIdle"
    and ch: "pend (callKey hdr) = Some ch" and r: "forCall (callKey hdr) r"
  shows "chanInv C (R(j := RoutePut hdr ch r)) (pend(callKey hdr := None)) chan pool"
proof -
  note D = chanInvD [OF inv]
  obtain c where c: "callHolds (C c) = Some (callKey hdr, ch)" using D(1) ch by blast
  have own: "callHolds (C c') = Some (k, ch) \<Longrightarrow> k = callKey hdr" for c' k using D(2) [OF _ c] c by auto
  have p: "(pend(callKey hdr := None)) k' = Some ch' \<longleftrightarrow> pend k' = Some ch' \<and> ch' \<noteq> ch" for k' ch'
    using ch D(1) [of k' ch] own [of _ k'] by auto
  have g: "(R(j := RoutePut hdr ch r)) j' = RoutePut hdr' ch' r' \<longleftrightarrow>
      j' = j \<and> hdr' = hdr \<and> ch' = ch \<and> r' = r \<or> R j' = RoutePut hdr' ch' r'" for j' hdr' ch' r' using j by auto
  have nc: "chan ch = None" "ch \<notin> pool" using D(6,8) ch by (metis option.exhaust, blast)
  have nr: "R j' \<noteq> RoutePut hdr' ch r'" for j' hdr' r' using D(3) ch by blast
  show ?thesis
  proof (rule chanInvI, unfold g p, goal_cases)
    case (1 k' ch') then show ?case using D(1) by blast
  next
    case (2 c1 c2 k1 k2 ch') then show ?case using D(2) by blast
  next
    case (3 j' hdr' ch' r' k') then show ?case using D(3) nc r by blast
  next
    case (4 j' hdr' ch' r' c1 k') then show ?case using D(4) own by blast
  next
    case (5 j1 j2 hdr1 hdr2 ch' r1 r2) then show ?case using D(5) nr by blast
  next
    case (6 ch' r k') then show ?case using D(6) by blast
  next
    case (7 ch' r c1 k') then show ?case using D(7) by blast
  next
    case (8 ch' k' c1) then show ?case using D(8) by blast
  next
    case (9 c1 k' ch') then show ?case using D(9) [of c1 k' ch'] by (cases "ch' = ch") blast+
  next
    case (10 c1 k' r') then show ?case using D(10) by blast
  qed
qed

lemma chanInv_put:
  assumes inv: "chanInv C R pend chan pool" and j: "R j = RoutePut hdr ch r"
  shows "chanInv C (R(j := RouteIdle)) pend (chan(ch \<mapsto> r)) pool"
proof -
  note D = chanInvD [OF inv]
  have g: "(R(j := RouteIdle)) j' = RoutePut hdr' ch' r' \<longleftrightarrow> R j' = RoutePut hdr' ch' r' \<and> ch' \<noteq> ch" for j' hdr' ch' r'
    using j D(5) [OF j, of j' hdr' r'] by auto
  have f: "(chan(ch \<mapsto> r)) ch' = Some r' \<longleftrightarrow> ch' = ch \<and> r' = r \<or> ch' \<noteq> ch \<and> chan ch' = Some r'"
    "(chan(ch \<mapsto> r)) ch' = None \<longleftrightarrow> ch' \<noteq> ch \<and> chan ch' = None" for ch' r' by auto
  show ?thesis
  proof (rule chanInvI, unfold g f, goal_cases)
    case (1 k' ch') then show ?case using D(1) by blast
  next
    case (2 c1 c2 k1 k2 ch') then show ?case using D(2) by blast
  next
    case (3 j' hdr' ch' r' k') then show ?case using D(3) by blast
  next
    case (4 j' hdr' ch' r' c1 k') then show ?case using D(4) by blast
  next
    case (5 j1 j2 hdr1 hdr2 ch' r1 r2) then show ?case using D(5) by blast
  next
    case (6 ch' r k') then show ?case using D(6) D(3) [OF j] by blast
  next
    case (7 ch' r' c1 k') then show ?case using D(7) D(3,4) [OF j] by blast
  next
    case (8 ch' k' c1) then show ?case using D(8) by blast
  next
    case (9 c1 k' ch') then show ?case using D(9) [of c1 k' ch'] by (cases "ch' = ch") blast+
  next
    case (10 c1 k' r') then show ?case using D(10) by blast
  qed
qed

lemma chanInv_fail:
  assumes inv: "chanInv C R pend chan pool" and k: "pend k = Some ch"
  shows "chan ch = None" "chanInv C R (pend(k := None)) (chan(ch \<mapsto> (None, er))) pool"
proof -
  note D = chanInvD [OF inv]
  obtain c where c: "callHolds (C c) = Some (k, ch)" using D(1) k by blast
  have p: "(pend(k := None)) k' = Some ch' \<longleftrightarrow> pend k' = Some ch' \<and> ch' \<noteq> ch" for k' ch'
    using k D(1) [of k' ch] D(2) [OF c, of _ k'] c by auto
  have f: "(chan(ch \<mapsto> (None, er))) ch' = Some r' \<longleftrightarrow> ch' = ch \<and> r' = (None, er) \<or> ch' \<noteq> ch \<and> chan ch' = Some r'"
    "(chan(ch \<mapsto> (None, er))) ch' = None \<longleftrightarrow> ch' \<noteq> ch \<and> chan ch' = None" for ch' r' by auto
  have nr: "R j' \<noteq> RoutePut hdr' ch r'" for j' hdr' r' using D(3) k by blast
  show "chan ch = None" using D(6) k by (metis option.exhaust)
  show "chanInv C R (pend(k := None)) (chan(ch \<mapsto> (None, er))) pool"
  proof (rule chanInvI, unfold p f, goal_cases)
    case (1 k' ch') then show ?case using D(1) by blast
  next
    case (2 c1 c2 k1 k2 ch') then show ?case using D(2) by blast
  next
    case (3 j' hdr' ch' r' k') then show ?case using D(3) nr by blast
  next
    case (4 j' hdr' ch' r' c1 k') then show ?case using D(4) by blast
  next
    case (5 j1 j2 hdr1 hdr2 ch' r1 r2) then show ?case using D(5) by blast
  next
    case (6 ch' r k') then show ?case using D(6,8) k by blast
  next
    case (7 ch' r' c1 k') then show ?case using D(7) forCall_None by blast
  next
    case (8 ch' k' c1) then show ?case using D(8) by blast
  next
    case (9 c1 k' ch') then show ?case using D(9) [of c1 k' ch'] by (cases "ch' = ch") blast+
  next
    case (10 c1 k' r') then show ?case using D(10) by blast
  qed
qed

definition orderInv :: "callTable \<Rightarrow> bool" where
  "orderInv t \<longleftrightarrow> ct_abandoned t \<subseteq> set (ct_abandonedOrder t) \<and> length (ct_abandonedOrder t) \<le> maxAbandonedCalls"

lemma orderInv_ops:
  assumes "orderInv t"
  shows "orderInv (registerPendingCall k ch t)" "orderInv (snd (unregisterPendingCall k ch t))"
    "orderInv (snd (giveUp negotiated k ch canceled t))" "orderInv (snd (takePending hdr m t))"
    "sendResult ch r t = Some t' \<Longrightarrow> orderInv t'" "receiveResult ch t = Some (r, t') \<Longrightarrow> orderInv t'"
    "orderInv (failCall er k t)"
proof -
  have ab: "orderInv (snd (abandonCall k ch t))"
  proof (cases "ct_pendingCalls t k = Some ch \<and> length (ct_abandonedOrder t) \<ge> maxAbandonedCalls")
    case True
    then have "ct_abandonedOrder t \<noteq> []" by (auto simp: maxAbandonedCalls_def)
    then have "set (ct_abandonedOrder t) = insert (hd (ct_abandonedOrder t)) (set (tl (ct_abandonedOrder t)))"
      by (cases "ct_abandonedOrder t") auto
    then show ?thesis using True assms by (auto simp: orderInv_def abandonCall_def Let_def maxAbandonedCalls_def)
  next
    case False
    then show ?thesis using assms by (auto simp: orderInv_def abandonCall_def Let_def)
  qed
  then show "orderInv (snd (giveUp negotiated k ch canceled t))" by (auto simp: giveUp_def split: prod.splits)
  show "orderInv (registerPendingCall k ch t)" "orderInv (snd (unregisterPendingCall k ch t))"
    using assms by (auto simp: orderInv_def registerPendingCall_def unregisterPendingCall_def)
  show "orderInv (snd (takePending hdr m t))"
    using assms by (auto simp: orderInv_def takePending_def Let_def split: option.split)
  show "sendResult ch r t = Some t' \<Longrightarrow> orderInv t'" "receiveResult ch t = Some (r, t') \<Longrightarrow> orderInv t'"
    using assms by (auto simp: orderInv_def sendResult_def receiveResult_def split: option.splits)
  show "orderInv (failCall er k t)"
    using assms by (simp add: orderInv_def failCall_def sendResult_def Let_def split: option.split)
qed

lemma failPendingCalls_order: "orderInv t \<Longrightarrow> orderInv (failPendingCalls er keys t)"
  unfolding failPendingCalls_def by (induction keys arbitrary: t) (simp_all add: orderInv_ops(7))

lemma failCall_inv:
  assumes "tabInv C R t"
  shows "tabInv C R (failCall er k t)"
    "ct_pendingCalls (failCall er k t) = (ct_pendingCalls t)(k := None)"
    "ct_pendingCalls t k = Some ch \<Longrightarrow> ct_chan (failCall er k t) = (ct_chan t)(ch \<mapsto> (None, Some er))"
    "ct_pendingCalls t k = None \<Longrightarrow> failCall er k t = t"
proof -
  show "ct_pendingCalls (failCall er k t) = (ct_pendingCalls t)(k := None)"
    by (auto simp: failCall_def Let_def sendResult_def fun_upd_idem split: option.split)
  show c: "ct_chan (failCall er k t) = (ct_chan t)(ch \<mapsto> (None, Some er))" if "ct_pendingCalls t k = Some ch" for ch
    using chanInv_fail(1) [OF assms that] that by (simp add: failCall_def Let_def sendResult_def)
  show n: "failCall er k t = t" if "ct_pendingCalls t k = None" using that by (simp add: failCall_def)
  show "tabInv C R (failCall er k t)"
  proof (cases "ct_pendingCalls t k")
    case None then show ?thesis using n assms by simp
  next
    case (Some ch)
    then have "ct_pool (failCall er k t) = ct_pool t" by (simp add: failCall_def Let_def sendResult_def split: option.split)
    then show ?thesis
      using chanInv_fail(2) [OF assms Some] c [OF Some] \<open>ct_pendingCalls (failCall er k t) = _\<close> by simp
  qed
qed

lemma failPendingCalls_inv:
  "tabInv C R t \<Longrightarrow> tabInv C R (failPendingCalls er keys t)
     \<and> ct_pendingCalls (failPendingCalls er keys t) = (ct_pendingCalls t) |` (- set keys)"
proof (induction keys arbitrary: t)
  case Nil then show ?case by (simp add: failPendingCalls_def restrict_map_def)
next
  case (Cons k keys)
  have "tabInv C R (failCall er k t)" using failCall_inv(1) [OF Cons(2)] .
  from Cons(1) [OF this] failCall_inv(2) [OF Cons(2)] show ?case
    by (auto simp: failPendingCalls_def restrict_map_def fun_eq_iff)
qed

lemma keysInv_same:
  assumes "keysInv n s" "cs_gen t = cs_gen s" "\<And>c. callOf (cs_call t c) = callOf (cs_call s c)"
  shows "keysInv n t"
  using assms unfolding keysInv_def by simp

lemma keysInvD:
  assumes "keysInv n s"
  shows "cs_gen s = of_nat n" "callOf (cs_call s c) = Some k \<Longrightarrow> \<exists>j. 0 < j \<and> j \<le> n \<and> snd k = of_nat j"
    "callOf (cs_call s c) = Some k \<Longrightarrow> callOf (cs_call s c') = Some k' \<Longrightarrow> snd k = snd k' \<Longrightarrow> c = c'"
proof -
  note a = assms [unfolded keysInv_def]
  show "cs_gen s = of_nat n" using a by (elim conjE)
  show "callOf (cs_call s c) = Some k \<Longrightarrow> \<exists>j. 0 < j \<and> j \<le> n \<and> snd k = of_nat j" using a by (elim conjE) metis
  show "callOf (cs_call s c) = Some k \<Longrightarrow> callOf (cs_call s c') = Some k' \<Longrightarrow> snd k = snd k' \<Longrightarrow> c = c'"
    using a by (elim conjE) metis
qed

lemma keysInv_call:
  assumes inv: "keysInv n s" and n: "Suc n < 2 ^ 64" and c: "cs_call s c = KIdle" and i: "nextMessageID (cs_gen s) = (g, mid)"
  shows "\<forall>c'. callOf (cs_call s c') \<noteq> Some (sid, mid)"
    "keysInv (Suc n) (s\<lparr>cs_gen := g, cs_tab := t, cs_call := (cs_call s)(c := KSend (sid, mid) ch)\<rparr>)"
proof -
  have un: "unat (of_nat j :: u64) = j" if "j \<le> Suc n" for j
    using that n by (intro unat_of_nat_self) simp
  have "(of_nat n :: u64) + 1 \<noteq> 0" using un [of "Suc n"] by (metis nat.distinct(1) le_refl of_nat_Suc add.commute unat_0)
  moreover have "cs_gen s = of_nat n" using keysInvD(1) [OF inv] .
  ultimately have "g = of_nat n + 1 \<and> mid = of_nat n + 1" using i by (auto simp: nextMessageID_def)
  then have m: "g = of_nat (Suc n)" "mid = of_nat (Suc n)" by simp_all
  have new: "snd k \<noteq> mid" if "callOf (cs_call s c') = Some k" for c' k
  proof -
    have "\<exists>j. 0 < j \<and> j \<le> n \<and> snd k = of_nat j" using keysInvD(2) [OF inv that] .
    then obtain j where "0 < j" "j \<le> n" "snd k = of_nat j" by blast
    then show ?thesis using un [of j] un [of "Suc n"] m by (metis le_SucI le_refl not_less_eq_eq)
  qed
  show "\<forall>c'. callOf (cs_call s c') \<noteq> Some (sid, mid)" using new by (metis snd_conv)
  have h: "callOf (((cs_call s)(c := KSend (sid, mid) ch)) c') = Some k \<longleftrightarrow>
      c' = c \<and> k = (sid, mid) \<or> c' \<noteq> c \<and> callOf (cs_call s c') = Some k" for c' k by auto
  show "keysInv (Suc n) (s\<lparr>cs_gen := g, cs_tab := t, cs_call := (cs_call s)(c := KSend (sid, mid) ch)\<rparr>)"
    unfolding keysInv_def
  proof (intro conjI allI impI, goal_cases)
    case 1 then show ?case using m by simp
  next
    case (2 c' k)
    then consider "k = (sid, mid)" | "callOf (cs_call s c') = Some k" by (auto simp: h simp del: fun_upd_apply)
    then show ?case
    proof cases
      case 1 then show ?thesis using m by (intro exI [of _ "Suc n"]) simp
    next
      case 2 then show ?thesis using keysInvD(2) [OF inv] le_SucI by blast
    qed
  next
    case (3 c1 c2 k1 k2)
    then have "c1 = c \<and> k1 = (sid, mid) \<or> callOf (cs_call s c1) = Some k1" "c2 = c \<and> k2 = (sid, mid) \<or> callOf (cs_call s c2) = Some k2"
      by (auto simp: h simp del: fun_upd_apply)
    then show ?case using 3(3) new keysInvD(3) [OF inv] by (metis snd_conv)
  qed
qed

lemma unregister_inv:
  assumes inv: "tabInv C R t" and c: "callHolds (C c) = Some (k, ch)"
  shows "tabInv (C(c := KDone k (None, er))) R (snd (unregisterPendingCall k ch t))"
    "tabInv (C(c := KDone k (None, er))) R (snd (giveUp negotiated k ch canceled t))"
proof -
  note D = chanInvD [OF inv]
  have own: "ct_pendingCalls t k' = Some ch \<Longrightarrow> k' = k" for k' using D(1) [of k' ch] D(2) [OF c, of _ k'] c by auto
  have same: "tabInv (C(c := KDone k (None, er))) R t" if n: "ct_pendingCalls t k \<noteq> Some ch"
    by (rule chanInv_leave [OF inv c]) (use own n in auto)
  have p: "((ct_pendingCalls t)(k := None)) k' = Some ch' \<longleftrightarrow> ct_pendingCalls t k' = Some ch' \<and> ch' \<noteq> ch"
    if "ct_pendingCalls t k = Some ch" for k' ch' using own [of k'] that by (cases "k' = k") force+
  show "tabInv (C(c := KDone k (None, er))) R (snd (unregisterPendingCall k ch t))"
  proof (cases "ct_pendingCalls t k = Some ch")
    case True
    have "chanInv (C(c := KDone k (None, er))) R ((ct_pendingCalls t)(k := None)) (ct_chan t) (insert ch (ct_pool t))"
      by (rule chanInv_leave [OF inv c forCall_None p [OF True]]) (simp add: True)
    then show ?thesis using True by (simp add: unregisterPendingCall_def)
  next
    case False then show ?thesis using same by (simp add: unregisterPendingCall_def)
  qed
  show "tabInv (C(c := KDone k (None, er))) R (snd (giveUp negotiated k ch canceled t))"
  proof (cases "ct_pendingCalls t k = Some ch")
    case True
    have "chanInv (C(c := KDone k (None, er))) R ((ct_pendingCalls t)(k := None)) (ct_chan t) (ct_pool t)"
      by (rule chanInv_leave [OF inv c forCall_None p [OF True]]) (simp add: True)
    then show ?thesis using True by (simp add: giveUp_def abandonCall_def Let_def)
  next
    case False then show ?thesis using same by (simp add: giveUp_def abandonCall_def)
  qed
qed

text \<open>The whole invariant, after \<open>n\<close> calls.\<close>

definition callInv :: "nat \<Rightarrow> callSys \<Rightarrow> bool" where
  "callInv n s \<longleftrightarrow> keysInv n s \<and> tabInv (cs_call s) (cs_route s) (cs_tab s) \<and> orderInv (cs_tab s)"

lemma callInv_init: "callInv 0 callInit"
  by (simp add: callInv_def keysInv_def callInit_def noCalls_def chanInv_def orderInv_def)

lemma takePending_tab:
  "takePending hdr m t = (None, t') \<Longrightarrow> ct_pendingCalls t' = ct_pendingCalls t \<and> ct_chan t' = ct_chan t \<and> ct_pool t' = ct_pool t"
  "takePending hdr m t = (Some ch, t') \<Longrightarrow> ct_pendingCalls t (callKey hdr) = Some ch \<and>
     ct_pendingCalls t' = (ct_pendingCalls t)(callKey hdr := None) \<and> ct_chan t' = ct_chan t \<and> ct_pool t' = ct_pool t"
  by (auto simp: takePending_def Let_def split: option.splits if_splits)

lemma callInv_step:
  assumes "callStep new s t" "callInv n s" "(if new then Suc n else n) < 2 ^ 64"
  shows "callInv (if new then Suc n else n) t"
  using assms
proof (induction rule: callStep.induct)
  case (c_call s c ch g mid sid)
  note inv = c_call(4) [unfolded callInv_def]
  note key = keysInv_call [OF conjunct1 [OF inv] _ c_call(1,3), of sid]
  have "tabInv ((cs_call s)(c := KSend (sid, mid) ch)) (cs_route s) (registerPendingCall (sid, mid) ch (cs_tab s))"
    using chanInv_start [of "cs_call s" "cs_route s" _ _ _ c "(sid, mid)" ch] inv c_call(1,2,5) key(1)
    by (simp add: freshCall_def registerPendingCall_def)
  then show ?case using inv key(2) c_call(5) orderInv_ops(1) by (simp add: callInv_def)
next
  case (c_sendFails s c k ch)
  then show ?case using unregister_inv(1) [of "cs_call s" "cs_route s" "cs_tab s" c k ch] orderInv_ops(2)
    by (auto simp: callInv_def intro: keysInv_same)
next
  case (c_sent s c k ch)
  then show ?case using chanInv_sent [of "cs_call s" _ _ _ _ c k ch] by (auto simp: callInv_def intro: keysInv_same)
next
  case (c_receive s c k ch r t)
  then show ?case using chanInv_receive [of "cs_call s" "cs_route s" _ "ct_chan (cs_tab s)" _ c k ch r] orderInv_ops(6) [OF _ c_receive(2)]
    by (auto simp: callInv_def receiveResult_def split: option.splits intro: keysInv_same)
next
  case (c_giveUp s c k ch)
  then show ?case using unregister_inv(2) [of "cs_call s" "cs_route s" "cs_tab s" c k ch] orderInv_ops(3)
    by (auto simp: callInv_def intro: keysInv_same)
next
  case (c_noDispatcher s c k ch)
  then show ?case using unregister_inv(1) [of "cs_call s" "cs_route s" "cs_tab s" c k ch] orderInv_ops(2)
    by (auto simp: callInv_def intro: keysInv_same)
next
  case (r_take s j hdr m ch t abortErr)
  have "forCall (callKey hdr) (m, abortErr)" using r_take(3) by (auto simp: forCall_def)
  then show ?case
    using chanInv_take [of "cs_call s" "cs_route s" _ _ _ j hdr ch "(m, abortErr)"] takePending_tab(2) [OF r_take(2)]
      r_take(1,4) orderInv_ops(4) [of "cs_tab s" hdr m]
    by (auto simp: callInv_def r_take(2) intro: keysInv_same)
next
  case (r_none hdr m s t)
  then show ?case using takePending_tab(1) [OF r_none(1)] orderInv_ops(4) [of "cs_tab s" hdr m]
    by (auto simp: callInv_def r_none(1) intro: keysInv_same)
next
  case (r_put s j hdr ch r t)
  then show ?case using chanInv_put [of "cs_call s" "cs_route s" _ _ _ j hdr ch r] orderInv_ops(5) [OF _ r_put(2)]
    by (auto simp: callInv_def sendResult_def split: option.splits intro: keysInv_same)
next
  case (f_fail keys s er)
  then show ?case using failPendingCalls_inv [of "cs_call s" "cs_route s" "cs_tab s" er keys] failPendingCalls_order
    by (auto simp: callInv_def intro: keysInv_same)
qed

lemma callReach_inv: "callReach n s \<Longrightarrow> n < 2 ^ 64 \<Longrightarrow> callInv n s"
proof (induction rule: callReach.induct)
  case reach_init show ?case by (rule callInv_init)
next
  case (reach_step n s new t)
  then show ?case using callInv_step [OF reach_step(2)] by (cases new) auto
qed

section \<open>What the calls get\<close>

lemma sendResult_free: "ct_chan t ch = None \<Longrightarrow> \<exists>t'. sendResult ch r t = Some t'"
  by (simp add: sendResult_def)

lemma receiveResult_full: "ct_chan t ch \<noteq> None \<Longrightarrow> \<exists>r t'. receiveResult ch t = Some (r, t')"
  by (auto simp: receiveResult_def)

text \<open>A call that waits is in the table, has its result, or has a receiver about to send it.\<close>

lemma waiting_served:
  assumes inv: "tabInv C R t" and c: "C c = KWait k ch"
  shows "ct_pendingCalls t k = Some ch \<or> (\<exists>r t'. receiveResult ch t = Some (r, t')) \<or>
     (\<exists>j hdr r. R j = RoutePut hdr ch r \<and> callKey hdr = k)"
proof -
  have h: "callHolds (C c) = Some (k, ch)" using c by simp
  show ?thesis using chanInvD(9) [OF inv h] receiveResult_full chanInvD(4) [OF inv _ h] by metis
qed

lemma abandoned_bounded: "orderInv t \<Longrightarrow> card (ct_abandoned t) \<le> maxAbandonedCalls"
  unfolding orderInv_def by (meson List.finite_set card_length card_mono le_trans)

text \<open>
  C9: calls do not get in each other's way. In every interleaving of any number of calls with the
  goroutines that route responses, fail the pending calls or abandon them, up to the point where
  2^64 message identifiers were given out: (1) a call that returned a message returned the response
  to its own request; (2) no two calls share an identifier; (3) the send on the channel of a call
  never blocks; (4) a recycled channel is empty and nobody else refers to it; (5) a call that waits
  is still in the table, or its result is there, or is about to be sent to it; (6) when the pending
  calls are failed none of them is left without a result; (7) the set of
  the calls that gave up and the list that orders them are bounded.
\<close>

theorem call_isolation:
  assumes "callReach n s" "n < 2 ^ 64"
  shows "(\<forall>c k m e. cs_call s c = KDone k (Some m, e) \<longrightarrow> callKey (ms_hdr m) = k) \<and>
     (\<forall>c c' k. callOf (cs_call s c) = Some k \<and> callOf (cs_call s c') = Some k \<longrightarrow> c = c') \<and>
     (\<forall>j hdr ch r. cs_route s j = RoutePut hdr ch r \<longrightarrow> (\<exists>t. sendResult ch r (cs_tab s) = Some t)) \<and>
     (\<forall>ch \<in> ct_pool (cs_tab s). ct_chan (cs_tab s) ch = None \<and> ch \<notin> ran (ct_pendingCalls (cs_tab s)) \<and>
        (\<forall>c k. callHolds (cs_call s c) \<noteq> Some (k, ch)) \<and> (\<forall>j hdr r. cs_route s j \<noteq> RoutePut hdr ch r)) \<and>
     (\<forall>c k ch. cs_call s c = KWait k ch \<longrightarrow>
        ct_pendingCalls (cs_tab s) k = Some ch \<or> (\<exists>r t. receiveResult ch (cs_tab s) = Some (r, t)) \<or>
        (\<exists>j hdr r. cs_route s j = RoutePut hdr ch r \<and> callKey hdr = k)) \<and>
     (\<forall>c k ch er keys. cs_call s c = KWait k ch \<and> set keys = dom (ct_pendingCalls (cs_tab s)) \<longrightarrow>
        (\<exists>r t. receiveResult ch (failPendingCalls er keys (cs_tab s)) = Some (r, t)) \<or>
        (\<exists>j hdr r. cs_route s j = RoutePut hdr ch r \<and> callKey hdr = k)) \<and>
     card (ct_abandoned (cs_tab s)) \<le> maxAbandonedCalls \<and> length (ct_abandonedOrder (cs_tab s)) \<le> maxAbandonedCalls"
proof -
  let ?t = "cs_tab s"
  have "callInv n s" by (rule callReach_inv [OF assms])
  then have keys: "keysInv n s" and inv: "tabInv (cs_call s) (cs_route s) ?t" and order: "orderInv ?t"
    by (simp_all add: callInv_def)
  note D = chanInvD [OF inv]
  have 1: "callKey (ms_hdr m) = k" if "cs_call s c = KDone k (Some m, e)" for c k m e
    using D(10) [OF that] by (simp add: forCall_def)
  have 2: "c = c'" if "callOf (cs_call s c) = Some k \<and> callOf (cs_call s c') = Some k" for c c' k
    using keysInvD(3) [OF keys] that by blast
  have 3: "\<exists>t. sendResult ch r ?t = Some t" if "cs_route s j = RoutePut hdr ch r" for j hdr ch r
    using D(3) [OF that] sendResult_free by blast
  have 4: "ct_chan ?t ch = None \<and> ch \<notin> ran (ct_pendingCalls ?t) \<and>
      (\<forall>c k. callHolds (cs_call s c) \<noteq> Some (k, ch)) \<and> (\<forall>j hdr r. cs_route s j \<noteq> RoutePut hdr ch r)"
    if "ch \<in> ct_pool ?t" for ch
  proof (intro conjI allI)
    show "ct_chan ?t ch = None" using D(6) that by (metis option.exhaust)
    show "ch \<notin> ran (ct_pendingCalls ?t)" using D(8) [OF that] by (auto simp: ran_def simp del: pairs_off)
    show "callHolds (cs_call s c) \<noteq> Some (k, ch)" for c k using D(8) [OF that] by blast
    show "cs_route s j \<noteq> RoutePut hdr ch r" for j hdr r using D(3) that by blast
  qed
  have 6: "(\<exists>r t. receiveResult ch (failPendingCalls er keys ?t) = Some (r, t)) \<or>
      (\<exists>j hdr r. cs_route s j = RoutePut hdr ch r \<and> callKey hdr = k)"
    if "cs_call s c = KWait k ch \<and> set keys = dom (ct_pendingCalls ?t)" for c k ch er keys
  proof -
    note f = failPendingCalls_inv [OF inv, of er keys]
    have "ct_pendingCalls (failPendingCalls er keys ?t) k = None"
      using f that by (cases "k \<in> dom (ct_pendingCalls ?t)") (auto simp: restrict_map_def dom_def)
    then show ?thesis using waiting_served [OF conjunct1 [OF f] conjunct1 [OF that]] by simp
  qed
  have 7: "length (ct_abandonedOrder ?t) \<le> maxAbandonedCalls" using order by (simp add: orderInv_def)
  show ?thesis
    by (intro conjI allI ballI impI; (fact 2 | fact 3 | fact abandoned_bounded [OF order] | fact 7 | (erule 1) | (erule 4) | (erule 6)
      | (erule waiting_served [OF inv]) | (drule 4; blast) | (drule 4; simp)))
qed

text \<open>One call: its request is sent, the response is routed and received.\<close>

definition wit_resp :: Message where
  "wit_resp = (pool_get 64 None 3)\<lparr>ms_hdr := \<lparr>ah_streamID = 0, ah_messageID = 1, ah_flags = AdvFlagResponse, ah_aux = 0\<rparr>\<rparr>"

definition wit_calls :: "callTable \<Rightarrow> callPc \<Rightarrow> routePc \<Rightarrow> callSys" where
  "wit_calls t p r = \<lparr>cs_gen = 1, cs_tab = t, cs_call = (\<lambda>_. KIdle)(0 := p), cs_route = (\<lambda>_. RouteIdle)(0 := r)\<rparr>"

lemma wit_calls_run:
  "callReach 1 (wit_calls (noCalls\<lparr>ct_pool := {7}\<rparr>) (KDone (0, 1) (Some wit_resp, None)) RouteIdle)"
proof -
  let ?t = "noCalls\<lparr>ct_pendingCalls := Map.empty((0, 1) \<mapsto> 7)\<rparr>"
  let ?r = "(Some wit_resp, None) :: advancedDispatchResult"
  have "callStep True callInit (wit_calls ?t (KSend (0, 1) 7) RouteIdle)"
    using c_call [of callInit 0 7 1 1 0]
    by (simp add: callInit_def wit_calls_def freshCall_def noCalls_def nextMessageID_def registerPendingCall_def fun_upd_idem)
  from reach_step [OF reach_init this] have 1: "callReach 1 (wit_calls ?t (KSend (0, 1) 7) RouteIdle)" by simp
  have "callStep False (wit_calls ?t (KSend (0, 1) 7) RouteIdle) (wit_calls ?t (KWait (0, 1) 7) RouteIdle)"
    using c_sent [of "wit_calls ?t (KSend (0, 1) 7) RouteIdle" 0 "(0, 1)" 7] by (simp add: wit_calls_def)
  from reach_step [OF 1 this] have 2: "callReach 1 (wit_calls ?t (KWait (0, 1) 7) RouteIdle)" by simp
  have "callStep False (wit_calls ?t (KWait (0, 1) 7) RouteIdle)
      (wit_calls noCalls (KWait (0, 1) 7) (RoutePut (ms_hdr wit_resp) 7 ?r))"
    using r_take [of "wit_calls ?t (KWait (0, 1) 7) RouteIdle" 0 "ms_hdr wit_resp" "Some wit_resp" 7 noCalls None]
    by (simp add: wit_calls_def takePending_def callKey_def wit_resp_def noCalls_def)
  from reach_step [OF 2 this]
  have 3: "callReach 1 (wit_calls noCalls (KWait (0, 1) 7) (RoutePut (ms_hdr wit_resp) 7 ?r))" by simp
  let ?t' = "noCalls\<lparr>ct_chan := Map.empty(7 \<mapsto> ?r)\<rparr>"
  have "callStep False (wit_calls noCalls (KWait (0, 1) 7) (RoutePut (ms_hdr wit_resp) 7 ?r)) (wit_calls ?t' (KWait (0, 1) 7) RouteIdle)"
    using r_put [of "wit_calls noCalls (KWait (0, 1) 7) (RoutePut (ms_hdr wit_resp) 7 ?r)" 0 "ms_hdr wit_resp" 7 ?r ?t']
    by (simp add: wit_calls_def sendResult_def noCalls_def)
  from reach_step [OF 3 this] have 4: "callReach 1 (wit_calls ?t' (KWait (0, 1) 7) RouteIdle)" by simp
  have "callStep False (wit_calls ?t' (KWait (0, 1) 7) RouteIdle) (wit_calls (noCalls\<lparr>ct_pool := {7}\<rparr>) (KDone (0, 1) ?r) RouteIdle)"
    using c_receive [of "wit_calls ?t' (KWait (0, 1) 7) RouteIdle" 0 "(0, 1)" 7 ?r "noCalls\<lparr>ct_pool := {7}\<rparr>"]
    by (simp add: wit_calls_def receiveResult_def noCalls_def)
  from reach_step [OF 4 this] show ?thesis by simp
qed

theorem call_isolation_witness:
  "\<exists>s. callReach 1 s \<and> cs_call s 0 = KDone (0, 1) (Some wit_resp, None) \<and> callKey (ms_hdr wit_resp) = (0, 1) \<and>
     7 \<in> ct_pool (cs_tab s) \<and> ct_chan (cs_tab s) 7 = None"
proof -
  let ?s = "wit_calls (noCalls\<lparr>ct_pool := {7}\<rparr>) (KDone (0, 1) (Some wit_resp, None)) RouteIdle"
  have s: "cs_call ?s 0 = KDone (0, 1) (Some wit_resp, None)" "7 \<in> ct_pool (cs_tab ?s)" by (simp_all add: wit_calls_def)
  have n: "(1::nat) < 2 ^ 64" by simp
  note iso = call_isolation [OF wit_calls_run n]
  have "callKey (ms_hdr wit_resp) = (0, 1)" by (rule conjunct1 [OF iso, rule_format, OF s(1)])
  moreover have "ct_chan (cs_tab ?s) 7 = None"
    by (rule conjunct1 [OF bspec [OF conjunct1 [OF conjunct2 [OF conjunct2 [OF conjunct2 [OF iso]]]] s(2)]])
  ultimately show ?thesis using wit_calls_run s by blast
qed

end
