(* ===== verification/Spec2Isabelle.thy ===== *)
theory Spec2Isabelle
  imports Packet Mpmc_Concurrent Mpmc_Wait Mpmc_Park Peer_Monitor Init_Concurrent Link_Open Link_Close Connect
    Adv_Interleave Adv_Negotiate Adv_Shutdown Adv_Calls
begin

text \<open>
  HQQ (the Go module \<^verbatim>\<open>src/\<close>) moves messages between two processes through one shared-memory segment.
  This library models the transport, from the lock-free ring up to the calls of the Advanced
  Protocol, as executable HOL functions and, where threads or processes interleave, as step
  relations; its theorems say what each layer promises to the next.

  \<^bold>\<open>The program and its parts.\<close>

  A segment starts with a superblock (\<^verbatim>\<open>src/superblock.go\<close>) and holds, per direction, a ring of 64-byte
  packets (\<^verbatim>\<open>src/internal/mpmc\<close>, \<^verbatim>\<open>src/internal/protocol\<close>) and a buffer per slot. The first endpoint claims
  and initializes the segment and is its Primary, the second joins as Secondary
  (\<^verbatim>\<open>src/standard.go\<close>); each watches the heartbeat of the other. A Standard link sends messages of one
  buffer. A listener (\<^verbatim>\<open>src/listener.go\<close>) is a second kind of segment with a ring of connect records:
  a client creates a link segment, announces its name, and the acceptor opens it. The Advanced
  Protocol (\<^verbatim>\<open>src/advanced*.go\<close>) runs on a Standard link: the endpoints negotiate, cut messages into
  chunk frames, put them together again, and match responses with the calls that wait.

  \<^bold>\<open>Theories and sources.\<close>

  \<^item> \<^verbatim>\<open>Hqq_Prelude\<close>, \<^verbatim>\<open>Errors\<close>: Go integers as words, byte slices as lists, the little-endian codec;
    the error values of \<^verbatim>\<open>errors.go\<close> with what they wrap, and \<^verbatim>\<open>errors.Is\<close>.
  \<^item> \<^verbatim>\<open>Packet\<close> (\<^verbatim>\<open>internal/protocol/protocol.go\<close>): a packet is a list of 64 bytes; the constructors and
    accessors by name.
  \<^item> \<^verbatim>\<open>Fifo_Spec\<close>: the locale of a bounded queue, interpreted in \<^verbatim>\<open>Mpmc_Fifo\<close> on the ring.
  \<^item> \<^verbatim>\<open>Mpmc_Ring\<close> (\<^verbatim>\<open>internal/mpmc/mpmc.go\<close>): the ring memory as a record, one definition per operation
    (claim, publish, release, enqueue, dequeue, zero copy, reservations, format, attach).
    \<^verbatim>\<open>Mpmc_Fifo\<close>: calls that do not overlap. \<^verbatim>\<open>Mpmc_Concurrent\<close>: any number of threads, one atomic
    access per step. \<^verbatim>\<open>Mpmc_Wait\<close>: the backoff of a blocked call. \<^verbatim>\<open>Mpmc_Park\<close> (\<^verbatim>\<open>waitgroup.go\<close>): parking.
  \<^item> \<^verbatim>\<open>Layout\<close> (\<^verbatim>\<open>superblock.go\<close>, \<^verbatim>\<open>options.go\<close>, \<^verbatim>\<open>listener_layout.go\<close>): sizes, offsets, names.
  \<^item> \<^verbatim>\<open>Superblock\<close> (\<^verbatim>\<open>superblock.go\<close>): the superblock as a record, the claim loop against an environment
    that acts between its accesses, publication; \<^verbatim>\<open>Init_Concurrent\<close>: racing initializers;
    \<^verbatim>\<open>Peer_Monitor\<close>: \<^verbatim>\<open>checkPeer\<close> and \<^verbatim>\<open>heartbeatLoop\<close>.
  \<^item> \<^verbatim>\<open>Recv_Remainder\<close>, \<^verbatim>\<open>Standard_Link\<close> (\<^verbatim>\<open>standard.go\<close>, \<^verbatim>\<open>reservation.go\<close>, \<^verbatim>\<open>packetconn.go\<close>): the state of an
    endpoint as a record and every send and receive call; \<^verbatim>\<open>Link_Stream\<close>: its contract; \<^verbatim>\<open>Link_Open\<close>:
    \<^verbatim>\<open>NewStandardLink\<close> and \<^verbatim>\<open>openStandardLink\<close>; \<^verbatim>\<open>Link_Close\<close>: \<^verbatim>\<open>Close\<close> against running calls.
  \<^item> \<^verbatim>\<open>Listener\<close>, \<^verbatim>\<open>Listener_Session\<close>, \<^verbatim>\<open>Acceptor\<close> (\<^verbatim>\<open>listener.go\<close>) and \<^verbatim>\<open>Connect\<close> (\<^verbatim>\<open>connect.go\<close> and the client
    half of \<^verbatim>\<open>listener.go\<close>): claiming a listener, the running acceptor, connecting.
  \<^item> \<^verbatim>\<open>Adv_Message\<close> (\<^verbatim>\<open>message.go\<close>, metadata of \<^verbatim>\<open>advanced_request.go\<close>), \<^verbatim>\<open>Adv_Chunks\<close> and \<^verbatim>\<open>Adv_Send\<close>
    (\<^verbatim>\<open>advanced_io.go\<close>), \<^verbatim>\<open>Adv_Negotiate\<close> (\<^verbatim>\<open>advanced.go\<close>), \<^verbatim>\<open>Adv_Calls\<close> (\<^verbatim>\<open>advanced_dispatch.go\<close> and
    \<^verbatim>\<open>awaitResponse\<close>), \<^verbatim>\<open>Adv_Shutdown\<close> (\<^verbatim>\<open>Shutdown\<close> and the requests in flight).

  \<^bold>\<open>How the code is read.\<close>

  A struct is a record, an error return is the left side of a sum or an option, a loop is a recursive
  function. \<^verbatim>\<open>None\<close> as the result of a whole call means that the call still waits when its inputs are
  used up. What the code takes from outside is an argument: the clock, random tokens, recycled
  buffers, the order in which a Go map is swept, the results of system calls, and what other
  processes do to the shared memory between two accesses (a list of turns or observations,
  one for each time the code looks). A statement over such lists holds for lists of every
  length; nothing depends on a chosen bound of fuel. In a step relation an access to a shared
  atomic variable or channel, or a section under a mutex, is one step, and memory is
  sequentially consistent, as Go's atomics are. Coarser are a few steps whose parts no theorem
  tells apart: a call of \<^verbatim>\<open>Adv_Calls\<close> takes its identifier, takes a channel and registers in one step, and in
  \<^verbatim>\<open>Acceptor\<close> taking a record or a link and counting it are one step.

  \<^bold>\<open>What is proved.\<close>

  \<^item> The ring. Interleaved producers and consumers deliver every element once and in order, no slot
    has two owners, stale completions change nothing (\<^verbatim>\<open>Mpmc_Concurrent\<close>). Without overlap the ring
    is a bounded FIFO queue, also when its 64-bit indices wrap around (\<^verbatim>\<open>Mpmc_Fifo\<close>). No process
    sleeps on a condition that holds, and followers of a leader are always released
    (\<^verbatim>\<open>Mpmc_Park\<close>); a wait notices cancellation and a deadline that passes within a bounded number of
    steps (\<^verbatim>\<open>Mpmc_Wait\<close>).
  \<^item> The segment. Layouts are disjoint and in bounds (\<^verbatim>\<open>Layout\<close>). Roles are exclusive, a session goes
    through its states as documented (\<^verbatim>\<open>Superblock\<close>), and an endpoint that lost an initialization
    does at most one further step (\<^verbatim>\<open>Init_Concurrent\<close>, with the limit of that guarantee). A live peer
    is never reported lost, a dead one is reported by the first look after the timeout (\<^verbatim>\<open>Peer_Monitor\<close>).
  \<^item> The link. Any sequence of sends and receives behaves like a queue of messages, a call waits
    exactly when it must (\<^verbatim>\<open>Link_Stream\<close>), and this holds for the Primary and the Secondary that opened a
    fresh segment (\<^verbatim>\<open>Link_Open\<close>, which composes layout, claim, format, attach and the calls). \<^verbatim>\<open>Close\<close> detaches
    only when no call runs (\<^verbatim>\<open>Link_Close\<close>).
  \<^item> Listening. A client finds what the acceptor published, both sides admit the same requests
    (\<^verbatim>\<open>Listener_Session\<close>), every request is accounted for and stuck slots are recovered (\<^verbatim>\<open>Acceptor\<close>),
    and an attempt to connect makes one valid request (\<^verbatim>\<open>Connect\<close>).
  \<^item> Messages. Metadata blocks and packets are read back as written. Whatever a peer sends, the
    reassembly tables stay well formed and within their limits and messages keep the headers they were
    opened with (\<^verbatim>\<open>Adv_Reassembly\<close>); the frames of
    any messages, interleaved in any way, give back exactly these messages (\<^verbatim>\<open>Adv_Interleave\<close>).
    A message sent over a link reaches the receiver as it was (\<^verbatim>\<open>message_end_to_end\<close> below, which composes link, ring,
    sending and reassembly). Negotiating endpoints agree (\<^verbatim>\<open>Adv_Negotiate\<close>, where
    the system refines one in which answering and storing the result are a single step). Calls get the response to their own
    request and no other (\<^verbatim>\<open>Adv_Calls\<close>). A single \<^verbatim>\<open>Shutdown\<close> drains (\<^verbatim>\<open>Adv_Shutdown\<close>).

  Three theorems are about limits of the code: \<^verbatim>\<open>ready_while_other_initializes\<close> (\<^verbatim>\<open>Init_Concurrent\<close>),
  \<^verbatim>\<open>recovered_record_is_stale\<close> (\<^verbatim>\<open>Acceptor\<close>) and \<^verbatim>\<open>concurrent_shutdown_stranded\<close> (\<^verbatim>\<open>Adv_Shutdown\<close>);
  and the second half of \<^verbatim>\<open>stuck_slot_recovered\<close> (\<^verbatim>\<open>Acceptor\<close>), with its witness, shows how the late commit of
  a slow client blocks the queue of a listener.

  \<^bold>\<open>Not modelled.\<close>

  \<^item> Operating-system layers: futexes (their documented behaviour is a parameter of \<^verbatim>\<open>Mpmc_Park\<close>),
    mapping and naming of shared memory (\<^verbatim>\<open>internal/shm\<close>, \<^verbatim>\<open>internal/mmap\<close>, \<^verbatim>\<open>named_link.go\<close>), launching
    and verifying processes (\<^verbatim>\<open>launch\<close>, \<^verbatim>\<open>lifeline\<close>, \<^verbatim>\<open>secureexec\<close>).
  \<^item> The rest of the Advanced link: opening and closing of streams (\<^verbatim>\<open>stream.go\<close>, \<^verbatim>\<open>advanced_stream.go\<close>), the
    choice between synchronous receiver and dispatcher, delivery to queues, the control sender
    (\<^verbatim>\<open>advanced_control.go\<close>), request contexts with their timers, and the RPC server (\<^verbatim>\<open>rpc.go\<close>). They
    are mostly goroutine plumbing over Go channels around the modelled operations.
  \<^item> The binding generator and its run-time (\<^verbatim>\<open>bindgen\<close>), the command-line tools and the conformance
    vectors: separate programs that use the library or describe it.
  \<^item> Statistics other than the counters that occur in the theorems, error texts, and
    allocation behaviour.
\<close>

section \<open>From the sender to the receiver\<close>

text \<open>
  C4: a message travels. On an admitted link whose transmit ring has room for its frames
  \<^verbatim>\<open>sendAdvancedPayload\<close> succeeds and appends frames to the ring; a receiver that consumes these
  frames, in the order of the ring and whatever its pool and clock give it, hands out exactly
  one message, which has the header, the payload and the metadata that were sent, no frame is an
  error, and its reassembly budget is what it was before.
\<close>

theorem message_end_to_end:
  assumes "chan_inv (txHandle l) (lk_bufferSize l) (txRing l sg)" "enterTx True (se_now env) (sg_sb sg) l = (None, l1)"
    "ring_len (txRing l sg) + numChunks (lk_bufferSize l) a \<le> unat (h_size (txHandle l))"
    "numChunks (lk_bufferSize l) a \<le> length (se_turns env)"
    "ra_inv st" "sendable (ra_negotiated st) (lk_bufferSize l) (ra_maxMessageSize st) a"
    "map_of (ra_assemblies st) (msgKey a) = None" "msgKey a \<notin> ra_rejected st"
    "unat (ra_assemblyBytes st) + messageBudget (lk_bufferSize l) a \<le> unat (ra_maxReassemblyBytes st)"
    "length envs = numChunks (lk_bufferSize l) a"
  shows "\<exists>m' ev ds outs st' msg.
     sendAdvancedPayload env (ra_maxMessageSize st) a l sg = Some (None, exitTx l1, set_txRing l m' sg, ev) \<and>
     chan_inv (txHandle l) (lk_bufferSize l) m' \<and>
     ring_abs (txHandle l) m' = ring_abs (txHandle l) (txRing l sg) @ ds \<and>
     consumeAll (map2 (\<lambda>e d. (e, fst d, snd d)) envs ds) st = (outs, st') \<and>
     received outs = [msg] \<and> delivered a msg \<and>
     (\<forall>out \<in> set outs. snd (snd (snd out)) = None) \<and> ra_assemblyBytes st' = ra_assemblyBytes st"
proof -
  let ?cs = "lk_bufferSize l"
  have s: "0 < ?cs" "totalSize a \<le> unat (ra_maxMessageSize st)" "totalSize a < 2 ^ 63"
    using assms(6) by (simp_all add: sendable_def)
  obtain m' ev ds where d: "sendAdvancedPayload env (ra_maxMessageSize st) a l sg = Some (None, exitTx l1, set_txRing l m' sg, ev)"
    "chan_inv (txHandle l) ?cs m'" "ring_abs (txHandle l) m' = ring_abs (txHandle l) (txRing l sg) @ ds"
    "length ds = numChunks ?cs a" "\<forall>j < length ds. carries ?cs a j (ds ! j)"
    using sendAdvancedPayload_room [OF assms(1) s(1) assms(2) s(2,3) assms(3,4)] by blast
  let ?evs = "map2 (\<lambda>e d. (e, 0, d)) envs ds"
  obtain outs st' where r: "consumeAll (frames ?evs) st = (outs, st')" by fastforce
  have i: "interleaved ?cs [a] (\<lambda>_. 0) ?evs" using d(4,5) assms(10) by (intro interleaved_single) simp_all
  note b = interleaved_batch [of st "[a]" ?cs ?evs outs st', OF assms(5) _ _ _ _ i r]
  have b: "list_all2 (\<lambda>j m. delivered ([a] ! j) m) (finishOrder ?cs [a] (\<lambda>_. 0) ?evs) (received outs) \<and>
      mset (finishOrder ?cs [a] (\<lambda>_. 0) ?evs) = mset [0..<length [a]] \<and>
      (\<forall>out \<in> set outs. snd (snd (snd out)) = None) \<and> ra_assemblyBytes st' = ra_assemblyBytes st"
    by (rule b) (use assms(6-9) in simp_all)
  then have o: "finishOrder ?cs [a] (\<lambda>_. 0) ?evs = [0]" by simp
  obtain msg where "received outs = [msg]" "delivered a msg" using b unfolding o by (auto simp: list_all2_Cons1)
  moreover have "consumeAll (map2 (\<lambda>e d. (e, fst d, snd d)) envs ds) st = (outs, st')"
    using r frames_single [of envs ds] assms(10) d(4) by simp
  ultimately show ?thesis using d(1-3) b by blast
qed

text \<open>A message of six bytes on a link with two slots of four bytes.\<close>

theorem message_end_to_end_witness:
  "\<exists>m' ev l' ds outs st' msg.
     sendAdvancedPayload \<lparr>se_now = 0, se_turns = [[], []], se_abort = [], se_ctxErr = None, se_canceled = ExtErr 0\<rparr>
       67108864 (wit_msg 1 [1, 2, 3, 4, 5, 6]) (wit_link LinkModePrimary) wit_seg
       = Some (None, l', set_txRing (wit_link LinkModePrimary) m' wit_seg, ev) \<and>
     consumeAll (map2 (\<lambda>e d. (e, fst d, snd d)) [wit_cenv, wit_cenv] ds) (newReassembly 0 0 0) = (outs, st') \<and>
     received outs = [msg] \<and> Bytes msg = [1, 2, 3, 4, 5, 6]"
proof -
  let ?a = "wit_msg 1 [1, 2, 3, 4, 5, 6]" and ?l = "wit_link LinkModePrimary" and ?st = "newReassembly 0 0 0"
  let ?env = "\<lparr>se_now = 0, se_turns = [[], []], se_abort = [], se_ctxErr = None, se_canceled = ExtErr 0\<rparr>"
  have st: "ra_negotiated ?st = 0" "ra_maxMessageSize ?st = 67108864" "ra_assemblies ?st = []" "ra_rejected ?st = {}"
    "ra_assemblyBytes ?st = 0" "ra_maxReassemblyBytes ?st = 268435456"
    by (simp_all add: newReassembly_def hqq_consts)
  have l: "lk_bufferSize ?l = 4" "h_size (txHandle ?l) = 2" "ring_len (txRing ?l wit_seg) = 0"
    by (simp_all add: txHandle_def txRing_def wit_link_def wit_h_def wit_seg_def wit_chan_def ring_len_def)
  have n: "numChunks 4 ?a = 2" "messageBudget 4 ?a = 262" by (simp_all add: messageBudget_def numChunks_def totalSize_def wit_msg_def)
  have "ring_inv wit_h wit_chan" by code_simp
  then have inv: "chan_inv (txHandle ?l) (lk_bufferSize ?l) (txRing ?l wit_seg)"
    by (simp add: chan_inv_def slots_wf_def wit_link_def wit_seg_def wit_chan_def txHandle_def txRing_def)
  obtain l1 where adm: "enterTx True (se_now ?env) (sg_sb wit_seg) ?l = (None, l1)" using session_admits [OF wit_session] .
  have s: "sendable (ra_negotiated ?st) (lk_bufferSize ?l) (ra_maxMessageSize ?st) ?a"
    by (simp add: st l sendable_def wit_msg_def totalSize_def badFlags_def plainFlags_def)
  have "\<exists>m' ev ds outs st' msg. sendAdvancedPayload ?env (ra_maxMessageSize ?st) ?a ?l wit_seg = Some (None, exitTx l1, set_txRing ?l m' wit_seg, ev) \<and>
     chan_inv (txHandle ?l) (lk_bufferSize ?l) m' \<and> ring_abs (txHandle ?l) m' = ring_abs (txHandle ?l) (txRing ?l wit_seg) @ ds \<and>
     consumeAll (map2 (\<lambda>e d. (e, fst d, snd d)) [wit_cenv, wit_cenv] ds) ?st = (outs, st') \<and>
     received outs = [msg] \<and> delivered ?a msg \<and> (\<forall>out \<in> set outs. snd (snd (snd out)) = None) \<and> ra_assemblyBytes st' = ra_assemblyBytes ?st"
    by (rule message_end_to_end [OF inv adm _ _ ra_inv_fresh s]) (simp_all add: st l n)
  moreover have "delivered ?a msg \<Longrightarrow> Bytes msg = [1, 2, 3, 4, 5, 6]" for msg by (simp add: delivered_def wit_msg_def)
  ultimately show ?thesis unfolding st by blast
qed

end
